(* ===== verification/Lsm_Prelude.thy ===== *)
theory Lsm_Prelude
  imports Main "HOL-Library.Word" "HOL-Library.List_Lexorder" "HOL-Library.Monad_Syntax"
begin

unbundle bit_operations_syntax

text \<open>
  Shared vocabulary of the development.

  A Rust function that can panic (index out of range, \<^verbatim>\<open>unwrap\<close>/\<^verbatim>\<open>expect\<close> of an absent value,
  a failed \<^verbatim>\<open>debug_assert!\<close>, an overflowing shift or subtraction) is a function into
  \<^typ>\<open>'a option\<close>: \<^term>\<open>None\<close> is the panic and \<^term>\<open>Some\<close> the normal return, so a
  \<^verbatim>\<open>do\<close> block propagates a panic the way unwinding does.  A fallible function of the source
  (\<^verbatim>\<open>Result\<close>) additionally returns a sum, \<open>Inl\<close> the error.  The profile modelled is the checked
  (debug) one: overflow checks and \<^verbatim>\<open>debug_assert!\<close> are on, hence a \<^term>\<open>Some\<close> result is also the
  result of the release profile.

  \<^verbatim>\<open>usize\<close> values that index or measure live buffers are \<^typ>\<open>nat\<close> (Rust bounds every
  allocation by \<^verbatim>\<open>isize::MAX\<close>, \<open>vec_ok\<close> below); values that are encoded, shifted or masked keep
  their width as words.
\<close>

type_synonym u8 = "8 word"
type_synonym u16 = "16 word"
type_synonym u32 = "32 word"
type_synonym u64 = "64 word"
type_synonym bytes = "u8 list"

text \<open>Collections the component proofs draw on.\<close>

named_theorems slice_simps \<open>evaluation of slice reads and writes\<close>

subsection \<open>Vec operations that may panic\<close>

text \<open>\<^verbatim>\<open>xs[i]\<close>, \<^verbatim>\<open>xs[i] = v\<close>, \<^verbatim>\<open>&xs[a..b]\<close>, \<^verbatim>\<open>xs[a..b].copy_from_slice(src)\<close>, \<^verbatim>\<open>xs.resize(n, v)\<close>.\<close>

definition vec_get :: "'a list \<Rightarrow> nat \<Rightarrow> 'a option" where
  "vec_get xs i = (if i < length xs then Some (xs ! i) else None)"

definition vec_set :: "'a list \<Rightarrow> nat \<Rightarrow> 'a \<Rightarrow> 'a list option" where
  "vec_set xs i v = (if i < length xs then Some (xs[i := v]) else None)"

definition slice :: "'a list \<Rightarrow> nat \<Rightarrow> nat \<Rightarrow> 'a list option" where
  "slice xs a b = (if a \<le> b \<and> b \<le> length xs then Some (take (b - a) (drop a xs)) else None)"

definition copy_from_slice :: "'a list \<Rightarrow> nat \<Rightarrow> nat \<Rightarrow> 'a list \<Rightarrow> 'a list option" where
  "copy_from_slice xs a b src =
     (if a \<le> b \<and> b \<le> length xs \<and> length src = b - a
      then Some (take a xs @ src @ drop b xs) else None)"

definition vec_resize :: "'a list \<Rightarrow> nat \<Rightarrow> 'a \<Rightarrow> 'a list" where
  "vec_resize xs n v = take n xs @ replicate (n - length xs) v"

text \<open>\<^verbatim>\<open>assert!\<close>/\<^verbatim>\<open>debug_assert!\<close>, checked subtraction on unsigned integers, checked \<^verbatim>\<open>usize\<close> addition.\<close>

definition assert_that :: "bool \<Rightarrow> unit option" where
  "assert_that b = (if b then Some () else None)"

definition checked_sub :: "nat \<Rightarrow> nat \<Rightarrow> nat option" where
  "checked_sub a b = (if b \<le> a then Some (a - b) else None)"

definition usize_add :: "nat \<Rightarrow> nat \<Rightarrow> nat option" where
  "usize_add a b = (if a + b < 2 ^ 64 then Some (a + b) else None)"

text \<open>The allocation bound every Rust vector respects.\<close>

definition vec_ok :: "'a list \<Rightarrow> bool" where
  "vec_ok xs \<longleftrightarrow> length xs < 2 ^ 63"

lemma assert_that_simps [simp]:
  "assert_that True = Some ()" "assert_that False = None"
  "assert_that b = Some u \<longleftrightarrow> b"
  by (auto simp: assert_that_def)

lemma vec_get_simps [simp]:
  "i < length xs \<Longrightarrow> vec_get xs i = Some (xs ! i)"
  "length xs \<le> i \<Longrightarrow> vec_get xs i = None"
  by (auto simp: vec_get_def)

lemma vec_get_eq_Some [simp]: "vec_get xs i = Some v \<longleftrightarrow> i < length xs \<and> v = xs ! i"
  by (auto simp: vec_get_def)

lemma vec_get_eq_None [simp]: "vec_get xs i = None \<longleftrightarrow> length xs \<le> i"
  by (auto simp: vec_get_def)

lemma vec_set_simps [simp]:
  "i < length xs \<Longrightarrow> vec_set xs i v = Some (xs[i := v])"
  "length xs \<le> i \<Longrightarrow> vec_set xs i v = None"
  by (auto simp: vec_set_def)

lemma slice_eq_Some:
  "slice xs a b = Some ys \<longleftrightarrow> a \<le> b \<and> b \<le> length xs \<and> ys = take (b - a) (drop a xs)"
  by (auto simp: slice_def)

lemma slice_full [slice_simps]: "n = length xs \<Longrightarrow> slice xs 0 n = Some xs"
  by (simp add: slice_def)

lemma slice_append_mid [slice_simps]:
  "a = length xs \<Longrightarrow> b = a + length ys \<Longrightarrow> slice (xs @ ys @ zs) a b = Some ys"
  by (simp add: slice_def)

lemma slice_append_end [slice_simps]:
  "a = length xs \<Longrightarrow> b = a + length ys \<Longrightarrow> slice (xs @ ys) a b = Some ys"
  by (simp add: slice_def)

lemma slice_prefix [slice_simps]: "n = length xs \<Longrightarrow> slice (xs @ ys) 0 n = Some xs"
  by (simp add: slice_def)

lemma slice_out [slice_simps]: "length xs < b \<Longrightarrow> slice xs a b = None"
  by (simp add: slice_def)

lemma slice_append_mono: "slice xs a b = Some zs \<Longrightarrow> slice (xs @ ys) a b = Some zs"
  by (auto simp: slice_eq_Some)

lemma slice_length: "slice xs a b = Some ys \<Longrightarrow> length ys = b - a"
  by (auto simp: slice_def split: if_splits)

lemma slice_take: "b \<le> n \<Longrightarrow> n \<le> length xs \<Longrightarrow> slice (take n xs) a b = slice xs a b"
  by (auto simp: slice_def drop_take min_def)

lemma copy_from_slice_append [slice_simps]:
  "a = length xs \<Longrightarrow> b = a + length ys \<Longrightarrow> length src = length ys \<Longrightarrow>
   copy_from_slice (xs @ ys @ zs) a b src = Some (xs @ src @ zs)"
  by (simp add: copy_from_slice_def)

lemma copy_from_slice_eq_Some:
  "copy_from_slice xs a b src = Some ys \<longleftrightarrow>
     a \<le> b \<and> b \<le> length xs \<and> length src = b - a \<and> ys = take a xs @ src @ drop b xs"
  by (auto simp: copy_from_slice_def)

lemma length_copy_from_slice:
  "copy_from_slice xs a b src = Some ys \<Longrightarrow> length ys = length xs"
  by (auto simp: copy_from_slice_eq_Some)

lemma length_vec_resize [simp]: "length (vec_resize xs n v) = n"
  by (simp add: vec_resize_def)

lemma list_update_map_same [simp]: "(map f xs)[i := f (xs ! i)] = map f xs"
  by (metis list_update_id map_update)

lemma length_SucE:
  assumes "length xs = Suc n"
  obtains y ys where "xs = y # ys" and "length ys = n"
  using assms by (cases xs) auto

lemma vec_resize_grow: "length xs \<le> n \<Longrightarrow> vec_resize xs n v = xs @ replicate (n - length xs) v"
  by (simp add: vec_resize_def)

lemma vec_resize_append:
  "length xs \<le> n \<Longrightarrow> vec_resize (xs @ ys) n v = xs @ vec_resize ys (n - length xs) v"
  by (simp add: vec_resize_def)

lemma take_vec_resize: "m \<le> n \<Longrightarrow> m \<le> length xs \<Longrightarrow> take m (vec_resize xs n v) = take m xs"
  by (simp add: vec_resize_def min_def)

text \<open>
  Filling a buffer from left to right: after the prefix \<open>xs\<close> has been written, the next
  \<^verbatim>\<open>copy_from_slice\<close> at its end extends the prefix and consumes that many junk bytes.
\<close>

lemma copy_from_slice_fill [slice_simps]:
  assumes "a = length xs" and "b = a + length src" and "length src \<le> length junk"
  shows "copy_from_slice (xs @ junk) a b src = Some ((xs @ src) @ drop (length src) junk)"
  using assms by (simp add: copy_from_slice_def)

subsection \<open>Three-way comparison\<close>

text \<open>\<^verbatim>\<open>std::cmp::Ordering\<close>; byte strings compare lexicographically as \<^verbatim>\<open>[u8]\<close> does.\<close>

datatype ordering = Less | Equal | Greater

definition cmp :: "'a::linorder \<Rightarrow> 'a \<Rightarrow> ordering" where
  "cmp a b = (if a < b then Less else if a = b then Equal else Greater)"

lemma cmp_iff [simp]:
  "cmp a b = Less \<longleftrightarrow> a < b"
  "cmp a b = Equal \<longleftrightarrow> a = b"
  "cmp a b = Greater \<longleftrightarrow> b < a"
  by (auto simp: cmp_def)

lemma cmp_simps [simp]:
  "cmp a a = Equal" "a < b \<Longrightarrow> cmp a b = Less" "b < a \<Longrightarrow> cmp a b = Greater"
  by (auto simp: cmp_def)

lemma case_cmp:
  "(case cmp a b of Less \<Rightarrow> x | Equal \<Rightarrow> y | Greater \<Rightarrow> z) =
     (if a < b then x else if a = b then y else z)"
  by (simp add: cmp_def)

subsection \<open>Words read as numbers\<close>

lemma unat_drop_bit_div: "unat (drop_bit n w) = unat w div 2 ^ n"
  unfolding unat_drop_bit_eq by (rule drop_bit_eq_div)

lemma unat_take_bit_mod: "unat (take_bit n w) = unat w mod 2 ^ n"
  unfolding unsigned_take_bit_eq by (rule take_bit_eq_mod)

lemma unat_of_nat_small: "n < 2 ^ LENGTH('a) \<Longrightarrow> unat (of_nat n :: 'a::len word) = n"
  by (simp add: unat_of_nat)

subsection \<open>Big-endian integers\<close>

text \<open>\<^verbatim>\<open>to_be_bytes\<close> and \<^verbatim>\<open>from_be_bytes\<close> of the standard library, on the widths the code uses.\<close>

fun be_bytes :: "nat \<Rightarrow> 'a::len word \<Rightarrow> bytes" where
  "be_bytes 0 w = []"
| "be_bytes (Suc n) w = ucast (drop_bit (8 * n) w) # be_bytes n w"

fun be_value :: "bytes \<Rightarrow> nat" where
  "be_value [] = 0"
| "be_value (b # bs) = unat b * 256 ^ length bs + be_value bs"

definition to_be_bytes64 :: "u64 \<Rightarrow> bytes" where "to_be_bytes64 w = be_bytes 8 w"
definition to_be_bytes32 :: "u32 \<Rightarrow> bytes" where "to_be_bytes32 w = be_bytes 4 w"
definition to_be_bytes16 :: "u16 \<Rightarrow> bytes" where "to_be_bytes16 w = be_bytes 2 w"
definition from_be_bytes64 :: "bytes \<Rightarrow> u64" where "from_be_bytes64 bs = of_nat (be_value bs)"
definition from_be_bytes32 :: "bytes \<Rightarrow> u32" where "from_be_bytes32 bs = of_nat (be_value bs)"
definition from_be_bytes16 :: "bytes \<Rightarrow> u16" where "from_be_bytes16 bs = of_nat (be_value bs)"

lemma length_be_bytes [simp]: "length (be_bytes n w) = n"
  by (induction n) auto

lemma be_value_be_bytes: "be_value (be_bytes n w) = unat w mod 256 ^ n"
proof (induction n)
  case 0
  then show ?case by simp
next
  case (Suc n)
  have "unat (ucast (drop_bit (8 * n) w) :: u8) = unat w div 256 ^ n mod 256"
    by (simp only: unsigned_ucast_eq unat_drop_bit_div) (simp add: power_mult take_bit_eq_mod)
  moreover have "unat w mod 256 ^ Suc n = 256 ^ n * (unat w div 256 ^ n mod 256) + unat w mod 256 ^ n"
    using mod_mult2_eq [of "unat w" "256 ^ n" 256] by (simp add: mult.commute)
  ultimately show ?case
    using Suc by (simp add: mult.commute)
qed

lemma length_to_be_bytes [simp]:
  "length (to_be_bytes64 w) = 8" "length (to_be_bytes32 x) = 4" "length (to_be_bytes16 y) = 2"
  by (simp_all add: to_be_bytes64_def to_be_bytes32_def to_be_bytes16_def)

lemma be_word_full: "256 ^ n = (2::nat) ^ LENGTH('a) \<Longrightarrow> of_nat (be_value (be_bytes n w)) = (w :: 'a::len word)"
  by (simp add: be_value_be_bytes)

lemma from_to_be_bytes [simp]:
  "from_be_bytes64 (to_be_bytes64 w) = w"
  "from_be_bytes32 (to_be_bytes32 x) = x"
  "from_be_bytes16 (to_be_bytes16 y) = y"
  by (simp_all add: from_be_bytes64_def to_be_bytes64_def from_be_bytes32_def to_be_bytes32_def
      from_be_bytes16_def to_be_bytes16_def be_word_full)

end
