(* ===== verification/Os_File.thy ===== *)
theory Os_File
  imports Lsm_Prelude
begin

text \<open>
  What the program uses of \<^verbatim>\<open>std::fs::File\<close>: a byte sequence with a cursor.  \<^verbatim>\<open>write\<close> may accept
  fewer bytes than offered and \<^verbatim>\<open>read\<close> may return fewer than asked for; how many, and whether the call
  fails, is the operating system's choice and a parameter of the operations that use them (\<open>W\<close> and \<open>R\<close>).
  \<^verbatim>\<open>read_exact\<close> fails instead of returning short.  \<^verbatim>\<open>seek\<close> to an offset from the start and the \<^verbatim>\<open>read_exact\<close>
  of bytes that are there do not fail; where a seek is followed by a \<^verbatim>\<open>read\<close>, an error of either returns
  the same way and is the error of \<open>R\<close>.
\<close>

datatype io_error = UnexpectedEof | OsError

record File =
  f_data :: bytes
  f_pos :: nat

type_synonym writer = "File \<Rightarrow> bytes \<Rightarrow> io_error + nat"
type_synonym reader = "File \<Rightarrow> nat \<Rightarrow> io_error + nat"

definition file_create :: File where
  "file_create = \<lparr>f_data = [], f_pos = 0\<rparr>"

definition file_open :: "bytes \<Rightarrow> File" where
  "file_open bs = \<lparr>f_data = bs, f_pos = 0\<rparr>"

definition file_write :: "writer \<Rightarrow> File \<Rightarrow> bytes \<Rightarrow> (io_error + nat) \<times> File" where
  "file_write W fd buf =
     (case W fd buf of
        Inl e \<Rightarrow> (Inl e, fd)
      | Inr n \<Rightarrow> (let m = min n (length buf) in
          (Inr m, fd\<lparr>f_data := take (f_pos fd) (f_data fd) @ take m buf @ drop (f_pos fd + m) (f_data fd),
                     f_pos := f_pos fd + m\<rparr>)))"

definition file_seek :: "File \<Rightarrow> nat \<Rightarrow> File" where
  "file_seek fd p = fd\<lparr>f_pos := p\<rparr>"

definition file_read_exact :: "File \<Rightarrow> nat \<Rightarrow> (io_error + bytes) \<times> File" where
  "file_read_exact fd n =
     (if f_pos fd + n \<le> length (f_data fd)
      then (Inr (take n (drop (f_pos fd) (f_data fd))), fd\<lparr>f_pos := f_pos fd + n\<rparr>)
      else (Inl UnexpectedEof, fd))"

text \<open>
  \<^verbatim>\<open>read\<close> into a buffer of length \<open>n\<close>: the bytes obtained; at most what is left in the file, and
  at most what the reader \<open>R\<close> grants, unless \<open>R\<close> lets the call fail.
\<close>

definition file_read :: "reader \<Rightarrow> File \<Rightarrow> nat \<Rightarrow> (io_error + bytes) \<times> File" where
  "file_read R fd n =
     (case R fd n of
        Inl e \<Rightarrow> (Inl e, fd)
      | Inr m \<Rightarrow> (let got = take (min m n) (drop (f_pos fd) (f_data fd))
          in (Inr got, fd\<lparr>f_pos := f_pos fd + length got\<rparr>)))"

text \<open>The operating system accepts every write in full, and reads are only cut short by the end of file.\<close>

definition full_writes :: "writer \<Rightarrow> bool" where
  "full_writes W \<longleftrightarrow> (\<forall>fd buf. W fd buf = Inr (length buf))"

definition full_reads :: "reader \<Rightarrow> bool" where
  "full_reads R \<longleftrightarrow> (\<forall>fd n. R fd n = Inr n)"

text \<open>A handle positioned at the end of its data, as a file that is only appended to.\<close>

definition at_end :: "File \<Rightarrow> bool" where
  "at_end fd \<longleftrightarrow> f_pos fd = length (f_data fd)"

lemma at_end_create [simp]: "at_end file_create"
  by (simp add: at_end_def file_create_def)

lemma f_data_create [simp]: "f_data file_create = []"
  by (simp add: file_create_def)

lemma file_write_full:
  "full_writes W \<Longrightarrow> at_end fd \<Longrightarrow>
   file_write W fd buf =
     (Inr (length buf), fd\<lparr>f_data := f_data fd @ buf, f_pos := length (f_data fd @ buf)\<rparr>)"
  by (simp add: file_write_def full_writes_def at_end_def Let_def)

lemma at_end_append [simp]: "at_end (fd\<lparr>f_data := xs, f_pos := length xs\<rparr>)"
  by (simp add: at_end_def)

text \<open>Whatever the system does, a write at the end of a file appends a prefix of the buffer.\<close>

lemma file_write_appends:
  "at_end fd \<Longrightarrow> \<exists>n. f_data (snd (file_write W fd buf)) = f_data fd @ take n buf \<and>
     at_end (snd (file_write W fd buf))"
proof (cases "W fd buf")
  case (Inl e)
  moreover assume "at_end fd"
  ultimately show ?thesis by (intro exI [of _ 0]) (simp add: file_write_def)
next
  case (Inr n)
  moreover assume "at_end fd"
  ultimately show ?thesis
    by (intro exI [of _ "min n (length buf)"]) (simp add: file_write_def at_end_def Let_def)
qed

end
