(* ===== verification/Errors.thy ===== *)
theory Errors
  imports Os_File
begin

text \<open>
  The crate's error type, \<^verbatim>\<open>src/error.rs\<close>, and its conversions.  The error of the YAML library is a
  parameter; the other two conversions ignore the error they are given.  No other code of the crate
  constructs these values.
\<close>

datatype 'yaml LsmliteError =
    InvalidQuery
  | InvalidParameter
  | InvalidConfigFile 'yaml
  | LsmliteIOError io_error
  | KeySizeConstraint
  | RecordSizeConstraint

definition lsmlite_error_from_utf8 :: "'utf8 \<Rightarrow> 'yaml LsmliteError" where
  "lsmlite_error_from_utf8 err = InvalidQuery"

definition lsmlite_error_from_parse_int :: "'parse \<Rightarrow> 'yaml LsmliteError" where
  "lsmlite_error_from_parse_int err = InvalidParameter"

definition lsmlite_error_from_io :: "io_error \<Rightarrow> 'yaml LsmliteError" where
  "lsmlite_error_from_io err = LsmliteIOError err"

definition lsmlite_error_from_yaml :: "'yaml \<Rightarrow> 'yaml LsmliteError" where
  "lsmlite_error_from_yaml err = InvalidConfigFile err"

text \<open>Only the conversions of I/O and YAML errors keep the cause, and no two of the four agree.\<close>

lemma lsmlite_error_from_cause:
  "lsmlite_error_from_io e = (lsmlite_error_from_io e' :: 'yaml LsmliteError) \<longleftrightarrow> e = e'"
  "lsmlite_error_from_yaml y = lsmlite_error_from_yaml y' \<longleftrightarrow> y = y'"
  "lsmlite_error_from_utf8 u = (lsmlite_error_from_utf8 u' :: 'yaml LsmliteError)"
  "lsmlite_error_from_parse_int i = (lsmlite_error_from_parse_int i' :: 'yaml LsmliteError)"
  "distinct [lsmlite_error_from_utf8 u, lsmlite_error_from_parse_int i, lsmlite_error_from_io e, lsmlite_error_from_yaml y]"
  by (simp_all add: lsmlite_error_from_io_def lsmlite_error_from_yaml_def lsmlite_error_from_utf8_def
      lsmlite_error_from_parse_int_def)

end
