(* ===== verification/Varint.thy ===== *)
theory Varint
  imports Lsm_Prelude
begin

text \<open>
  The helpers of \<^verbatim>\<open>src/util/mod.rs\<close>: LEB128 variable-length integers (\<^verbatim>\<open>encode_varint\<close>,
  \<^verbatim>\<open>decode_varint\<close>, \<^verbatim>\<open>varint_size_from_len\<close>), fixed-size big-endian reads and the blob buffer.
  The bit-level loops are translated on 64-bit words; \<open>leb128\<close> is the reference encoding of
  \<^verbatim>\<open>docs/protocol.md\<close> they are proved equal to.
\<close>

section \<open>Definitions from util/mod.rs\<close>

definition LEAST_BYTE_USIZE :: u64 where "LEAST_BYTE_USIZE = 0x7F"
definition LEAST_BYTE_U8 :: u8 where "LEAST_BYTE_U8 = 0x7F"
definition CONTINUATION :: u8 where "CONTINUATION = 0x80"

text \<open>
  \<^verbatim>\<open>make_blob_buffer\<close> returns a buffer of the given length with unspecified contents; zeros
  stand for them.  The encoders take the allocator as a parameter, and what they return is proved
  for every allocator, so the contents do not matter.
\<close>

definition make_blob_buffer :: "nat \<Rightarrow> bytes" where
  "make_blob_buffer sz = replicate sz 0"

definition get_be_array8 :: "bytes \<Rightarrow> nat \<Rightarrow> bytes option" where
  "get_be_array8 buffer offset = slice buffer offset (offset + 8)"

definition get_be_array4 :: "bytes \<Rightarrow> nat \<Rightarrow> bytes option" where
  "get_be_array4 buffer offset = slice buffer offset (offset + 4)"

definition get_be_array2 :: "bytes \<Rightarrow> bytes option" where
  "get_be_array2 buffer = (if length buffer = 2 then Some buffer else None)"

text \<open>
  The size loop. \<^verbatim>\<open>upper_bound <<= 7\<close> drops the bits shifted out, so the bound becomes 0 after
  \<^verbatim>\<open>1 << 63\<close>; the guard \<^verbatim>\<open>size <= 10\<close> is what ends the loop then.
\<close>

function varint_size_loop :: "u64 \<Rightarrow> nat \<Rightarrow> u64 \<Rightarrow> nat" where
  "varint_size_loop len sz upper_bound =
     (if upper_bound \<le> len \<and> sz \<le> 10
      then varint_size_loop len (sz + 1) (push_bit 7 upper_bound) else sz)"
  by pat_completeness auto
termination
  by (relation "measure (\<lambda>(len, sz, ub). 11 - sz)") auto

declare varint_size_loop.simps [simp del]

definition varint_size_from_len :: "u64 \<Rightarrow> nat option" where
  "varint_size_from_len len = do {
     let sz = varint_size_loop len 1 (push_bit 7 1);
     assert_that (sz \<le> 10);
     Some sz
   }"

lemma drop_bit7_less: "drop_bit 7 (v :: u64) \<noteq> 0 \<Longrightarrow> unat (drop_bit 7 v) < unat v"
proof -
  assume "drop_bit 7 v \<noteq> 0"
  then have "unat (drop_bit 7 v) \<noteq> 0"
    by (simp add: unsigned_eq_0_iff)
  then show ?thesis
    unfolding unat_drop_bit_div by simp
qed

function encode_varint_loop :: "u64 \<Rightarrow> bytes \<Rightarrow> nat \<Rightarrow> (bytes \<times> nat) option" where
  "encode_varint_loop value buffer idx =
     (let byte = ucast (value AND LEAST_BYTE_USIZE) :: u8;
          value = drop_bit 7 value
      in if value \<noteq> 0
         then do {
           buffer \<leftarrow> vec_set buffer idx (byte OR CONTINUATION);
           encode_varint_loop value buffer (idx + 1)
         }
         else do {
           buffer \<leftarrow> vec_set buffer idx byte;
           Some (buffer, idx + 1)
         })"
  by pat_completeness auto
termination
  by (relation "measure (\<lambda>(v, b, i). unat v)") (auto simp: drop_bit7_less)

declare encode_varint_loop.simps [simp del]

definition encode_varint :: "u64 \<Rightarrow> (bytes \<times> nat) option" where
  "encode_varint value = encode_varint_loop value (replicate 10 0) 0"

text \<open>
  \<^verbatim>\<open>decode_varint\<close>: the index panics at the end of the buffer, the shift panics when its amount
  reaches 64 (an eleventh byte).
\<close>

function decode_varint_loop :: "bytes \<Rightarrow> nat \<Rightarrow> nat \<Rightarrow> u64 \<Rightarrow> (u64 \<times> nat) option" where
  "decode_varint_loop buffer start offset varint =
     (if offset < length buffer \<and> 7 * (offset - start) < 64
      then (let byte = buffer ! offset;
                varint = varint OR push_bit (7 * (offset - start)) (ucast (byte AND LEAST_BYTE_U8))
            in if byte AND CONTINUATION = 0 then Some (varint, offset + 1 - start)
               else decode_varint_loop buffer start (offset + 1) varint)
      else None)"
  by pat_completeness auto
termination
  by (relation "measure (\<lambda>(b, s, i, v). length b - i)") auto

declare decode_varint_loop.simps [simp del]

definition decode_varint :: "bytes \<Rightarrow> nat \<Rightarrow> (u64 \<times> nat) option" where
  "decode_varint buffer offset = decode_varint_loop buffer offset offset 0"

section \<open>The reference encoding\<close>

text \<open>LEB128 on natural numbers: seven bits per byte, the high bit set on every byte but the last.\<close>

fun leb128 :: "nat \<Rightarrow> bytes" where
  "leb128 n = (if n < 128 then [of_nat n] else of_nat (n mod 128 + 128) # leb128 (n div 128))"

declare leb128.simps [simp del]

lemma leb128_nonempty [simp]: "leb128 n \<noteq> []"
  by (subst leb128.simps) simp

lemma length_leb128: "length (leb128 n) = (if n < 128 then 1 else Suc (length (leb128 (n div 128))))"
  by (subst leb128.simps) simp

lemma length_leb128_le: "n < 128 ^ k \<Longrightarrow> 0 < k \<Longrightarrow> length (leb128 n) \<le> k"
proof (induction k arbitrary: n)
  case 0
  then show ?case by simp
next
  case (Suc k)
  show ?case
  proof (cases "n < 128")
    case True
    then show ?thesis by (subst length_leb128) simp
  next
    case False
    with Suc.prems have "n div 128 < 128 ^ k" and "0 < k"
      by (auto simp: less_mult_imp_div_less mult.commute intro: gr0I)
    then have "length (leb128 (n div 128)) \<le> k" by (rule Suc.IH)
    with False show ?thesis by (subst length_leb128) simp
  qed
qed

lemma length_leb128_le_10: "n < 2 ^ 64 \<Longrightarrow> length (leb128 n) \<le> 10"
  by (rule length_leb128_le) simp_all

lemma length_leb128_pos [simp]: "0 < length (leb128 n)"
  by simp

subsection \<open>Seven-bit groups as bytes\<close>

lemma low7_byte: "ucast (v AND LEAST_BYTE_USIZE) = (of_nat (unat v mod 128) :: u8)"
proof -
  have "v AND LEAST_BYTE_USIZE = take_bit 7 v"
    by (simp add: LEAST_BYTE_USIZE_def take_bit_eq_mask mask_numeral)
  moreover have "unat (take_bit 7 v) = unat v mod 128"
    unfolding unat_take_bit_mod by simp
  ultimately show ?thesis
    by (metis of_nat_unat)
qed

lemma and_continuation: "(of_nat m :: u8) AND CONTINUATION = 0 \<longleftrightarrow> even (m div 128)"
proof -
  have "(of_nat m :: u8) AND 2 ^ 7 = 0 \<longleftrightarrow> \<not> bit m 7"
    by (simp only: and_exp_eq_0_iff_not_bit) (simp add: bit_of_nat_iff)
  then show ?thesis
    by (simp add: CONTINUATION_def bit_iff_odd)
qed

lemma low7_or_continuation:
  "(of_nat (n mod 128) :: u8) OR CONTINUATION = of_nat (n mod 128 + 128)"
proof -
  have "(of_nat (n mod 128) :: u8) AND CONTINUATION = 0"
    by (simp add: and_continuation)
  from disjunctive_add_eq_or [OF this] show ?thesis
    by (simp add: CONTINUATION_def)
qed

lemma and_least_byte: "(of_nat m :: u8) AND LEAST_BYTE_U8 = of_nat (m mod 128)"
proof -
  have "(of_nat m :: u8) AND LEAST_BYTE_U8 = take_bit 7 (of_nat m)"
    by (simp add: LEAST_BYTE_U8_def take_bit_eq_mask mask_numeral)
  also have "\<dots> = of_nat (take_bit 7 m)"
    by (simp add: take_bit_of_nat)
  finally show ?thesis
    by (simp add: take_bit_eq_mod)
qed

lemma ucast_byte: "m < 256 \<Longrightarrow> ucast (of_nat m :: u8) = (of_nat m :: u64)"
  using unat_of_nat_small [where ?'a = 8, of m] by simp (metis of_nat_unat)

lemma or_push_bit_disjoint:
  assumes "a < 2 ^ k"
  shows "(of_nat a :: u64) OR push_bit k (of_nat m) = of_nat (a + 2 ^ k * m)"
proof -
  have "a AND push_bit k m = 0"
  proof (rule bit_eqI)
    fix i
    have "take_bit k a = a" using assms by (simp add: take_bit_nat_eq_self)
    then have "bit a i \<Longrightarrow> i < k" by (metis bit_take_bit_iff)
    then show "bit (a AND push_bit k m) i = bit 0 i" by (auto simp: bit_simps)
  qed
  then have "a OR push_bit k m = a + 2 ^ k * m"
    by (simp add: disjunctive_add_eq_or [symmetric] push_bit_eq_mult mult.commute)
  then show ?thesis
    by (metis of_nat_or_eq push_bit_of_nat)
qed

section \<open>encode\_varint computes the reference encoding\<close>

lemma encode_varint_loop_leb128:
  "i = length pre \<Longrightarrow> length (leb128 (unat v)) \<le> length post \<Longrightarrow>
   encode_varint_loop v (pre @ post) i =
     Some (pre @ leb128 (unat v) @ drop (length (leb128 (unat v))) post,
           i + length (leb128 (unat v)))"
proof (induction "unat v" arbitrary: v pre post i rule: less_induct)
  case less
  let ?v' = "drop_bit 7 v"
  obtain b bs where post: "post = b # bs"
    using less.prems(2) by (cases post) auto
  have unat': "unat ?v' = unat v div 128"
    by (simp add: unat_drop_bit_div)
  show ?case
  proof (cases "?v' = 0")
    case True
    with unat' have "unat v < 128" by auto
    with True show ?thesis
      by (subst encode_varint_loop.simps) (simp add: Let_def low7_byte leb128.simps [of "unat v"] post less.prems(1))
  next
    case False
    then have "\<not> unat v < 128"
      using unat' by (metis div_less unsigned_eq_0_iff)
    then have l: "leb128 (unat v) = of_nat (unat v mod 128 + 128) # leb128 (unat ?v')"
      by (simp add: leb128.simps [of "unat v"] unat')
    have "encode_varint_loop ?v' ((pre @ [of_nat (unat v mod 128 + 128)]) @ bs) (i + 1) =
        Some ((pre @ [of_nat (unat v mod 128 + 128)]) @ leb128 (unat ?v') @ drop (length (leb128 (unat ?v'))) bs,
              i + 1 + length (leb128 (unat ?v')))"
      by (rule less.hyps) (use drop_bit7_less [OF False] less.prems l post in auto)
    with False show ?thesis
      by (subst encode_varint_loop.simps)
        (simp add: Let_def low7_byte low7_or_continuation l post less.prems(1))
  qed
qed

lemma encode_varint_leb128:
  "encode_varint v = Some (leb128 (unat v) @ replicate (10 - length (leb128 (unat v))) 0, length (leb128 (unat v)))"
proof -
  have "length (leb128 (unat v)) \<le> 10"
    using unsigned_less [of v] by (intro length_leb128_le_10) simp
  then show ?thesis
    using encode_varint_loop_leb128 [of 0 "[]" v "replicate 10 0"] by (simp add: encode_varint_def)
qed

section \<open>decode\_varint reads the reference encoding\<close>

lemma decode_varint_loop_leb128:
  "offset = length pre \<Longrightarrow> offset = start + k \<Longrightarrow> a < 2 ^ (7 * k) \<Longrightarrow> 7 * k < 64 \<Longrightarrow>
   n < 2 ^ (64 - 7 * k) \<Longrightarrow>
   decode_varint_loop (pre @ leb128 n @ post) start offset (of_nat a) =
     Some (of_nat (a + 2 ^ (7 * k) * n), k + length (leb128 n))"
proof (induction n arbitrary: pre offset k a rule: leb128.induct)
  case (1 n)
  have off: "length pre - start = k" "Suc (length pre) - start = Suc k"
    using "1.prems"(1,2) by auto
  show ?case
  proof (cases "n < 128")
    case True
    then have l: "leb128 n = [of_nat n]" by (subst leb128.simps) simp
    show ?thesis
      using "1.prems" True
      by (subst decode_varint_loop.simps)
        (simp add: l nth_append and_continuation and_least_byte or_push_bit_disjoint ucast_byte off)
  next
    case False
    let ?b = "of_nat (n mod 128 + 128) :: u8"
    have l: "leb128 n = ?b # leb128 (n div 128)" using False by (subst leb128.simps) simp
    have k: "7 * Suc k < 64"
    proof (rule ccontr)
      assume "\<not> 7 * Suc k < 64"
      then have "64 - 7 * k \<le> 7" by simp
      then have "(2::nat) ^ (64 - 7 * k) \<le> 2 ^ 7" by (intro power_increasing) auto
      with "1.prems"(5) False show False by simp
    qed
    have a': "a + 2 ^ (7 * k) * (n mod 128) < 2 ^ (7 * Suc k)"
    proof -
      have "a + 2 ^ (7 * k) * (n mod 128) < 2 ^ (7 * k) * (1 + n mod 128)"
        using "1.prems"(3) by (simp add: algebra_simps)
      also have "\<dots> \<le> 2 ^ (7 * k) * 128" by (intro mult_le_mono) auto
      finally show ?thesis by (simp add: power_add mult.commute)
    qed
    have "(2::nat) ^ (64 - 7 * k) = 128 * 2 ^ (64 - 7 * Suc k)"
      using k power_add [of "2::nat" 7 "57 - 7 * k"] by simp
    with "1.prems"(5) have n': "n div 128 < 2 ^ (64 - 7 * Suc k)"
      by (simp add: less_mult_imp_div_less mult.commute)
    have step: "decode_varint_loop ((pre @ [?b]) @ leb128 (n div 128) @ post) start (offset + 1)
            (of_nat (a + 2 ^ (7 * k) * (n mod 128))) =
          Some (of_nat (a + 2 ^ (7 * k) * (n mod 128) + 2 ^ (7 * Suc k) * (n div 128)),
                Suc k + length (leb128 (n div 128)))"
      by (rule "1.IH" [OF False]) (use "1.prems" a' n' k in auto)
    have "2 ^ (7 * k) * m + 2 ^ (7 * Suc k) * d = 2 ^ (7 * k) * (m + 128 * d)" for m d :: nat
      by (simp add: power_add algebra_simps)
    from this [of "n mod 128" "n div 128"]
    have "2 ^ (7 * k) * (n mod 128) + 2 ^ (7 * Suc k) * (n div 128) = 2 ^ (7 * k) * n"
      by (simp only: mod_mult_div_eq)
    moreover have "(n mod 128 + 128) div 128 = 1"
      by linarith
    then have "?b AND CONTINUATION \<noteq> 0"
      by (simp only: and_continuation) simp
    moreover have "?b AND LEAST_BYTE_U8 = of_nat (n mod 128)"
      by (simp only: and_least_byte) simp
    ultimately show ?thesis
      using "1.prems" step
      by (subst decode_varint_loop.simps)
        (simp add: l nth_append or_push_bit_disjoint ucast_byte off add.assoc)
  qed
qed

lemma decode_varint_leb128:
  "n < 2 ^ 64 \<Longrightarrow> offset = length pre \<Longrightarrow>
   decode_varint (pre @ leb128 n @ post) offset = Some (of_nat n, length (leb128 n))"
  using decode_varint_loop_leb128 [of offset pre offset 0 0 n post] by (simp add: decode_varint_def)

text \<open>What a successful decode consumed: at least one and at most ten bytes, all inside the buffer.\<close>

lemma decode_varint_loop_bounds:
  "decode_varint_loop buffer start offset acc = Some (v, w) \<Longrightarrow> start \<le> offset \<Longrightarrow>
   offset + 1 \<le> start + w \<and> w \<le> 10 \<and> start + w \<le> length buffer"
proof (induction buffer start offset acc rule: decode_varint_loop.induct)
  case (1 buffer start offset acc)
  from "1.prems"(1) have g: "offset < length buffer" "7 * (offset - start) < 64"
    by (subst (asm) decode_varint_loop.simps, simp split: if_splits)+
  show ?case
  proof (cases "buffer ! offset AND CONTINUATION = 0")
    case True
    with g "1.prems" show ?thesis
      by (subst (asm) decode_varint_loop.simps) (auto simp: Let_def)
  next
    case False
    have "decode_varint_loop buffer start (offset + 1)
        (acc OR push_bit (7 * (offset - start)) (ucast (buffer ! offset AND LEAST_BYTE_U8))) = Some (v, w)"
      using "1.prems"(1) g False by (subst (asm) decode_varint_loop.simps) (simp add: Let_def)
    from "1.IH" [OF _ refl refl False this] g "1.prems"(2) show ?thesis by auto
  qed
qed

lemma decode_varint_bounds:
  "decode_varint buffer offset = Some (v, w) \<Longrightarrow> 1 \<le> w \<and> w \<le> 10 \<and> offset + w \<le> length buffer"
  using decode_varint_loop_bounds [of buffer offset offset 0 v w] by (simp add: decode_varint_def)

text \<open>More bytes behind a complete varint do not change its value.\<close>

lemma decode_varint_loop_append:
  "decode_varint_loop buffer start offset acc = Some r \<Longrightarrow>
   decode_varint_loop (buffer @ ys) start offset acc = Some r"
proof (induction buffer start offset acc rule: decode_varint_loop.induct)
  case (1 buffer start offset acc)
  from "1.prems" have g: "offset < length buffer" "7 * (offset - start) < 64"
    by (subst (asm) decode_varint_loop.simps, simp split: if_splits)+
  show ?case
    using "1.prems" "1.IH" [OF _ refl refl] g
    by (subst (asm) decode_varint_loop.simps, subst decode_varint_loop.simps)
      (auto simp: Let_def nth_append split: if_splits)
qed

lemma decode_varint_append: "decode_varint buffer offset = Some r \<Longrightarrow> decode_varint (buffer @ ys) offset = Some r"
  by (simp add: decode_varint_def decode_varint_loop_append)

text \<open>A buffer that ends inside a varint makes the decoder panic.\<close>

lemma decode_varint_loop_unterminated:
  "\<forall>i. offset \<le> i \<longrightarrow> i < length buffer \<longrightarrow> buffer ! i AND CONTINUATION \<noteq> 0 \<Longrightarrow>
   decode_varint_loop buffer start offset acc = None"
proof (induction buffer start offset acc rule: decode_varint_loop.induct)
  case (1 buffer start offset acc)
  then show ?case
    by (subst decode_varint_loop.simps) (auto simp: Let_def)
qed

lemma decode_varint_unterminated:
  assumes "\<forall>b \<in> set ys. b AND CONTINUATION \<noteq> 0" and "offset = length pre"
  shows "decode_varint (pre @ ys) offset = None"
  unfolding decode_varint_def using assms
  by (intro decode_varint_loop_unterminated) (auto simp: nth_append)

lemma butlast_leb128_continues: "b \<in> set (butlast (leb128 n)) \<Longrightarrow> b AND CONTINUATION \<noteq> 0"
proof (induction n rule: leb128.induct)
  case (1 n)
  have "(n mod 128 + 128) div 128 = 1" by linarith
  then have "(of_nat (n mod 128 + 128) :: u8) AND CONTINUATION \<noteq> 0"
    by (simp only: and_continuation) simp
  with 1 show ?case
    by (cases "n < 128") (auto simp: leb128.simps [of n])
qed

lemma decode_varint_truncated:
  assumes "j < length (leb128 n)" and "offset = length pre"
  shows "decode_varint (pre @ take j (leb128 n)) offset = None"
proof -
  have "take j (leb128 n) = take j (butlast (leb128 n))"
    using assms(1) by (simp add: take_butlast)
  then have "set (take j (leb128 n)) \<subseteq> set (butlast (leb128 n))"
    by (simp add: set_take_subset)
  then have "\<forall>b \<in> set (take j (leb128 n)). b AND CONTINUATION \<noteq> 0"
    using butlast_leb128_continues by blast
  then show ?thesis
    using assms(2) by (rule decode_varint_unterminated)
qed

section \<open>varint\_size\_from\_len\<close>

lemma varint_size_loop_leb128:
  "n < 2 ^ 63 \<Longrightarrow> 0 < sz \<Longrightarrow> sz \<le> 9 \<Longrightarrow>
   varint_size_loop (of_nat n) sz (of_nat (128 ^ sz)) = sz - 1 + length (leb128 (n div 128 ^ (sz - 1)))"
proof (induction "9 - sz" arbitrary: sz)
  case 0
  then have sz: "sz = 9" by simp
  have "n div 128 ^ 8 < 128" using 0 by (simp add: less_mult_imp_div_less)
  moreover have "\<not> (of_nat (128 ^ 9) :: u64) \<le> of_nat n"
    using 0 by (simp add: word_le_nat_alt unat_of_nat_small)
  ultimately show ?case
    by (subst varint_size_loop.simps) (simp add: sz length_leb128)
next
  case (Suc d)
  then have sz: "sz < 9" by simp
  have pow: "(128::nat) ^ sz < 2 ^ 64" "(128::nat) ^ Suc sz < 2 ^ 64"
    using sz power_strict_increasing [of "7 * sz" 64 "2::nat"] power_strict_increasing [of "7 * Suc sz" 64 "2::nat"]
    by (simp_all add: power_mult power_add)
  have le: "(of_nat (128 ^ sz) :: u64) \<le> of_nat n \<longleftrightarrow> 128 ^ sz \<le> n"
    using Suc.prems(1) pow(1) by (simp add: word_le_nat_alt unat_of_nat_small del: of_nat_power)
  have push: "push_bit 7 (of_nat (128 ^ sz) :: u64) = of_nat (128 ^ Suc sz)"
    by (simp add: push_bit_eq_mult)
  obtain m where m: "m = n div 128 ^ (sz - 1)" by simp
  have split: "128 ^ sz \<le> n \<longleftrightarrow> \<not> m < 128"
    using Suc.prems(2) by (cases sz) (simp_all add: m div_less_iff_less_mult mult.commute not_less)
  have dv: "m div 128 = n div 128 ^ sz"
    using Suc.prems(2) by (cases sz) (simp_all add: m div_mult2_eq [symmetric] mult.commute)
  show ?case
  proof (cases "128 ^ sz \<le> n")
    case True
    have "varint_size_loop (of_nat n) (sz + 1) (of_nat (128 ^ (sz + 1))) = sz + length (leb128 (n div 128 ^ sz))"
      using Suc.hyps(1) [of "sz + 1"] Suc.hyps(2) Suc.prems(1) sz by simp
    with True sz Suc.prems(2) split show ?thesis
      by (subst varint_size_loop.simps, fold m)
        (simp add: le push dv length_leb128 [of m] del: of_nat_power)
  next
    case False
    with Suc.prems(2) split show ?thesis
      by (subst varint_size_loop.simps, fold m) (simp add: le length_leb128 [of m] del: of_nat_power)
  qed
qed

lemma varint_size_from_len_leb128:
  "n < 2 ^ 63 \<Longrightarrow> varint_size_from_len (of_nat n) = Some (length (leb128 n))"
  using varint_size_loop_leb128 [of n 1] length_leb128_le_10 [of n]
  by (simp add: varint_size_from_len_def)

end
