(* ===== verification/Constants.thy ===== *)
theory Constants
  imports Lsm_Prelude
begin

text \<open>
  The constants of \<^verbatim>\<open>src/constants/mod.rs\<close> the other components use, with the types the source
  gives them (file offsets and sizes are \<^verbatim>\<open>u64\<close>, buffer thresholds \<^verbatim>\<open>usize\<close>).
\<close>

definition LSMLITE_SSTABLE_HEADER :: bytes where
  "LSMLITE_SSTABLE_HEADER = [0x6C, 0x73, 0x6D, 0x6C, 0x69, 0x74, 0x65]"
definition V0_HEADER :: u16 where "V0_HEADER = 0"
definition HEADER_SIZE :: u64 where "HEADER_SIZE = 9"

definition DATA_LOG_HEADER :: u8 where "DATA_LOG_HEADER = 0"
definition TOMBSTONE_LOG_HEADER :: u8 where "TOMBSTONE_LOG_HEADER = 1"

definition FOOTER_SIZE :: u64 where "FOOTER_SIZE = 24"
definition RECORD_READ_BUFFER_SIZE :: u64 where "RECORD_READ_BUFFER_SIZE = 4096"

definition DEFAULT_COMPACTION_RATE :: u64 where "DEFAULT_COMPACTION_RATE = 10"
definition DEFAULT_COMPACTION_QUEUE_SIZE :: u64 where "DEFAULT_COMPACTION_QUEUE_SIZE = 100"

definition DEFAULT_WAL_BUFFER_SIZE :: nat where "DEFAULT_WAL_BUFFER_SIZE = 64000"
definition DEFAULT_WAL_BUFFER_FLUSH_TIME :: nat where "DEFAULT_WAL_BUFFER_FLUSH_TIME = 400"

definition DEFAULT_MAX_MEMTABLE_NODES :: u64 where "DEFAULT_MAX_MEMTABLE_NODES = 4096"
definition DEFAULT_MAX_MEMTABLE_SIZE :: u64 where "DEFAULT_MAX_MEMTABLE_SIZE = 4000000"
definition DEFAULT_MEMTABLE_FLUSH_QUEUE :: u64 where "DEFAULT_MEMTABLE_FLUSH_QUEUE = 100"

text \<open>Declared, and used nowhere.\<close>

definition DISK_BLOCK_SIZE :: u64 where "DISK_BLOCK_SIZE = 4000"
definition MAX_MESSAGE_SIZE :: nat where "MAX_MESSAGE_SIZE = 2 * 2 ^ 19 * 10"
definition MAX_KEY_SIZE :: nat where "MAX_KEY_SIZE = 1024"
definition DEFAULT_CACHE_SIZE :: u64 where "DEFAULT_CACHE_SIZE = 2048"
definition LSMLITE_CONFIG_FILE_PATH :: string where "LSMLITE_CONFIG_FILE_PATH = ''lsmlite_conf.yaml''"
definition TCP_ADDRESS :: string where "TCP_ADDRESS = ''127.0.0.1:7211''"
definition INTERNAL_ERROR :: u8 where "INTERNAL_ERROR = 1"
definition INVALID_QUERY :: u8 where "INVALID_QUERY = 2"
definition KEY_NOT_FOUND :: u8 where "KEY_NOT_FOUND = 3"
definition KEY_SIZE_CONSTRAINT :: u8 where "KEY_SIZE_CONSTRAINT = 4"
definition RECORD_SIZE_CONSTRAINT :: u8 where "RECORD_SIZE_CONSTRAINT = 5"
definition TCP_SERVER_SUCCESS :: u8 where "TCP_SERVER_SUCCESS = 1"
definition TCP_SERVER_ERROR :: u8 where "TCP_SERVER_ERROR = 0"

text \<open>A cell that is filled with the number of processors at the first call.\<close>

definition get_default_cache_shards :: "u64 \<Rightarrow> u64 option \<Rightarrow> u64 \<times> u64 option" where
  "get_default_cache_shards num_cpus shards = (case shards of Some n \<Rightarrow> (n, shards) | None \<Rightarrow> (num_cpus, Some num_cpus))"

lemmas record_headers = DATA_LOG_HEADER_def TOMBSTONE_LOG_HEADER_def

lemma headers_distinct [simp]:
  "DATA_LOG_HEADER \<noteq> TOMBSTONE_LOG_HEADER" "TOMBSTONE_LOG_HEADER \<noteq> DATA_LOG_HEADER"
  by (simp_all add: record_headers)

end
