(* ===== verification/Disk_Record.thy ===== *)
theory Disk_Record
  imports Varint Constants
begin

text \<open>
  The on-disk record format and the in-memory \<^verbatim>\<open>Record\<close>: \<^verbatim>\<open>src/disk/encode.rs\<close>,
  \<^verbatim>\<open>src/disk/decode.rs\<close> and \<^verbatim>\<open>src/memtable/record.rs\<close>.  A record keeps the encoded blob and two
  (offset, length) pairs into it.  \<open>enc_blob\<close> is the format of \<^verbatim>\<open>docs/protocol.md\<close>; \<open>rec_of\<close> the
  record whose fields all agree with it.
\<close>

section \<open>Definitions\<close>

record Record =
  rec_blob :: bytes
  rec_key :: "nat \<times> nat"
  rec_value :: "(nat \<times> nat) option"

datatype RecordType = Data | Tombstone

subsection \<open>disk/encode.rs\<close>

text \<open>
  The encoders take the buffer allocator as an argument (\<^verbatim>\<open>make_blob_buffer\<close> leaves the contents
  unspecified); the functions of the source are the instances at \<open>make_blob_buffer\<close>.
\<close>

definition encode_data_record_in :: "(nat \<Rightarrow> bytes) \<Rightarrow> bytes \<Rightarrow> bytes \<Rightarrow> Record option" where
  "encode_data_record_in alloc key val = do {
     (key_varint, key_varint_len) \<leftarrow> encode_varint (of_nat (length key));
     (value_varint, value_varint_len) \<leftarrow> encode_varint (of_nat (length val));
     let log_size = key_varint_len + value_varint_len + length key + length val;
     (log_size_varint, log_size_varint_len) \<leftarrow> encode_varint (of_nat log_size);
     let buffer_size = log_size_varint_len + log_size + 1;
     let record_buffer = alloc buffer_size;
     record_buffer \<leftarrow> vec_set record_buffer 0 DATA_LOG_HEADER;
     let offset = 1;
     src \<leftarrow> slice log_size_varint 0 log_size_varint_len;
     record_buffer \<leftarrow> copy_from_slice record_buffer offset (offset + log_size_varint_len) src;
     let offset = offset + log_size_varint_len;
     src \<leftarrow> slice key_varint 0 key_varint_len;
     record_buffer \<leftarrow> copy_from_slice record_buffer offset (offset + key_varint_len) src;
     let offset = offset + key_varint_len;
     let key_offset = (offset, length key);
     record_buffer \<leftarrow> copy_from_slice record_buffer offset (offset + length key) key;
     let offset = offset + length key;
     src \<leftarrow> slice value_varint 0 value_varint_len;
     record_buffer \<leftarrow> copy_from_slice record_buffer offset (offset + value_varint_len) src;
     let offset = offset + value_varint_len;
     let value_offset = Some (offset, length val);
     record_buffer \<leftarrow> copy_from_slice record_buffer offset (offset + length val) val;
     let offset = offset + length val;
     assert_that (offset = length record_buffer);
     Some \<lparr>rec_blob = record_buffer, rec_key = key_offset, rec_value = value_offset\<rparr>
   }"

definition encode_tombstone_record_in :: "(nat \<Rightarrow> bytes) \<Rightarrow> bytes \<Rightarrow> Record option" where
  "encode_tombstone_record_in alloc key = do {
     (key_varint, key_varint_len) \<leftarrow> encode_varint (of_nat (length key));
     let log_size = key_varint_len + length key;
     (log_size_varint, log_size_varint_len) \<leftarrow> encode_varint (of_nat log_size);
     let buffer_size = log_size_varint_len + log_size + 1;
     let record_buffer = alloc buffer_size;
     record_buffer \<leftarrow> vec_set record_buffer 0 TOMBSTONE_LOG_HEADER;
     let offset = 1;
     src \<leftarrow> slice log_size_varint 0 log_size_varint_len;
     record_buffer \<leftarrow> copy_from_slice record_buffer offset (offset + log_size_varint_len) src;
     let offset = offset + log_size_varint_len;
     src \<leftarrow> slice key_varint 0 key_varint_len;
     record_buffer \<leftarrow> copy_from_slice record_buffer offset (offset + key_varint_len) src;
     let offset = offset + key_varint_len;
     let key_offset = (offset, length key);
     record_buffer \<leftarrow> copy_from_slice record_buffer offset (offset + length key) key;
     Some \<lparr>rec_blob = record_buffer, rec_key = key_offset, rec_value = None\<rparr>
   }"

definition encode_data_record :: "bytes \<Rightarrow> bytes \<Rightarrow> Record option" where
  "encode_data_record = encode_data_record_in make_blob_buffer"

definition encode_tombstone_record :: "bytes \<Rightarrow> Record option" where
  "encode_tombstone_record = encode_tombstone_record_in make_blob_buffer"

subsection \<open>disk/decode.rs\<close>

text \<open>
  The \<^verbatim>\<open>&mut usize\<close> cursor is returned with the result.  Additions of a decoded length to the
  cursor are checked: a corrupt length can overflow \<^verbatim>\<open>usize\<close>.
\<close>

definition decode_insert_record :: "bytes \<Rightarrow> nat \<Rightarrow> (Record \<times> nat) option" where
  "decode_insert_record buffer offset = do {
     start_offset \<leftarrow> checked_sub offset 1;
     (log_size, bytes_walked) \<leftarrow> decode_varint buffer offset;
     let offset = offset + bytes_walked;
     let start = offset;
     (key_length, bytes_walked) \<leftarrow> decode_varint buffer offset;
     let offset = offset + bytes_walked;
     let key = (offset - start_offset, unat key_length);
     offset \<leftarrow> usize_add offset (unat key_length);
     (data_len, bytes_walked) \<leftarrow> decode_varint buffer offset;
     let offset = offset + bytes_walked;
     let val = Some (offset - start_offset, unat data_len);
     offset \<leftarrow> usize_add offset (unat data_len);
     assert_that (unat log_size = offset - start);
     blob \<leftarrow> slice buffer start_offset offset;
     Some (\<lparr>rec_blob = blob, rec_key = key, rec_value = val\<rparr>, offset)
   }"

definition decode_tombstone_record :: "bytes \<Rightarrow> nat \<Rightarrow> (Record \<times> nat) option" where
  "decode_tombstone_record buffer offset = do {
     start_offset \<leftarrow> checked_sub offset 1;
     (log_size, bytes_walked) \<leftarrow> decode_varint buffer offset;
     let offset = offset + bytes_walked;
     let start = offset;
     (key_length, bytes_walked) \<leftarrow> decode_varint buffer offset;
     let offset = offset + bytes_walked;
     let key = (offset - start_offset, unat key_length);
     offset \<leftarrow> usize_add offset (unat key_length);
     assert_that (unat log_size = offset - start);
     blob \<leftarrow> slice buffer start_offset offset;
     Some (\<lparr>rec_blob = blob, rec_key = key, rec_value = None\<rparr>, offset)
   }"

definition decode_disk_record :: "bytes \<Rightarrow> nat \<Rightarrow> (Record option \<times> nat) option" where
  "decode_disk_record buffer offset = do {
     header \<leftarrow> vec_get buffer offset;
     let offset = offset + 1;
     if header = DATA_LOG_HEADER
     then do { (r, offset) \<leftarrow> decode_insert_record buffer offset; Some (Some r, offset) }
     else if header = TOMBSTONE_LOG_HEADER
     then do { (r, offset) \<leftarrow> decode_tombstone_record buffer offset; Some (Some r, offset) }
     else Some (None, offset)
   }"

subsection \<open>memtable/record.rs\<close>

definition new_data_record :: "bytes \<Rightarrow> bytes \<Rightarrow> Record option" where
  "new_data_record key val = encode_data_record key val"

definition new_tombstone_record :: "bytes \<Rightarrow> Record option" where
  "new_tombstone_record key = encode_tombstone_record key"

definition record_type :: "Record \<Rightarrow> RecordType" where
  "record_type self = (case rec_value self of Some _ \<Rightarrow> Data | None \<Rightarrow> Tombstone)"

definition record_key :: "Record \<Rightarrow> bytes option" where
  "record_key self = (let (offset, len) = rec_key self in slice (rec_blob self) offset (offset + len))"

text \<open>\<^verbatim>\<open>value()\<close> and \<^verbatim>\<open>copy_value()\<close> read the same slice; the inner option is the source's.\<close>

definition record_value :: "Record \<Rightarrow> bytes option option" where
  "record_value self =
     (case rec_value self of
        Some (offset, len) \<Rightarrow> map_option Some (slice (rec_blob self) offset (offset + len))
      | None \<Rightarrow> Some None)"

definition copy_value :: "Record \<Rightarrow> bytes option option" where
  "copy_value self =
     (case rec_value self of
        Some (offset, len) \<Rightarrow> map_option Some (slice (rec_blob self) offset (offset + len))
      | None \<Rightarrow> Some None)"

definition copy_key :: "Record \<Rightarrow> bytes option" where
  "copy_key self = (let (offset, len) = rec_key self in slice (rec_blob self) offset (offset + len))"

definition cmp_key :: "Record \<Rightarrow> Record \<Rightarrow> ordering option" where
  "cmp_key self other = do { a \<leftarrow> record_key self; b \<leftarrow> record_key other; Some (cmp a b) }"

definition record_copy_record :: "Record \<Rightarrow> bytes" where
  [simp]: "record_copy_record self = rec_blob self"

definition take_blob :: "Record \<Rightarrow> bytes" where
  [simp]: "take_blob self = rec_blob self"

text \<open>\<^verbatim>\<open>impl From<Record> for Blob\<close>\<close>

definition blob_from_record :: "Record \<Rightarrow> bytes" where
  "blob_from_record record = rec_blob record"

definition record_size :: "Record \<Rightarrow> nat" where
  "record_size self = length (rec_blob self)"

definition overwrite_data :: "Record \<Rightarrow> bytes \<Rightarrow> Record option" where
  "overwrite_data self new_value = do {
     let key_len = snd (rec_key self);
     key_varint_len \<leftarrow> varint_size_from_len (of_nat key_len);
     (value_varint, value_varint_len) \<leftarrow> encode_varint (of_nat (length new_value));
     let log_size = value_varint_len + key_varint_len + key_len + length new_value;
     (log_size_varint, log_size_varint_len) \<leftarrow> encode_varint (of_nat log_size);
     let buffer_size = log_size_varint_len + log_size + 1;
     let blob = vec_resize (rec_blob self) buffer_size 0;
     log_end \<leftarrow> checked_sub (fst (rec_key self)) key_varint_len;
     current_log_size_varint_len \<leftarrow> checked_sub log_end 1;
     (blob, key, value_varint_offset) \<leftarrow>
       (if current_log_size_varint_len \<noteq> log_size_varint_len
        then do {
          temp_key_buffer \<leftarrow> slice blob (fst (rec_key self)) (fst (rec_key self) + snd (rec_key self));
          (key_varint, _) \<leftarrow> encode_varint (of_nat key_len);
          let offset = 1;
          src \<leftarrow> slice log_size_varint 0 log_size_varint_len;
          blob \<leftarrow> copy_from_slice blob offset (offset + log_size_varint_len) src;
          let offset = offset + log_size_varint_len;
          src \<leftarrow> slice key_varint 0 key_varint_len;
          blob \<leftarrow> copy_from_slice blob offset (offset + key_varint_len) src;
          let offset = offset + key_varint_len;
          blob \<leftarrow> copy_from_slice blob offset (offset + key_len) temp_key_buffer;
          Some (blob, (offset, key_len), offset + key_len)
        }
        else do {
          src \<leftarrow> slice log_size_varint 0 log_size_varint_len;
          blob \<leftarrow> copy_from_slice blob 1 (log_size_varint_len + 1) src;
          Some (blob, rec_key self, fst (rec_key self) + key_len)
        });
     src \<leftarrow> slice value_varint 0 value_varint_len;
     blob \<leftarrow> copy_from_slice blob value_varint_offset (value_varint_offset + value_varint_len) src;
     let value_offset = value_varint_offset + value_varint_len;
     blob \<leftarrow> copy_from_slice blob value_offset (value_offset + length new_value) new_value;
     blob \<leftarrow> vec_set blob 0 DATA_LOG_HEADER;
     Some (self\<lparr>rec_blob := blob, rec_key := key\<rparr>)
   }"

definition update_data_to_tombstone :: "Record \<Rightarrow> Record option" where
  "update_data_to_tombstone self = do {
     key \<leftarrow> copy_key self;
     (key_varint, key_varint_len) \<leftarrow> encode_varint (of_nat (length key));
     let log_size = key_varint_len + length key;
     (log_size_varint, log_size_varint_len) \<leftarrow> encode_varint (of_nat log_size);
     let total_size = log_size + log_size_varint_len + 1;
     let blob = vec_resize (rec_blob self) total_size 0;
     blob \<leftarrow> vec_set blob 0 TOMBSTONE_LOG_HEADER;
     let offset = 1;
     src \<leftarrow> slice log_size_varint 0 log_size_varint_len;
     blob \<leftarrow> copy_from_slice blob offset (offset + log_size_varint_len) src;
     let offset = offset + log_size_varint_len;
     src \<leftarrow> slice key_varint 0 key_varint_len;
     blob \<leftarrow> copy_from_slice blob offset (offset + key_varint_len) src;
     let offset = offset + key_varint_len;
     blob \<leftarrow> copy_from_slice blob offset (offset + length key) key;
     Some (self\<lparr>rec_blob := blob, rec_key := (offset, length key), rec_value := None\<rparr>)
   }"

definition update_from_record :: "Record \<Rightarrow> Record \<Rightarrow> Record option" where
  "update_from_record self rec =
     (case record_type rec of
        Data \<Rightarrow> do {
          val \<leftarrow> record_value rec;
          new_value \<leftarrow> val;
          overwrite_data self new_value
        }
      | Tombstone \<Rightarrow> update_data_to_tombstone self)"

section \<open>The record format as a specification\<close>

text \<open>A payload is \<open>None\<close> for a tombstone and \<open>Some v\<close> for a value.\<close>

definition payload_bytes :: "bytes option \<Rightarrow> bytes" where
  "payload_bytes p = (case p of None \<Rightarrow> [] | Some v \<Rightarrow> leb128 (length v) @ v)"

definition header_of :: "bytes option \<Rightarrow> u8" where
  "header_of p = (case p of None \<Rightarrow> TOMBSTONE_LOG_HEADER | Some _ \<Rightarrow> DATA_LOG_HEADER)"

definition log_body :: "bytes \<Rightarrow> bytes option \<Rightarrow> bytes" where
  "log_body k p = leb128 (length k) @ k @ payload_bytes p"

definition enc_blob :: "bytes \<Rightarrow> bytes option \<Rightarrow> bytes" where
  "enc_blob k p = header_of p # leb128 (length (log_body k p)) @ log_body k p"

definition log_varint_len :: "bytes \<Rightarrow> bytes option \<Rightarrow> nat" where
  "log_varint_len k p = length (leb128 (length (log_body k p)))"

definition key_off :: "bytes \<Rightarrow> bytes option \<Rightarrow> nat" where
  "key_off k p = 1 + log_varint_len k p + length (leb128 (length k))"

definition val_span :: "bytes \<Rightarrow> bytes option \<Rightarrow> (nat \<times> nat) option" where
  "val_span k p =
     map_option (\<lambda>v. (key_off k p + length k + length (leb128 (length v)), length v)) p"

definition rec_of :: "bytes \<Rightarrow> bytes option \<Rightarrow> Record" where
  "rec_of k p = \<lparr>rec_blob = enc_blob k p, rec_key = (key_off k p, length k), rec_value = val_span k p\<rparr>"

text \<open>The record is small enough to exist in memory.\<close>

definition rec_fits :: "bytes \<Rightarrow> bytes option \<Rightarrow> bool" where
  "rec_fits k p \<longleftrightarrow> length (enc_blob k p) < 2 ^ 63"

text \<open>
  A record whose blob and key offsets describe \<open>(k, p)\<close>; nothing is said about the value offsets.
\<close>

definition rec_repr :: "Record \<Rightarrow> bytes \<Rightarrow> bytes option \<Rightarrow> bool" where
  "rec_repr r k p \<longleftrightarrow> rec_blob r = enc_blob k p \<and> rec_key r = (key_off k p, length k) \<and> rec_fits k p"

lemmas rec_format_defs = enc_blob_def log_body_def payload_bytes_def header_of_def log_varint_len_def
  key_off_def val_span_def

lemma payload_bytes_simps [simp]:
  "payload_bytes None = []" "payload_bytes (Some v) = leb128 (length v) @ v"
  by (simp_all add: payload_bytes_def)

lemma header_of_simps [simp]:
  "header_of None = TOMBSTONE_LOG_HEADER" "header_of (Some v) = DATA_LOG_HEADER"
  by (simp_all add: header_of_def)

lemma length_enc_blob: "length (enc_blob k p) = key_off k p + length k + length (payload_bytes p)"
  by (simp add: enc_blob_def log_body_def key_off_def log_varint_len_def)

lemma enc_blob_split: "enc_blob k p = (header_of p # leb128 (length (log_body k p)) @ leb128 (length k)) @ k @ payload_bytes p"
  by (simp add: enc_blob_def log_body_def)

lemma rec_fits_bounds:
  assumes "rec_fits k p"
  shows "length k < 2 ^ 63" "length (log_body k p) < 2 ^ 63" "p = Some v \<Longrightarrow> length v < 2 ^ 63"
  using assms by (auto simp: rec_fits_def enc_blob_def log_body_def)

lemma rec_of_repr: "rec_fits k p \<Longrightarrow> rec_repr (rec_of k p) k p"
  by (simp add: rec_repr_def rec_of_def)

lemma encode_varint_of_nat:
  "n < 2 ^ 64 \<Longrightarrow> encode_varint (of_nat n) =
     Some (leb128 n @ replicate (10 - length (leb128 n)) 0, length (leb128 n))"
  by (simp add: encode_varint_leb128 unat_of_nat_small)

section \<open>Encoding\<close>

lemma encode_data_record_in_rec_of:
  assumes fits: "rec_fits k (Some v)" and alloc: "\<And>n. length (alloc n) = n"
  shows "encode_data_record_in alloc k v = Some (rec_of k (Some v))"
proof -
  let ?L = "length (leb128 (length k)) + length (leb128 (length v)) + length k + length v"
  have L: "length (log_body k (Some v)) = ?L" by (simp add: log_body_def)
  have ac: "length (leb128 (length k)) + (length k + (length (leb128 (length v)) + length v)) = ?L"
    by simp
  have b: "length k < 2 ^ 64" "length v < 2 ^ 64" "?L < 2 ^ 64"
    using rec_fits_bounds [OF fits] L by simp_all
  obtain h junk where buf: "alloc (Suc (length (leb128 ?L) + ?L)) = h # junk"
    and junk: "length junk = length (leb128 ?L) + ?L"
    using alloc [of "Suc (length (leb128 ?L) + ?L)"] by (auto simp: length_Suc_conv)
  show ?thesis
    using junk b
    by (simp add: encode_data_record_in_def encode_varint_of_nat buf slice_simps
        copy_from_slice_def rec_of_def ac rec_format_defs Let_def del: of_nat_add)
qed

lemma encode_tombstone_record_in_rec_of:
  assumes fits: "rec_fits k None" and alloc: "\<And>n. length (alloc n) = n"
  shows "encode_tombstone_record_in alloc k = Some (rec_of k None)"
proof -
  let ?L = "length (leb128 (length k)) + length k"
  have b: "length k < 2 ^ 64" "?L < 2 ^ 64"
    using rec_fits_bounds [OF fits] by (simp_all add: log_body_def)
  obtain h junk where buf: "alloc (Suc (length (leb128 ?L) + ?L)) = h # junk"
    and junk: "length junk = length (leb128 ?L) + ?L"
    using alloc [of "Suc (length (leb128 ?L) + ?L)"] by (auto simp: length_Suc_conv)
  show ?thesis
    using junk b
    by (simp add: encode_tombstone_record_in_def encode_varint_of_nat buf slice_simps
        copy_from_slice_def rec_of_def rec_format_defs Let_def del: of_nat_add)
qed

lemma encode_data_record_rec_of: "rec_fits k (Some v) \<Longrightarrow> encode_data_record k v = Some (rec_of k (Some v))"
  by (simp add: encode_data_record_def encode_data_record_in_rec_of make_blob_buffer_def)

lemma encode_tombstone_record_rec_of: "rec_fits k None \<Longrightarrow> encode_tombstone_record k = Some (rec_of k None)"
  by (simp add: encode_tombstone_record_def encode_tombstone_record_in_rec_of make_blob_buffer_def)

section \<open>Reading a record\<close>

lemma record_key_repr: "rec_repr r k p \<Longrightarrow> record_key r = Some k"
  by (simp add: rec_repr_def record_key_def enc_blob_split key_off_def log_varint_len_def slice_def)

lemma copy_key_repr: "rec_repr r k p \<Longrightarrow> copy_key r = Some k"
  using record_key_repr by (simp add: record_key_def copy_key_def)

lemma val_span_slice:
  "val_span k p = Some (a, n) \<Longrightarrow> slice (enc_blob k p) a (a + n) = p"
  by (auto simp: val_span_def enc_blob_split key_off_def log_varint_len_def slice_def)

lemma record_value_rec_of: "record_value (rec_of k p) = Some p" "copy_value (rec_of k p) = Some p"
proof -
  have "record_value (rec_of k p) = Some p"
  proof (cases "val_span k p")
    case None
    then show ?thesis by (simp add: record_value_def rec_of_def val_span_def)
  next
    case (Some s)
    then obtain a n where s: "val_span k p = Some (a, n)" by (cases s) auto
    then obtain v where "p = Some v" by (auto simp: val_span_def)
    with val_span_slice [OF s] s show ?thesis by (simp add: record_value_def rec_of_def)
  qed
  then show "record_value (rec_of k p) = Some p" "copy_value (rec_of k p) = Some p"
    by (simp_all add: record_value_def copy_value_def)
qed

lemma record_type_rec_of: "record_type (rec_of k p) = (case p of None \<Rightarrow> Tombstone | Some _ \<Rightarrow> Data)"
  by (simp add: record_type_def rec_of_def val_span_def split: option.split)

section \<open>Decoding\<close>

lemma usize_add_small [simp]: "a + b < 2 ^ 64 \<Longrightarrow> usize_add a b = Some (a + b)"
  by (simp add: usize_add_def)

lemma decode_varint_at:
  "n < 2 ^ 64 \<Longrightarrow> buffer = pre @ leb128 n @ post \<Longrightarrow> offset = length pre \<Longrightarrow>
   decode_varint buffer offset = Some (of_nat n, length (leb128 n))"
  by (simp add: decode_varint_leb128)

lemma enc_blob_varints:
  assumes "rec_fits k p" and buf: "buffer = pre @ enc_blob k p @ post"
  shows "decode_varint buffer (length pre + 1) = Some (of_nat (length (log_body k p)), log_varint_len k p)"
    and "decode_varint buffer (length pre + 1 + log_varint_len k p) = Some (of_nat (length k), length (leb128 (length k)))"
    and "p = Some v \<Longrightarrow> decode_varint buffer (length pre + key_off k p + length k) =
           Some (of_nat (length v), length (leb128 (length v)))"
proof -
  note b = rec_fits_bounds [OF assms(1)]
  show "decode_varint buffer (length pre + 1) = Some (of_nat (length (log_body k p)), log_varint_len k p)"
    unfolding log_varint_len_def
    by (rule decode_varint_at [where pre = "pre @ [header_of p]" and post = "log_body k p @ post"])
      (use b in \<open>simp_all add: buf enc_blob_def\<close>)
  show "decode_varint buffer (length pre + 1 + log_varint_len k p) = Some (of_nat (length k), length (leb128 (length k)))"
    by (rule decode_varint_at [where pre = "pre @ header_of p # leb128 (length (log_body k p))"
          and post = "k @ payload_bytes p @ post"])
      (use b in \<open>simp_all add: buf enc_blob_def log_body_def log_varint_len_def\<close>)
  show "decode_varint buffer (length pre + key_off k p + length k) = Some (of_nat (length v), length (leb128 (length v)))"
    if "p = Some v"
    by (rule decode_varint_at [where pre = "pre @ header_of p # leb128 (length (log_body k p)) @ leb128 (length k) @ k"
          and post = "v @ post"])
      (use b that in \<open>simp_all add: buf enc_blob_def log_body_def log_varint_len_def key_off_def\<close>)
qed

text \<open>Decoding inverts encoding wherever the record sits in the buffer, and advances past it.\<close>

lemma decode_disk_record_enc_blob:
  assumes fits: "rec_fits k p" and ok: "length (pre @ enc_blob k p @ post) < 2 ^ 63"
  shows "decode_disk_record (pre @ enc_blob k p @ post) (length pre) =
           Some (Some (rec_of k p), length pre + length (enc_blob k p))"
proof -
  define buffer where "buffer = pre @ enc_blob k p @ post"
  note d = enc_blob_varints [OF fits buffer_def]
  note b = rec_fits_bounds [OF fits]
  have hd: "vec_get buffer (length pre) = Some (header_of p)"
    by (simp add: buffer_def enc_blob_def nth_append)
  have sl: "slice buffer (length pre) (length pre + length (enc_blob k p)) = Some (enc_blob k p)"
    by (simp add: buffer_def slice_simps)
  have len: "length pre + length (enc_blob k p) < 2 ^ 64" using ok by simp
  show ?thesis
    unfolding buffer_def [symmetric]
  proof (cases p)
    case None
    with d(1,2) b hd sl len
    show "decode_disk_record buffer (length pre) = Some (Some (rec_of k p), length pre + length (enc_blob k p))"
      by (simp add: decode_disk_record_def decode_tombstone_record_def checked_sub_def Let_def
          unat_of_nat_small length_enc_blob key_off_def rec_of_def log_body_def val_span_def
          add.assoc del: of_nat_add)
  next
    case (Some v)
    with d(1,2) d(3) [OF Some] b hd sl len
    show "decode_disk_record buffer (length pre) = Some (Some (rec_of k p), length pre + length (enc_blob k p))"
      by (simp add: decode_disk_record_def decode_insert_record_def checked_sub_def Let_def
          unat_of_nat_small length_enc_blob key_off_def rec_of_def log_body_def val_span_def
          add.assoc del: of_nat_add)
  qed
qed

text \<open>
  A decoder that returned a record read only the bytes up to its new cursor: further bytes do not
  change the result.
\<close>

lemma decode_record_append:
  "decode_insert_record buffer offset = Some r \<Longrightarrow> decode_insert_record (buffer @ ys) offset = Some r"
  "decode_tombstone_record buffer offset = Some r \<Longrightarrow> decode_tombstone_record (buffer @ ys) offset = Some r"
  by (auto simp: decode_insert_record_def decode_tombstone_record_def Let_def bind_eq_Some_conv
      dest!: decode_varint_append [of buffer _ _ ys] slice_append_mono [of buffer _ _ _ ys])

lemma decode_disk_record_append:
  "decode_disk_record buffer offset = Some r \<Longrightarrow> decode_disk_record (buffer @ ys) offset = Some r"
  by (auto simp: decode_disk_record_def Let_def bind_eq_Some_conv nth_append
      split: if_splits dest: decode_record_append [of buffer _ _ ys])

lemma decode_disk_record_in_buffer:
  "decode_disk_record buffer offset = Some (Some r, offset') \<Longrightarrow> offset < offset' \<and> offset' \<le> length buffer"
  by (auto simp: decode_disk_record_def decode_insert_record_def decode_tombstone_record_def Let_def
      bind_eq_Some_conv slice_eq_Some usize_add_def split: if_splits)

lemma decode_disk_record_torn:
  assumes fits: "rec_fits k p" and j: "0 < j" "j < length (enc_blob k p)"
    and ok: "length pre + length (enc_blob k p) < 2 ^ 63"
  shows "decode_disk_record (pre @ take j (enc_blob k p)) (length pre) = None"
proof (rule ccontr)
  let ?b = "pre @ take j (enc_blob k p)"
  assume "decode_disk_record ?b (length pre) \<noteq> None"
  then obtain ro offset' where d: "decode_disk_record ?b (length pre) = Some (ro, offset')"
    by (metis not_Some_eq surj_pair)
  from decode_disk_record_append [OF d, of "drop j (enc_blob k p)"]
  have "decode_disk_record (pre @ enc_blob k p @ []) (length pre) = Some (ro, offset')"
    by simp
  with decode_disk_record_enc_blob [OF fits, of pre "[]"] ok
  have e: "ro = Some (rec_of k p)" "offset' = length pre + length (enc_blob k p)"
    by auto
  with decode_disk_record_in_buffer d have "offset' \<le> length ?b" by blast
  with e(2) j show False by simp
qed

section \<open>Updating a record in place\<close>

lemma update_data_to_tombstone_repr:
  assumes r: "rec_repr r k p"
  shows "update_data_to_tombstone r = Some (rec_of k None)"
proof -
  let ?L = "length (leb128 (length k)) + length k"
  note key = copy_key_repr [OF r]
  from r have fits: "rec_fits k p" by (simp add: rec_repr_def)
  have b: "length k < 2 ^ 64" "?L < 2 ^ 64"
    using rec_fits_bounds [OF fits] by (simp_all add: log_body_def)
  obtain h junk where buf: "vec_resize (rec_blob r) (Suc (?L + length (leb128 ?L))) 0 = h # junk"
    and junk: "length junk = ?L + length (leb128 ?L)"
    by (rule length_SucE [OF length_vec_resize])
  show ?thesis
    using junk b
    by (simp add: update_data_to_tombstone_def key encode_varint_of_nat buf slice_simps
        copy_from_slice_def rec_of_def rec_format_defs Let_def del: of_nat_add)
qed

text \<open>
  The condition under which \<^verbatim>\<open>overwrite_data\<close> can still read the key after resizing the blob.
\<close>

definition overwrite_ok :: "bytes \<Rightarrow> bytes option \<Rightarrow> bytes \<Rightarrow> bool" where
  "overwrite_ok k p v \<longleftrightarrow>
     log_varint_len k p \<le> log_varint_len k (Some v) + length (leb128 (length v)) + length v"

lemma overwrite_data_repr:
  assumes r: "rec_repr r k p" and fits: "rec_fits k (Some v)"
  shows "overwrite_data r v =
    (if overwrite_ok k p v
     then Some (r\<lparr>rec_blob := enc_blob k (Some v), rec_key := (key_off k (Some v), length k)\<rparr>)
     else None)"
proof -
  let ?kv = "leb128 (length k)" and ?vv = "leb128 (length v)"
  let ?lv = "leb128 (length (log_body k p))"
  let ?L = "length ?vv + length ?kv + length k + length v"
  let ?lw = "leb128 ?L"
  have L: "length (log_body k (Some v)) = ?L" by (simp add: log_body_def)
  have ac: "length ?kv + (length k + (length ?vv + length v)) = ?L" by simp
  have b: "length k < 2 ^ 63" "length v < 2 ^ 63" "length v < 2 ^ 64" "?L < 2 ^ 64"
    "length k < 2 ^ 64"
    using rec_fits_bounds [OF fits] L by simp_all
  let ?pre = "header_of p # ?lv @ ?kv"
  have blob: "rec_blob r = (?pre @ k) @ payload_bytes p" and
    key: "rec_key r = (Suc (length ?lv + length ?kv), length k)"
    using r by (simp_all add: rec_repr_def enc_blob_split key_off_def log_varint_len_def)
  have ok: "overwrite_ok k p v \<longleftrightarrow> length ?lv \<le> length ?lw + length ?vv + length v"
    by (simp add: overwrite_ok_def log_varint_len_def L)
  note defs = overwrite_data_def key varint_size_from_len_leb128 encode_varint_of_nat checked_sub_def
    Let_def
  let ?n = "Suc (length ?lw + ?L)"
  consider (same) "length ?lv = length ?lw" | (moved) "length ?lv \<noteq> length ?lw" "overwrite_ok k p v"
    | (short) "length ?lv \<noteq> length ?lw" "\<not> overwrite_ok k p v" by blast
  then show ?thesis
  proof cases
    case same
    obtain junk where buf: "vec_resize (rec_blob r) ?n 0 = header_of p # ?lv @ ?kv @ k @ junk"
      and junk: "length junk = length ?vv + length v"
      using vec_resize_append [of "?pre @ k" ?n "payload_bytes p" 0] same
      by (simp add: blob)
    show ?thesis
      using junk b same
      by (simp add: defs buf ok slice_simps copy_from_slice_def key_off_def log_varint_len_def enc_blob_split
          L del: of_nat_add)
  next
    case moved
    then have "length (?pre @ k) \<le> ?n" by (simp add: ok)
    then have buf': "vec_resize (rec_blob r) ?n 0 = ?pre @ k @ vec_resize (payload_bytes p) (?n - length (?pre @ k)) 0"
      unfolding blob by (subst vec_resize_append) simp_all
    obtain h junk where buf: "vec_resize (rec_blob r) ?n 0 = h # junk" and junk: "length junk = length ?lw + ?L"
      by (rule length_SucE [OF length_vec_resize])
    have sl: "slice (h # junk) (Suc (length ?lv + length ?kv)) (Suc (length ?lv + length ?kv + length k)) = Some k"
      unfolding buf [symmetric] buf' by (rule slice_append_mid) simp_all
    show ?thesis
      using junk b moved
      by (simp add: defs buf sl slice_prefix copy_from_slice_def key_off_def log_varint_len_def enc_blob_split
          L del: of_nat_add)
  next
    case short
    then have "slice (vec_resize (rec_blob r) ?n 0) (Suc (length ?lv + length ?kv))
        (Suc (length ?lv + length ?kv + length k)) = None"
      by (intro slice_out) (simp add: ok)
    with b short show ?thesis
      by (simp add: defs slice_prefix del: of_nat_add)
  qed
qed

lemma update_from_record_repr:
  assumes r: "rec_repr r k p" and fits: "rec_fits k q"
  shows "update_from_record r (rec_of k q) =
    (case q of
       None \<Rightarrow> Some (rec_of k None)
     | Some v \<Rightarrow>
         (if overwrite_ok k p v
          then Some (r\<lparr>rec_blob := enc_blob k (Some v), rec_key := (key_off k (Some v), length k)\<rparr>)
          else None))"
proof (cases q)
  case None
  with update_data_to_tombstone_repr [OF r] show ?thesis
    by (simp add: update_from_record_def record_type_rec_of)
next
  case (Some v)
  with overwrite_data_repr [OF r, of v] fits show ?thesis
    by (simp add: update_from_record_def record_type_rec_of record_value_rec_of)
qed

text \<open>Whenever the update returns, blob and key offsets describe the new payload.\<close>

lemma update_from_record_preserves_repr:
  assumes "rec_repr r k p" and "rec_fits k q" and "update_from_record r (rec_of k q) = Some r'"
  shows "rec_repr r' k q"
  using assms update_from_record_repr [OF assms(1,2)] rec_of_repr [OF assms(2)]
  by (auto simp: rec_repr_def split: option.splits if_splits)

text \<open>An update with a payload of the same shape leaves every field in agreement.\<close>

lemma val_span_same_length:
  "length v = length w \<Longrightarrow> val_span k (Some v) = val_span k (Some w)"
  by (simp add: val_span_def key_off_def log_varint_len_def log_body_def)

lemma overwrite_ok_same_length: "length v = length w \<Longrightarrow> overwrite_ok k (Some w) v"
  by (simp add: overwrite_ok_def log_varint_len_def log_body_def)

lemma update_same_length:
  assumes "rec_fits k (Some w)" and "length v = length w"
  shows "update_from_record (rec_of k (Some w)) (rec_of k (Some v)) = Some (rec_of k (Some v))"
proof -
  have fits: "rec_fits k (Some v)"
    using assms by (simp add: rec_fits_def length_enc_blob key_off_def log_varint_len_def log_body_def)
  show ?thesis
    using update_from_record_repr [OF rec_of_repr [OF assms(1)] fits] assms(2)
    by (simp add: overwrite_ok_same_length rec_of_def val_span_same_length [OF assms(2)])
qed

end
