(* ===== verification/Record_Iter.thy ===== *)
theory Record_Iter
  imports Disk_Record
begin

text \<open>
  The contract shared by the two record iterators of the program (\<^verbatim>\<open>WalIterator\<close> in
  \<^verbatim>\<open>src/wal/mod.rs\<close>, \<^verbatim>\<open>SSTableIterator\<close> in \<^verbatim>\<open>src/sstable/iterator.rs\<close>): a buffer, a cursor, and
  \<^verbatim>\<open>next\<close> that decodes the record at the cursor.  \<open>yields next it rs\<close> says that repeated calls of
  \<open>next\<close> return exactly the records \<open>rs\<close> and then \<^verbatim>\<open>None\<close>, without a panic.
\<close>

inductive yields :: "('it \<Rightarrow> (Record option \<times> 'it) option) \<Rightarrow> 'it \<Rightarrow> Record list \<Rightarrow> bool"
  for step where
  stop: "step it = Some (None, it') \<Longrightarrow> yields step it []"
| more: "step it = Some (Some r, it') \<Longrightarrow> yields step it' rs \<Longrightarrow> yields step it (r # rs)"

inductive_cases yields_NilE: "yields step it []"
inductive_cases yields_ConsE: "yields step it (r # rs)"

lemma yields_deterministic: "yields step it rs \<Longrightarrow> yields step it rs' \<Longrightarrow> rs = rs'"
proof (induction arbitrary: rs' rule: yields.induct)
  case (stop it it')
  then show ?case by (auto elim: yields.cases)
next
  case (more it r it' rs)
  from more.prems more.hyps(1) obtain rs'' where "rs' = r # rs''" "yields step it' rs''"
    by (auto elim: yields.cases)
  with more.IH show ?case by simp
qed

text \<open>A list of key/payload pairs laid out back to back.\<close>

definition enc_blobs :: "(bytes \<times> bytes option) list \<Rightarrow> bytes" where
  "enc_blobs kps = concat (map (\<lambda>(k, p). enc_blob k p) kps)"

definition recs_of :: "(bytes \<times> bytes option) list \<Rightarrow> Record list" where
  "recs_of kps = map (\<lambda>(k, p). rec_of k p) kps"

lemma enc_blobs_simps [simp]:
  "enc_blobs [] = []"
  "enc_blobs ((k, p) # kps) = enc_blob k p @ enc_blobs kps"
  "enc_blobs (xs @ ys) = enc_blobs xs @ enc_blobs ys"
  by (simp_all add: enc_blobs_def)

lemma recs_of_simps [simp]:
  "recs_of [] = []" "recs_of ((k, p) # kps) = rec_of k p # recs_of kps"
  "recs_of (xs @ ys) = recs_of xs @ recs_of ys"
  by (simp_all add: recs_of_def)

lemma enc_blob_not_Nil [simp]: "enc_blob k p \<noteq> []"
  by (simp add: enc_blob_def)

lemma enc_blobs_fits: "(k, p) \<in> set kps \<Longrightarrow> length (enc_blobs kps) < 2 ^ 63 \<Longrightarrow> rec_fits k p"
  by (induction kps) (auto simp: rec_fits_def)

locale record_iterator =
  fixes step :: "'it \<Rightarrow> (Record option \<times> 'it) option"
    and buffer_of :: "'it \<Rightarrow> bytes"
    and offset_of :: "'it \<Rightarrow> nat"
  assumes step_end: "length (buffer_of it) \<le> offset_of it \<Longrightarrow> step it = Some (None, it)"
    and step_decode: "offset_of it < length (buffer_of it) \<Longrightarrow>
      decode_disk_record (buffer_of it) (offset_of it) = Some (ro, off') \<Longrightarrow>
      \<exists>it'. step it = Some (ro, it') \<and> buffer_of it' = buffer_of it \<and> offset_of it' = off'"
    and step_panic: "offset_of it < length (buffer_of it) \<Longrightarrow>
      decode_disk_record (buffer_of it) (offset_of it) = None \<Longrightarrow> step it = None"
begin

text \<open>The iterator enumerates a well-formed buffer record by record, in order.\<close>

lemma yields_enc_blobs:
  "buffer_of it = pre @ enc_blobs kps \<Longrightarrow> offset_of it = length pre \<Longrightarrow>
   length (buffer_of it) < 2 ^ 63 \<Longrightarrow> yields step it (recs_of kps)"
proof (induction kps arbitrary: pre it)
  case Nil
  then have "step it = Some (None, it)" by (intro step_end) simp
  then show ?case by (simp add: yields.stop)
next
  case (Cons kp kps)
  obtain k p where kp: "kp = (k, p)" by (cases kp)
  have fits: "rec_fits k p"
    using Cons.prems by (simp add: kp rec_fits_def)
  have "decode_disk_record (buffer_of it) (offset_of it) =
      Some (Some (rec_of k p), length pre + length (enc_blob k p))"
    using decode_disk_record_enc_blob [OF fits, of pre "enc_blobs kps"] Cons.prems by (simp add: kp)
  moreover have "offset_of it < length (buffer_of it)"
    using Cons.prems by (simp add: kp)
  ultimately obtain it' where it': "step it = Some (Some (rec_of k p), it')"
    "buffer_of it' = buffer_of it" "offset_of it' = length pre + length (enc_blob k p)"
    using step_decode by blast
  have "yields step it' (recs_of kps)"
    by (rule Cons.IH [of _ "pre @ enc_blob k p"]) (use it' Cons.prems in \<open>simp_all add: kp\<close>)
  with it'(1) show ?case by (simp add: kp yields.more)
qed

text \<open>A buffer that breaks off inside its last record makes the iterator panic there: no list is yielded.\<close>

lemma torn_not_yields:
  "buffer_of it = pre @ enc_blobs kps @ take j (enc_blob k p) \<Longrightarrow> offset_of it = length pre \<Longrightarrow>
   length pre + length (enc_blobs kps) + length (enc_blob k p) < 2 ^ 63 \<Longrightarrow>
   0 < j \<Longrightarrow> j < length (enc_blob k p) \<Longrightarrow> \<not> yields step it rs"
proof (induction kps arbitrary: pre it rs)
  case Nil
  have fits: "rec_fits k p" using Nil.prems by (simp add: rec_fits_def)
  have "decode_disk_record (buffer_of it) (offset_of it) = None"
    using decode_disk_record_torn [OF fits] Nil.prems by simp
  moreover have "offset_of it < length (buffer_of it)" using Nil.prems by simp
  ultimately have "step it = None" by (rule step_panic [rotated])
  then show ?case by (auto elim: yields.cases)
next
  case (Cons kp kps)
  obtain k' p' where kp: "kp = (k', p')" by (cases kp)
  let ?post = "enc_blobs kps @ take j (enc_blob k p)"
  have fits: "rec_fits k' p'" using Cons.prems by (simp add: kp rec_fits_def)
  have "decode_disk_record (buffer_of it) (offset_of it) =
      Some (Some (rec_of k' p'), length pre + length (enc_blob k' p'))"
    using decode_disk_record_enc_blob [OF fits, of pre ?post] Cons.prems by (simp add: kp)
  moreover have "offset_of it < length (buffer_of it)" using Cons.prems by (simp add: kp)
  ultimately obtain it' where it': "step it = Some (Some (rec_of k' p'), it')"
    "buffer_of it' = buffer_of it" "offset_of it' = length pre + length (enc_blob k' p')"
    using step_decode by blast
  have "\<not> yields step it' rs'" for rs'
    by (rule Cons.IH [of _ "pre @ enc_blob k' p'"]) (use it' Cons.prems in \<open>simp_all add: kp\<close>)
  with it'(1) show ?case by (auto elim: yields.cases)
qed

end

end
