(* ===== verification/Wal.thy ===== *)
theory Wal
  imports Record_Iter Os_File
begin

text \<open>
  The write-ahead log, \<^verbatim>\<open>src/wal/mod.rs\<close>: a file, an in-memory buffer, the time of the last flush,
  and the iterator that replays a log file.  The clock readings and the file system's answers to
  \<^verbatim>\<open>write\<close> are arguments, gathered in the environment \<open>Env\<close> of one call.
\<close>

section \<open>Definitions\<close>

record Wal =
  wal_fd :: File
  wal_buffer :: bytes
  wal_last_flush :: nat
  wal_filename :: string

text \<open>The environment of one call: the operating system and the two clock readings (milliseconds).\<close>

record Env =
  env_write :: writer
  env_now_check :: nat
  env_now_flush :: nat

definition wal_new :: "nat \<Rightarrow> string \<Rightarrow> Wal" where
  "wal_new now wal_file_name =
     \<lparr>wal_fd = file_create, wal_buffer = [], wal_last_flush = now, wal_filename = wal_file_name\<rparr>"

definition needs_flush :: "nat \<Rightarrow> Wal \<Rightarrow> bool" where
  "needs_flush now self \<longleftrightarrow>
     DEFAULT_WAL_BUFFER_SIZE \<le> length (wal_buffer self)
     \<or> wal_last_flush self + DEFAULT_WAL_BUFFER_FLUSH_TIME < now"

definition wal_flush :: "Env \<Rightarrow> Wal \<Rightarrow> Wal" where
  "wal_flush env self =
     self\<lparr>wal_fd := snd (file_write (env_write env) (wal_fd self) (wal_buffer self)),
          wal_buffer := [],
          wal_last_flush := env_now_flush env\<rparr>"

definition write_log :: "Env \<Rightarrow> bytes \<Rightarrow> Wal \<Rightarrow> Wal" where
  "write_log env blob self =
     (let self = (if needs_flush (env_now_check env) self then wal_flush env self else self)
      in self\<lparr>wal_buffer := wal_buffer self @ blob\<rparr>)"

record WalIterator =
  wi_buffer :: bytes
  wi_offset :: nat

definition wal_iterator_new :: "bytes \<Rightarrow> WalIterator" where
  "wal_iterator_new contents = \<lparr>wi_buffer = contents, wi_offset = 0\<rparr>"

definition wal_next :: "WalIterator \<Rightarrow> (Record option \<times> WalIterator) option" where
  "wal_next self =
     (if length (wi_buffer self) \<le> wi_offset self then Some (None, self)
      else do {
        (r, offset) \<leftarrow> decode_disk_record (wi_buffer self) (wi_offset self);
        Some (r, self\<lparr>wi_offset := offset\<rparr>)
      })"

section \<open>The log loses nothing and keeps the order\<close>

text \<open>Every byte logged so far, on disk or still buffered.\<close>

definition wal_contents :: "Wal \<Rightarrow> bytes" where
  "wal_contents self = f_data (wal_fd self) @ wal_buffer self"

definition wal_wf :: "Wal \<Rightarrow> bool" where
  "wal_wf self \<longleftrightarrow> at_end (wal_fd self)"

lemma wal_new_simps [simp]:
  "wal_contents (wal_new now name) = []" "wal_wf (wal_new now name)"
  "f_data (wal_fd (wal_new now name)) = []" "wal_buffer (wal_new now name) = []"
  "wal_filename (wal_new now name) = name"
  by (simp_all add: wal_new_def wal_contents_def wal_wf_def)

lemma wal_flush_wf: "wal_wf w \<Longrightarrow> wal_wf (wal_flush env w)"
  using file_write_appends [of "wal_fd w"] by (auto simp: wal_wf_def wal_flush_def)

lemma write_log_wf [simp]: "wal_wf w \<Longrightarrow> wal_wf (write_log env blob w)"
  using wal_flush_wf [of w env] by (simp add: write_log_def wal_wf_def Let_def)

lemma wal_flush_contents:
  "full_writes (env_write env) \<Longrightarrow> wal_wf w \<Longrightarrow>
   wal_contents (wal_flush env w) = wal_contents w \<and> wal_buffer (wal_flush env w) = [] \<and>
   f_data (wal_fd (wal_flush env w)) = wal_contents w"
  by (simp add: wal_flush_def wal_contents_def wal_wf_def file_write_full)

lemma write_log_contents:
  "full_writes (env_write env) \<Longrightarrow> wal_wf w \<Longrightarrow>
   wal_contents (write_log env blob w) = wal_contents w @ blob"
  using wal_flush_contents [of env w] by (simp add: write_log_def wal_contents_def Let_def)

lemma write_log_filename [simp]: "wal_filename (write_log env blob w) = wal_filename w"
  by (simp add: write_log_def wal_flush_def Let_def)

text \<open>What is not yet on disk is less than one flush threshold plus the record just logged.\<close>

lemma write_log_unflushed:
  "length (wal_buffer (write_log env blob w)) < DEFAULT_WAL_BUFFER_SIZE + length blob"
  by (simp add: write_log_def wal_flush_def needs_flush_def Let_def DEFAULT_WAL_BUFFER_SIZE_def)

section \<open>The log iterator\<close>

interpretation wal_iter: record_iterator wal_next wi_buffer wi_offset
  by unfold_locales (auto simp: wal_next_def)

end
