(* ===== verification/Codec_Props.thy ===== *)
theory Codec_Props
  imports Wal
begin

text \<open>
  The properties of the byte formats: varints, disk records and the log.
\<close>

section \<open>Varints\<close>

text \<open>
  \<^verbatim>\<open>encode_varint\<close> never panics, uses between one and ten bytes of its buffer, and
  \<^verbatim>\<open>decode_varint\<close> reads the value back from any position of any buffer, consuming exactly these bytes.
\<close>

lemma varint_roundtrip:
  "\<exists>buf n. encode_varint v = Some (buf, n) \<and> length buf = 10 \<and> 1 \<le> n \<and> n \<le> 10 \<and>
     (\<forall>pre post. decode_varint (pre @ take n buf @ post) (length pre) = Some (v, n))"
proof -
  let ?l = "leb128 (unat v)"
  have len: "length ?l \<le> 10" using unsigned_less [of v] by (intro length_leb128_le_10) simp
  have "decode_varint (pre @ ?l @ post) (length pre) = Some (v, length ?l)" for pre post
    using decode_varint_leb128 [of "unat v" "length pre" pre post] unsigned_less [of v] by simp
  then show ?thesis
    using len length_leb128_pos [of "unat v"] by (auto simp: encode_varint_leb128 Suc_le_eq)
qed

text \<open>
  For every length below \<open>2 ^ 63\<close>, \<^verbatim>\<open>varint_size_from_len\<close> returns the number of bytes
  \<^verbatim>\<open>encode_varint\<close> writes.
\<close>

lemma varint_size_matches_encoding:
  assumes "unat len < 2 ^ 63"
  shows "varint_size_from_len len = map_option snd (encode_varint len)"
  using varint_size_from_len_leb128 [OF assms] by (simp add: encode_varint_leb128)

text \<open>
  C22: a decoded varint occupies one to ten bytes inside the buffer, and a varint cut off before its
  last byte is never decoded to a value: the read panics.
\<close>

theorem varint_decode_safe:
  "(decode_varint buffer offset = Some (v, w) \<longrightarrow> 1 \<le> w \<and> w \<le> 10 \<and> offset + w \<le> length buffer) \<and>
   (\<forall>u buf n j pre. encode_varint u = Some (buf, n) \<longrightarrow> j < n \<longrightarrow>
      decode_varint (pre @ take j buf) (length pre) = None)"
proof -
  have "decode_varint (pre @ take j buf) (length pre) = None"
    if "encode_varint u = Some (buf, n)" "j < n" for u buf n j and pre :: bytes
  proof -
    have "take j buf = take j (leb128 (unat u))" "j < length (leb128 (unat u))"
      using that by (auto simp: encode_varint_leb128)
    then show ?thesis using decode_varint_truncated [of j "unat u" "length pre" pre] by simp
  qed
  then show ?thesis using decode_varint_bounds [of buffer offset v w] by blast
qed

theorem varint_decode_safe_witness:
  "decode_varint [0xAC, 0x02, 7] 0 = Some (300, 2) \<and> (2::nat) \<le> 10 \<and>
   encode_varint 300 = Some ([0xAC, 0x02, 0, 0, 0, 0, 0, 0, 0, 0], 2) \<and> decode_varint ([] @ take 1 [0xAC, 0x02]) 0 = None"
proof -
  have d: "decode_varint [0xAC, 0x02, 7] 0 = Some (300, 2)" by code_simp
  have e: "encode_varint 300 = Some ([0xAC, 0x02, 0, 0, 0, 0, 0, 0, 0, 0], 2)" by code_simp
  note safe = varint_decode_safe [of "[0xAC, 0x02, 7]" 0 300 2]
  have "decode_varint ([] @ take 1 [0xAC, 0x02, 0, 0, 0, 0, 0, 0, 0, 0]) (length ([]::bytes)) = None"
    by (rule safe [THEN conjunct2, rule_format, OF e]) simp
  then show ?thesis using d e by simp
qed

section \<open>Disk records\<close>

text \<open>
  C18: a record written by \<^verbatim>\<open>encode_data_record\<close> or \<^verbatim>\<open>encode_tombstone_record\<close>, placed anywhere in a
  buffer, is decoded to the same record, the cursor stops right behind it, and its key, type and
  value are the ones that were encoded.  The result does not depend on the uninitialised contents
  of the buffer the encoder allocates.
\<close>

theorem record_roundtrip:
  assumes "rec_fits k p" and "length (pre @ enc_blob k p @ post) < 2 ^ 63" and "\<And>n. length (alloc n) = n"
  shows "\<exists>r. (case p of Some v \<Rightarrow> encode_data_record_in alloc k v | None \<Rightarrow> encode_tombstone_record_in alloc k) = Some r \<and>
    decode_disk_record (pre @ rec_blob r @ post) (length pre) = Some (Some r, length pre + record_size r) \<and>
    record_key r = Some k \<and> record_value r = Some p \<and>
    record_type r = (case p of None \<Rightarrow> Tombstone | Some _ \<Rightarrow> Data)"
proof -
  have "(case p of Some v \<Rightarrow> encode_data_record_in alloc k v | None \<Rightarrow> encode_tombstone_record_in alloc k) = Some (rec_of k p)"
    using assms(1,3) by (cases p) (simp_all add: encode_data_record_in_rec_of encode_tombstone_record_in_rec_of)
  moreover have "rec_blob (rec_of k p) = enc_blob k p" by (simp add: rec_of_def)
  ultimately show ?thesis
    using decode_disk_record_enc_blob [OF assms(1,2)] record_key_repr [OF rec_of_repr [OF assms(1)]]
      record_value_rec_of record_type_rec_of
    by (auto simp: record_size_def)
qed

theorem record_roundtrip_witness:
  "\<exists>r. encode_data_record_in make_blob_buffer [1, 2] [3] = Some r \<and>
    decode_disk_record ([9] @ rec_blob r @ [8]) 1 = Some (Some r, 1 + record_size r) \<and>
    record_key r = Some [1, 2] \<and> record_value r = Some (Some [3])"
proof -
  have "enc_blob [1, 2] (Some [3]) = [0, 5, 2, 1, 2, 1, 3]" by code_simp
  then show ?thesis
    using record_roundtrip [of "[1, 2]" "Some [3]" "[9]" "[8]" make_blob_buffer]
    by (auto simp: rec_fits_def make_blob_buffer_def)
qed

text \<open>
  A record cut off anywhere behind its first byte is never accepted: \<^verbatim>\<open>decode_disk_record\<close> panics
  on it rather than return a shorter record.
\<close>

lemma torn_record_rejected:
  assumes "rec_fits k p" and "0 < j" and "j < length (enc_blob k p)"
    and "length pre + length (enc_blob k p) < 2 ^ 63"
  shows "decode_disk_record (pre @ take j (enc_blob k p)) (length pre) = None"
  using assms by (rule decode_disk_record_torn)

text \<open>
  \<^verbatim>\<open>update_from_record\<close> rewrites the blob in place to exactly the encoding of the new payload under
  the old key (so that this is what reaches the disk), for data and for tombstones; it panics
  precisely when a value is overwritten whose length prefix is longer than the new one by more than
  the new value part.
\<close>

lemma update_rewrites_blob:
  assumes "rec_repr r k p" and "rec_fits k q"
  shows "case update_from_record r (rec_of k q) of
     Some r' \<Rightarrow> rec_blob r' = enc_blob k q \<and> record_key r' = Some k
   | None \<Rightarrow> (\<exists>v. q = Some v \<and> log_varint_len k p > log_varint_len k q + length (payload_bytes q))"
proof (cases "update_from_record r (rec_of k q)")
  case None
  then show ?thesis
    using update_from_record_repr [OF assms] by (auto simp: overwrite_ok_def split: option.splits if_splits)
next
  case (Some r')
  from update_from_record_preserves_repr [OF assms this] have "rec_repr r' k q" .
  then show ?thesis using Some record_key_repr by (auto simp: rec_repr_def)
qed

section \<open>The log\<close>

text \<open>
  When the file system accepts whole writes, \<^verbatim>\<open>write_log\<close> appends the record to what the log
  holds (file followed by buffer) whether or not it flushes, and less than one flush threshold plus
  the newest record is ever missing from the file.
\<close>

lemma write_log_appends:
  assumes "full_writes (env_write env)" and "wal_wf w"
  shows "wal_contents (write_log env blob w) = wal_contents w @ blob \<and> wal_wf (write_log env blob w) \<and>
    (\<exists>n. f_data (wal_fd (write_log env blob w)) = take n (wal_contents w)) \<and>
    length (wal_contents (write_log env blob w)) - length (f_data (wal_fd (write_log env blob w)))
      < DEFAULT_WAL_BUFFER_SIZE + length blob"
proof -
  have "\<exists>n. f_data (wal_fd (write_log env blob w)) = take n (wal_contents w)"
  proof (cases "needs_flush (env_now_check env) w")
    case True
    then show ?thesis using wal_flush_contents [OF assms] by (auto simp: write_log_def Let_def intro!: exI [of _ "length (wal_contents w)"])
  next
    case False
    then show ?thesis by (auto simp: write_log_def wal_contents_def intro!: exI [of _ "length (f_data (wal_fd w))"])
  qed
  moreover have "length (wal_contents (write_log env blob w)) - length (f_data (wal_fd (write_log env blob w)))
      = length (wal_buffer (write_log env blob w))" by (simp add: wal_contents_def)
  ultimately show ?thesis
    using write_log_contents [OF assms] write_log_wf [OF assms(2)] write_log_unflushed [of env blob w] by simp
qed

text \<open>
  The log iterator returns exactly the records of a well-formed log, in the order they were
  written, and then stops; on a log that breaks off inside its last record it panics.
\<close>

lemma wal_iterator_replays:
  assumes "length (enc_blobs kps) + length (enc_blob k p) < 2 ^ 63"
  shows "yields wal_next (wal_iterator_new (enc_blobs kps)) (recs_of kps) \<and>
    (\<forall>j rs. 0 < j \<longrightarrow> j < length (enc_blob k p) \<longrightarrow>
       \<not> yields wal_next (wal_iterator_new (enc_blobs kps @ take j (enc_blob k p))) rs)"
proof -
  have "yields wal_next (wal_iterator_new (enc_blobs kps)) (recs_of kps)"
    by (rule wal_iter.yields_enc_blobs [of _ "[]"]) (use assms in \<open>simp_all add: wal_iterator_new_def\<close>)
  moreover have "\<not> yields wal_next (wal_iterator_new (enc_blobs kps @ take j (enc_blob k p))) rs"
    if "0 < j" "j < length (enc_blob k p)" for j rs
    by (rule wal_iter.torn_not_yields [of _ "[]" kps j k p])
      (use assms that in \<open>simp_all add: wal_iterator_new_def\<close>)
  ultimately show ?thesis by blast
qed

end
