(* ===== verification/Rb_Zipper.thy ===== *)
theory Rb_Zipper
  imports Lsm_Prelude "HOL-Library.Tree"
begin

text \<open>
  Coloured binary trees with a focus.  The insertion fix-up of \<^verbatim>\<open>src/memtable/inner.rs\<close> walks from
  the new node towards the root; the tree above the current node is a path of (side, node,
  sibling subtree) steps, innermost first, and \<open>plug\<close> puts the focus back.  The red-black rules 2 to 5 of
  the comment in \<^verbatim>\<open>inner.rs\<close> are stated here on trees and, split at the focus, on paths.
\<close>

datatype Color = Red | Black

lemma not_color [simp]: "c \<noteq> Red \<longleftrightarrow> c = Black" "c \<noteq> Black \<longleftrightarrow> c = Red"
  by (cases c; simp)+

datatype Child = ChildLeft | ChildRight

type_synonym 'a ctree = "('a \<times> Color) tree"
type_synonym 'a path = "(Child \<times> ('a \<times> Color) \<times> 'a ctree) list"

fun plug :: "'a ctree \<Rightarrow> 'a path \<Rightarrow> 'a ctree" where
  "plug t [] = t"
| "plug t ((ChildLeft, x, s) # ps) = plug (Node t x s) ps"
| "plug t ((ChildRight, x, s) # ps) = plug (Node s x t) ps"

fun before :: "'a path \<Rightarrow> ('a \<times> Color) list" where
  "before [] = []"
| "before ((ChildLeft, x, s) # ps) = before ps"
| "before ((ChildRight, x, s) # ps) = before ps @ inorder s @ [x]"

fun after :: "'a path \<Rightarrow> ('a \<times> Color) list" where
  "after [] = []"
| "after ((ChildLeft, x, s) # ps) = x # inorder s @ after ps"
| "after ((ChildRight, x, s) # ps) = after ps"

lemma inorder_plug: "inorder (plug t ps) = before ps @ inorder t @ after ps"
  by (induction t ps rule: plug.induct) auto

text \<open>The labels in order, without their colours.\<close>

definition labels :: "'a ctree \<Rightarrow> 'a list" where
  "labels t = map fst (inorder t)"

definition path_labels :: "'a path \<Rightarrow> 'a list" where
  "path_labels ps = map fst (before ps @ after ps)"

lemma labels_simps [simp]:
  "labels Leaf = []" "labels (Node l (x, c) r) = labels l @ x # labels r"
  by (simp_all add: labels_def)

lemma labels_plug: "labels (plug t ps) = map fst (before ps) @ labels t @ map fst (after ps)"
  by (simp add: labels_def inorder_plug)

lemma distinct_labels_plug:
  "distinct (labels (plug t ps)) \<longleftrightarrow>
     distinct (labels t) \<and> distinct (path_labels ps) \<and> set (labels t) \<inter> set (path_labels ps) = {}"
  by (auto simp: labels_plug path_labels_def)

lemma path_labels_simps [simp]:
  "path_labels [] = []"
  "set (path_labels ((d, (x, c), s) # ps)) = insert x (set (labels s) \<union> set (path_labels ps))"
  "distinct (path_labels ((d, (x, c), s) # ps)) \<longleftrightarrow>
     x \<notin> set (labels s) \<and> x \<notin> set (path_labels ps) \<and> distinct (labels s) \<and>
     distinct (path_labels ps) \<and> set (labels s) \<inter> set (path_labels ps) = {}"
  by (cases d; auto simp: path_labels_def labels_def)+

section \<open>The red-black rules\<close>

fun root_color :: "'a ctree \<Rightarrow> Color" where
  "root_color Leaf = Black"
| "root_color (Node l (x, c) r) = c"

text \<open>Rule 4: a red node has black children.\<close>

fun no_red_red :: "'a ctree \<Rightarrow> bool" where
  "no_red_red Leaf = True"
| "no_red_red (Node l (x, c) r) =
     ((c = Red \<longrightarrow> root_color l = Black \<and> root_color r = Black) \<and> no_red_red l \<and> no_red_red r)"

text \<open>Rule 5: uniform black height.\<close>

fun black_height :: "'a ctree \<Rightarrow> nat" where
  "black_height Leaf = 0"
| "black_height (Node l (x, c) r) = (if c = Black then Suc (black_height l) else black_height l)"

fun uniform_black :: "'a ctree \<Rightarrow> bool" where
  "uniform_black Leaf = True"
| "uniform_black (Node l (x, c) r) =
     (black_height l = black_height r \<and> uniform_black l \<and> uniform_black r)"

text \<open>Rules 2, 4 and 5 together; rule 1 is the type of colours and rule 3 the colour of a leaf.\<close>

definition red_black :: "'a ctree \<Rightarrow> bool" where
  "red_black t \<longleftrightarrow> root_color t = Black \<and> no_red_red t \<and> uniform_black t"

fun paint :: "Color \<Rightarrow> 'a ctree \<Rightarrow> 'a ctree" where
  "paint c Leaf = Leaf"
| "paint c (Node l (x, _) r) = Node l (x, c) r"

lemma paint_simps [simp]:
  "labels (paint c t) = labels t"
  "uniform_black (paint c t) = uniform_black t"
  by (cases "(c, t)" rule: paint.cases; simp)+

text \<open>
  The rules for the part of the tree above the focus, for a focus of black height \<open>b\<close>: siblings
  obey the rules and have the matching black height, a red path node has a black sibling subtree,
  a black parent, and is not the root.
\<close>

definition path_color :: "'a path \<Rightarrow> Color" where
  "path_color ps = (case ps of [] \<Rightarrow> Black | (_, (_, c), _) # _ \<Rightarrow> c)"

lemma path_color_simps [simp]:
  "path_color [] = Black" "path_color ((d, (x, c), s) # ps) = c"
  by (simp_all add: path_color_def)

fun path_ok :: "nat \<Rightarrow> 'a path \<Rightarrow> bool" where
  "path_ok b [] = True"
| "path_ok b ((d, (x, c), s) # ps) =
     (no_red_red s \<and> uniform_black s \<and> black_height s = b \<and>
      (c = Red \<longrightarrow> root_color s = Black \<and> path_color ps = Black \<and> ps \<noteq> []) \<and>
      path_ok (if c = Black then Suc b else b) ps)"

text \<open>A focus that agrees with its path gives a red-black tree, up to the colour of the root.\<close>

lemma path_ok_plug:
  "path_ok (black_height t) ps \<Longrightarrow> no_red_red t \<Longrightarrow> uniform_black t \<Longrightarrow>
   root_color t = Red \<longrightarrow> path_color ps = Black \<Longrightarrow>
   no_red_red (plug t ps) \<and> uniform_black (plug t ps) \<and> (ps \<noteq> [] \<longrightarrow> root_color (plug t ps) = Black)"
proof (induction t ps rule: plug.induct)
  case (1 t)
  then show ?case by simp
next
  case (2 t x s ps)
  obtain i c where x: "x = (i, c)" by (cases x)
  from "2.prems" have "no_red_red (plug (Node t x s) ps) \<and> uniform_black (plug (Node t x s) ps) \<and>
      (ps \<noteq> [] \<longrightarrow> root_color (plug (Node t x s) ps) = Black)"
    by (intro "2.IH") (auto simp: x)
  moreover have "ps = [] \<Longrightarrow> c = Black" using "2.prems"(1) by (cases c) (auto simp: x)
  ultimately show ?case by (cases ps) (auto simp: x)
next
  case (3 t x s ps)
  obtain i c where x: "x = (i, c)" by (cases x)
  from "3.prems" have "no_red_red (plug (Node s x t) ps) \<and> uniform_black (plug (Node s x t) ps) \<and>
      (ps \<noteq> [] \<longrightarrow> root_color (plug (Node s x t) ps) = Black)"
    by (intro "3.IH") (auto simp: x)
  moreover have "ps = [] \<Longrightarrow> c = Black" using "3.prems"(1) by (cases c) (auto simp: x)
  ultimately show ?case by (cases ps) (auto simp: x)
qed

text \<open>Conversely a red-black tree split at any position gives an agreeing path.\<close>

lemma plug_path_ok:
  "no_red_red (plug t ps) \<Longrightarrow> uniform_black (plug t ps) \<Longrightarrow> root_color (plug t ps) = Black \<Longrightarrow>
   path_ok (black_height t) ps \<and> no_red_red t \<and> uniform_black t \<and>
   (root_color t = Red \<longrightarrow> path_color ps = Black \<and> ps \<noteq> [])"
proof (induction t ps rule: plug.induct)
  case (1 t)
  then show ?case by simp
next
  case (2 t x s ps)
  obtain i c where x: "x = (i, c)" by (cases x)
  from "2.IH" "2.prems" show ?case by (cases c) (auto simp: x)
next
  case (3 t x s ps)
  obtain i c where x: "x = (i, c)" by (cases x)
  from "3.IH" "3.prems" show ?case by (cases c) (auto simp: x)
qed

end
