(* ===== verification/Memtable_Inner.thy ===== *)
theory Memtable_Inner
  imports Wal Rb_Zipper
begin

text \<open>
  The memtable of \<^verbatim>\<open>src/memtable/inner.rs\<close>: a red-black tree in an arena (a vector of nodes that
  point to each other by index) plus its write-ahead log.  Definitions only; the proofs are in
  \<open>Arena_Rep\<close>, \<open>Arena_Insert\<close> and \<open>Memtable\<close>.  The two loops that follow pointers
  (\<^verbatim>\<open>find_insert_position\<close>/\<^verbatim>\<open>get_search\<close> downwards, \<^verbatim>\<open>insert_fix_tree\<close> upwards) end only in a
  well-formed arena and are partial functions; the proofs show that they return.
\<close>

datatype MemtableQuery = QData bytes | QTombstone | QNone

datatype ChildType = Inner | Outer
datatype RotationDirection = RotLeft | RotRight
datatype InsertionPosition = NewNode nat Child | ExistingNode nat

record MemtableNode =
  nd_record :: Record
  nd_left :: "nat option"
  nd_right :: "nat option"
  nd_parent :: "nat option"
  nd_color :: Color

text \<open>\<open>mt_capacity\<close> is \<^verbatim>\<open>arena.capacity()\<close>, fixed by \<^verbatim>\<open>Vec::with_capacity(max_nodes)\<close>.\<close>

record MemtableInner =
  mt_arena :: "MemtableNode list"
  mt_capacity :: nat
  mt_max_size :: nat
  mt_root_node :: "nat option"
  mt_current_size :: nat
  mt_wal :: Wal

text \<open>\<^verbatim>\<open>MemtableError::TableFull(key, value)\<close> hands the request back.\<close>

datatype MemtableError = TableFull bytes "bytes option"

section \<open>Rotation choice\<close>

definition child_type :: "nat option \<Rightarrow> nat \<Rightarrow> nat option \<Rightarrow> nat \<Rightarrow> ChildType" where
  "child_type grandparent_left parent parent_left node =
     (let is_parent_left = (grandparent_left = Some parent);
          is_node_left = (parent_left = Some node)
      in if is_parent_left = is_node_left then Outer else Inner)"

definition derive_inner_rotation :: "nat option \<Rightarrow> nat \<Rightarrow> RotationDirection" where
  "derive_inner_rotation grandparent_left parent =
     (if grandparent_left = Some parent then RotLeft else RotRight)"

definition derive_outer_rotation :: "nat option \<Rightarrow> nat \<Rightarrow> RotationDirection" where
  "derive_outer_rotation grandparent_left parent =
     (if grandparent_left = Some parent then RotRight else RotLeft)"

definition derive_rotation_direction ::
  "nat option \<Rightarrow> nat \<Rightarrow> nat option \<Rightarrow> nat \<Rightarrow> ChildType \<times> RotationDirection" where
  "derive_rotation_direction grandparent_left parent parent_left node =
     (case child_type grandparent_left parent parent_left node of
        Outer \<Rightarrow> (Outer, derive_outer_rotation grandparent_left parent)
      | Inner \<Rightarrow> (Inner, derive_inner_rotation grandparent_left parent))"

section \<open>Nodes\<close>

definition new_from_record :: "Record \<Rightarrow> MemtableNode" where
  "new_from_record r =
     \<lparr>nd_record = r, nd_left = None, nd_right = None, nd_parent = None, nd_color = Red\<rparr>"

definition new_data_node :: "bytes \<Rightarrow> bytes \<Rightarrow> MemtableNode option" where
  "new_data_node key val = do {
     r \<leftarrow> new_data_record key val;
     Some \<lparr>nd_record = r, nd_left = None, nd_right = None, nd_parent = None, nd_color = Red\<rparr>
   }"

definition new_tombstone_node :: "bytes \<Rightarrow> MemtableNode option" where
  "new_tombstone_node key = do {
     r \<leftarrow> new_tombstone_record key;
     Some \<lparr>nd_record = r, nd_left = None, nd_right = None, nd_parent = None, nd_color = Red\<rparr>
   }"

definition node_copy_record :: "MemtableNode \<Rightarrow> bytes" where
  [simp]: "node_copy_record self = record_copy_record (nd_record self)"

definition node_record_type :: "MemtableNode \<Rightarrow> RecordType" where
  [simp]: "node_record_type self = record_type (nd_record self)"

definition node_copy_data :: "MemtableNode \<Rightarrow> bytes option option" where
  [simp]: "node_copy_data self = copy_value (nd_record self)"

definition node_size :: "MemtableNode \<Rightarrow> nat" where
  [simp]: "node_size self = record_size (nd_record self)"

definition node_key :: "MemtableNode \<Rightarrow> bytes option" where
  "node_key nd = record_key (nd_record nd)"

text \<open>\<^verbatim>\<open>impl PartialEq\<close>, \<^verbatim>\<open>impl Ord\<close> and \<^verbatim>\<open>impl PartialOrd\<close> for \<^verbatim>\<open>MemtableNode\<close>: compare the keys.\<close>

definition node_eq :: "MemtableNode \<Rightarrow> MemtableNode \<Rightarrow> bool option" where
  "node_eq self other = do { a \<leftarrow> node_key self; b \<leftarrow> node_key other; Some (a = b) }"

definition node_cmp :: "MemtableNode \<Rightarrow> MemtableNode \<Rightarrow> ordering option" where
  "node_cmp self other = do { a \<leftarrow> node_key self; b \<leftarrow> node_key other; Some (cmp a b) }"

definition node_partial_cmp :: "MemtableNode \<Rightarrow> MemtableNode \<Rightarrow> ordering option option" where
  "node_partial_cmp self other = map_option Some (node_cmp self other)"

definition uncle :: "MemtableNode \<Rightarrow> MemtableNode list \<Rightarrow> nat option option" where
  "uncle self arena =
     (case nd_parent self of
        None \<Rightarrow> Some None
      | Some p \<Rightarrow> do {
          parent \<leftarrow> vec_get arena p;
          case nd_parent parent of
            None \<Rightarrow> Some None
          | Some g \<Rightarrow> do {
              grandparent \<leftarrow> vec_get arena g;
              if nd_left grandparent = nd_parent self
              then Some (nd_right grandparent) else Some (nd_left grandparent)
            }
        })"

section \<open>The arena as mutable state\<close>

definition node_at :: "MemtableInner \<Rightarrow> nat \<Rightarrow> MemtableNode option" where
  "node_at self i = vec_get (mt_arena self) i"

definition modify :: "nat \<Rightarrow> (MemtableNode \<Rightarrow> MemtableNode) \<Rightarrow> MemtableInner \<Rightarrow> MemtableInner option" where
  "modify i f self = do {
     nd \<leftarrow> vec_get (mt_arena self) i;
     Some (self\<lparr>mt_arena := (mt_arena self)[i := f nd]\<rparr>)
   }"

abbreviation set_left :: "nat option \<Rightarrow> MemtableNode \<Rightarrow> MemtableNode" where
  "set_left x \<equiv> nd_left_update (\<lambda>_. x)"
abbreviation set_right :: "nat option \<Rightarrow> MemtableNode \<Rightarrow> MemtableNode" where
  "set_right x \<equiv> nd_right_update (\<lambda>_. x)"
abbreviation set_parent :: "nat option \<Rightarrow> MemtableNode \<Rightarrow> MemtableNode" where
  "set_parent x \<equiv> nd_parent_update (\<lambda>_. x)"
abbreviation set_color :: "Color \<Rightarrow> MemtableNode \<Rightarrow> MemtableNode" where
  "set_color x \<equiv> nd_color_update (\<lambda>_. x)"

definition left_rotate :: "nat \<Rightarrow> MemtableInner \<Rightarrow> MemtableInner option" where
  "left_rotate n self = do {
     nn \<leftarrow> node_at self n;
     r \<leftarrow> nd_right nn;
     rn \<leftarrow> node_at self r;
     self \<leftarrow> modify n (set_right (nd_left rn)) self;
     rn \<leftarrow> node_at self r;
     self \<leftarrow> (case nd_left rn of
                Some r_left \<Rightarrow> modify r_left (set_parent (Some n)) self
              | None \<Rightarrow> Some self);
     nn \<leftarrow> node_at self n;
     self \<leftarrow> modify r (set_parent (nd_parent nn)) self;
     nn \<leftarrow> node_at self n;
     self \<leftarrow> (case nd_parent nn of
                Some p \<Rightarrow> do {
                  pn \<leftarrow> node_at self p;
                  if nd_left pn = Some n
                  then modify p (set_left (Some r)) self
                  else modify p (set_right (Some r)) self
                }
              | None \<Rightarrow> Some (self\<lparr>mt_root_node := Some r\<rparr>));
     self \<leftarrow> modify r (set_left (Some n)) self;
     modify n (set_parent (Some r)) self
   }"

definition right_rotate :: "nat \<Rightarrow> MemtableInner \<Rightarrow> MemtableInner option" where
  "right_rotate n self = do {
     nn \<leftarrow> node_at self n;
     l \<leftarrow> nd_left nn;
     ln \<leftarrow> node_at self l;
     self \<leftarrow> modify n (set_left (nd_right ln)) self;
     ln \<leftarrow> node_at self l;
     self \<leftarrow> (case nd_right ln of
                Some l_right \<Rightarrow> modify l_right (set_parent (Some n)) self
              | None \<Rightarrow> Some self);
     nn \<leftarrow> node_at self n;
     self \<leftarrow> modify l (set_parent (nd_parent nn)) self;
     nn \<leftarrow> node_at self n;
     self \<leftarrow> (case nd_parent nn of
                Some p \<Rightarrow> do {
                  pn \<leftarrow> node_at self p;
                  if nd_left pn = Some n
                  then modify p (set_left (Some l)) self
                  else modify p (set_right (Some l)) self
                }
              | None \<Rightarrow> Some (self\<lparr>mt_root_node := Some l\<rparr>));
     self \<leftarrow> modify l (set_right (Some n)) self;
     modify n (set_parent (Some l)) self
   }"

definition insert_recolor :: "nat \<Rightarrow> nat \<Rightarrow> MemtableInner \<Rightarrow> MemtableInner option" where
  "insert_recolor parent grandparent self = do {
     self \<leftarrow> modify parent (set_color Black) self;
     modify grandparent (set_color Red) self
   }"

text \<open>
  The loop of \<^verbatim>\<open>insert_fix_tree\<close>.  \<open>red_uncle\<close> is the guard \<^verbatim>\<open>Some(u) if arena[u].color == Red\<close>.
\<close>

partial_function (option) insert_fix_loop :: "nat \<Rightarrow> MemtableInner \<Rightarrow> MemtableInner option" where
  "insert_fix_loop node_idx self = do {
     nd \<leftarrow> node_at self node_idx;
     case nd_parent nd of
       None \<Rightarrow> Some self
     | Some parent_idx \<Rightarrow> do {
         pn \<leftarrow> node_at self parent_idx;
         if nd_color pn = Black then Some self
         else do {
           grandparent_idx \<leftarrow> nd_parent pn;
           u \<leftarrow> uncle nd (mt_arena self);
           red_uncle \<leftarrow> (case u of
                           None \<Rightarrow> Some None
                         | Some ui \<Rightarrow> do {
                             un \<leftarrow> node_at self ui;
                             Some (if nd_color un = Red then Some ui else None)
                           });
           case red_uncle of
             Some ui \<Rightarrow> do {
               self \<leftarrow> modify ui (set_color Black) self;
               self \<leftarrow> modify parent_idx (set_color Black) self;
               self \<leftarrow> modify grandparent_idx (set_color Red) self;
               insert_fix_loop grandparent_idx self
             }
           | None \<Rightarrow> do {
               gn \<leftarrow> node_at self grandparent_idx;
               case derive_rotation_direction (nd_left gn) parent_idx (nd_left pn) node_idx of
                 (Inner, RotRight) \<Rightarrow> do {
                   self \<leftarrow> right_rotate parent_idx self;
                   insert_fix_loop parent_idx self
                 }
               | (Inner, RotLeft) \<Rightarrow> do {
                   self \<leftarrow> left_rotate parent_idx self;
                   insert_fix_loop parent_idx self
                 }
               | (Outer, RotRight) \<Rightarrow> do {
                   self \<leftarrow> insert_recolor parent_idx grandparent_idx self;
                   right_rotate grandparent_idx self
                 }
               | (Outer, RotLeft) \<Rightarrow> do {
                   self \<leftarrow> insert_recolor parent_idx grandparent_idx self;
                   left_rotate grandparent_idx self
                 }
             }
         }
       }
   }"

definition insert_fix_tree :: "nat \<Rightarrow> MemtableInner \<Rightarrow> MemtableInner option" where
  "insert_fix_tree node_idx self = do {
     self \<leftarrow> insert_fix_loop node_idx self;
     root \<leftarrow> mt_root_node self;
     modify root (set_color Black) self
   }"

section \<open>Insertion and lookup\<close>

definition set_root :: "MemtableNode \<Rightarrow> nat \<Rightarrow> MemtableInner \<Rightarrow> MemtableInner" where
  "set_root node node_idx self =
     self\<lparr>mt_root_node := Some node_idx, mt_arena := mt_arena self @ [set_color Black node]\<rparr>"

partial_function (option) find_position_loop ::
  "MemtableNode \<Rightarrow> nat \<Rightarrow> MemtableInner \<Rightarrow> InsertionPosition option" where
  "find_position_loop key cur self = do {
     node \<leftarrow> node_at self cur;
     ord \<leftarrow> node_cmp key node;
     case ord of
       Equal \<Rightarrow> Some (ExistingNode cur)
     | Less \<Rightarrow> (case nd_left node of
                  Some child_idx \<Rightarrow> find_position_loop key child_idx self
                | None \<Rightarrow> Some (NewNode cur ChildLeft))
     | Greater \<Rightarrow> (case nd_right node of
                     Some child_idx \<Rightarrow> find_position_loop key child_idx self
                   | None \<Rightarrow> Some (NewNode cur ChildRight))
   }"

definition find_insert_position :: "MemtableNode \<Rightarrow> MemtableInner \<Rightarrow> InsertionPosition option" where
  "find_insert_position key self = do {
     root \<leftarrow> mt_root_node self;
     find_position_loop key root self
   }"

definition update_data_from_node :: "nat \<Rightarrow> MemtableNode \<Rightarrow> MemtableInner \<Rightarrow> MemtableInner option" where
  "update_data_from_node curr_idx node self = do {
     cur \<leftarrow> node_at self curr_idx;
     r \<leftarrow> update_from_record (nd_record cur) (nd_record node);
     modify curr_idx (nd_record_update (\<lambda>_. r)) self
   }"

definition insert_node :: "MemtableNode \<Rightarrow> MemtableInner \<Rightarrow> MemtableInner option" where
  "insert_node node self = do {
     let node_idx = length (mt_arena self);
     if mt_root_node self = None then Some (set_root node node_idx self)
     else do {
       pos \<leftarrow> find_insert_position node self;
       case pos of
         ExistingNode curr_idx \<Rightarrow> update_data_from_node curr_idx node self
       | NewNode parent_ptr child \<Rightarrow> do {
           self \<leftarrow> (case child of
                      ChildLeft \<Rightarrow> modify parent_ptr (set_left (Some node_idx)) self
                    | ChildRight \<Rightarrow> modify parent_ptr (set_right (Some node_idx)) self);
           let node = set_parent (Some parent_ptr) node;
           let self = self\<lparr>mt_current_size := mt_current_size self + node_size node\<rparr>;
           let self = self\<lparr>mt_arena := mt_arena self @ [node]\<rparr>;
           insert_fix_tree node_idx self
         }
     }
   }"

definition full :: "MemtableInner \<Rightarrow> bool" where
  "full self \<longleftrightarrow> length (mt_arena self) = mt_capacity self \<or> mt_max_size self \<le> mt_current_size self"

text \<open>
  \<^verbatim>\<open>MemtableInner::new\<close>.  The standard library promises at least the capacity asked for; the model has
  the exact allocation of \<^verbatim>\<open>Vec::with_capacity\<close> as it is implemented.
\<close>

definition memtable_new :: "nat \<Rightarrow> nat \<Rightarrow> Wal \<Rightarrow> MemtableInner" where
  "memtable_new max_size max_nodes wal =
     \<lparr>mt_arena = [], mt_capacity = max_nodes, mt_max_size = max_size, mt_root_node = None,
      mt_current_size = 0, mt_wal = wal\<rparr>"

definition insert_data_record ::
  "Env \<Rightarrow> bytes \<Rightarrow> bytes \<Rightarrow> MemtableInner \<Rightarrow> (MemtableError + MemtableInner) option" where
  "insert_data_record env key val self =
     (if full self then Some (Inl (TableFull key (Some val)))
      else do {
        node \<leftarrow> new_data_node key val;
        let self = self\<lparr>mt_wal := write_log env (node_copy_record node) (mt_wal self)\<rparr>;
        self \<leftarrow> insert_node node self;
        Some (Inr self)
      })"

definition insert_tombstone_record ::
  "Env \<Rightarrow> bytes \<Rightarrow> MemtableInner \<Rightarrow> (MemtableError + MemtableInner) option" where
  "insert_tombstone_record env key self =
     (if full self then Some (Inl (TableFull key None))
      else do {
        node \<leftarrow> new_tombstone_node key;
        let self = self\<lparr>mt_wal := write_log env (node_copy_record node) (mt_wal self)\<rparr>;
        self \<leftarrow> insert_node node self;
        Some (Inr self)
      })"

text \<open>\<^verbatim>\<open>insert_record_from_wal\<close>: a full table is a \<^verbatim>\<open>todo!()\<close>, that is a panic.\<close>

definition insert_record_from_wal :: "Record \<Rightarrow> MemtableInner \<Rightarrow> MemtableInner option" where
  "insert_record_from_wal r self =
     (if full self then None else insert_node (new_from_record r) self)"

partial_function (option) get_search_loop :: "bytes \<Rightarrow> nat \<Rightarrow> MemtableInner \<Rightarrow> nat option option" where
  "get_search_loop key cur self = do {
     curr_node \<leftarrow> node_at self cur;
     k \<leftarrow> node_key curr_node;
     case cmp key k of
       Equal \<Rightarrow> Some (Some cur)
     | Less \<Rightarrow> (case nd_left curr_node of
                  Some child \<Rightarrow> get_search_loop key child self
                | None \<Rightarrow> Some None)
     | Greater \<Rightarrow> (case nd_right curr_node of
                     Some child \<Rightarrow> get_search_loop key child self
                   | None \<Rightarrow> Some None)
   }"

definition get_search :: "bytes \<Rightarrow> MemtableInner \<Rightarrow> nat option option" where
  "get_search key self =
     (case mt_root_node self of
        None \<Rightarrow> Some None
      | Some root \<Rightarrow> get_search_loop key root self)"

definition memtable_get :: "bytes \<Rightarrow> MemtableInner \<Rightarrow> MemtableQuery option" where
  "memtable_get key self = do {
     r \<leftarrow> get_search key self;
     case r of
       None \<Rightarrow> Some QNone
     | Some node_idx \<Rightarrow> do {
         nd \<leftarrow> node_at self node_idx;
         case node_record_type nd of
           Data \<Rightarrow> do {
             val \<leftarrow> node_copy_data nd;
             data \<leftarrow> val;
             Some (QData data)
           }
         | Tombstone \<Rightarrow> Some QTombstone
       }
   }"

end
