(* ===== verification/Arena_Rep.thy ===== *)
theory Arena_Rep
  imports Memtable_Inner
begin

text \<open>
  The arena of the memtable as a tree.  \<open>rep A par ptr t\<close>: following \<open>ptr\<close> in the arena \<open>A\<close> one
  finds the coloured tree \<open>t\<close> of indices, with every child's parent link correct and \<open>par\<close> as
  the parent link of its root.  \<open>tree_of self t\<close>: the memtable's tree is \<open>t\<close> and no index occurs
  twice.  The lemmas show what the pointer operations (rotations, recolouring, linking a new node)
  do to that tree at any position.
\<close>

fun rep :: "MemtableNode list \<Rightarrow> nat option \<Rightarrow> nat option \<Rightarrow> nat ctree \<Rightarrow> bool" where
  "rep A par ptr Leaf = (ptr = None)"
| "rep A par ptr (Node l (i, c) r) =
     (ptr = Some i \<and> i < length A \<and> nd_parent (A ! i) = par \<and> nd_color (A ! i) = c \<and>
      rep A (Some i) (nd_left (A ! i)) l \<and> rep A (Some i) (nd_right (A ! i)) r)"

text \<open>The part of the tree above a hole; \<open>ptr\<close> is the link into the hole and \<open>par\<close> its owner.\<close>

fun rep_path :: "MemtableNode list \<Rightarrow> nat option \<Rightarrow> nat path \<Rightarrow> nat option \<Rightarrow> nat option \<Rightarrow> bool" where
  "rep_path A root [] ptr par = (ptr = root \<and> par = None)"
| "rep_path A root ((ChildLeft, (i, c), s) # ps) ptr par =
     (par = Some i \<and> i < length A \<and> nd_color (A ! i) = c \<and> nd_left (A ! i) = ptr \<and>
      rep A (Some i) (nd_right (A ! i)) s \<and> rep_path A root ps (Some i) (nd_parent (A ! i)))"
| "rep_path A root ((ChildRight, (i, c), s) # ps) ptr par =
     (par = Some i \<and> i < length A \<and> nd_color (A ! i) = c \<and> nd_right (A ! i) = ptr \<and>
      rep A (Some i) (nd_left (A ! i)) s \<and> rep_path A root ps (Some i) (nd_parent (A ! i)))"

definition links :: "MemtableNode \<Rightarrow> nat option \<times> nat option \<times> nat option \<times> Color" where
  "links nd = (nd_left nd, nd_right nd, nd_parent nd, nd_color nd)"

lemma links_eq_iff:
  "links x = links y \<longleftrightarrow> nd_left x = nd_left y \<and> nd_right x = nd_right y \<and>
     nd_parent x = nd_parent y \<and> nd_color x = nd_color y"
  by (simp add: links_def)

lemma rep_plug:
  "rep A None root (plug t ps) \<longleftrightarrow> (\<exists>ptr par. rep_path A root ps ptr par \<and> rep A par ptr t)"
proof (induction t ps rule: plug.induct)
  case (1 t)
  then show ?case by simp
next
  case (2 t x s ps)
  obtain i c where x: "x = (i, c)" by (cases x)
  show ?case using "2.IH" by (auto simp: x)
next
  case (3 t x s ps)
  obtain i c where x: "x = (i, c)" by (cases x)
  show ?case using "3.IH" by (auto simp: x)
qed

lemma rep_index_bound: "rep A par ptr t \<Longrightarrow> i \<in> set (labels t) \<Longrightarrow> i < length A"
  by (induction t arbitrary: par ptr rule: no_red_red.induct) auto

lemma rep_ptr_in: "rep A par (Some i) t \<Longrightarrow> i \<in> set (labels t)"
  by (cases t rule: no_red_red.cases) auto

lemma rep_path_index_bound: "rep_path A root ps ptr par \<Longrightarrow> i \<in> set (path_labels ps) \<Longrightarrow> i < length A"
proof (induction A root ps ptr par rule: rep_path.induct)
  case (1 A root ptr par)
  then show ?case by simp
next
  case (2 A root i c s ps ptr par)
  then show ?case by (auto dest: rep_index_bound)
next
  case (3 A root i c s ps ptr par)
  then show ?case by (auto dest: rep_index_bound)
qed

text \<open>Frame: the representation depends only on the links of the nodes that occur in it.\<close>

lemma rep_frame:
  "rep A par ptr t \<Longrightarrow> length A \<le> length A' \<Longrightarrow>
   \<forall>i \<in> set (labels t). links (A' ! i) = links (A ! i) \<Longrightarrow> rep A' par ptr t"
  by (induction t arbitrary: par ptr rule: no_red_red.induct) (auto simp: links_eq_iff)

lemma rep_path_frame:
  "rep_path A root ps ptr par \<Longrightarrow> length A \<le> length A' \<Longrightarrow>
   \<forall>i \<in> set (path_labels ps). links (A' ! i) = links (A ! i) \<Longrightarrow> rep_path A' root ps ptr par"
proof (induction A root ps ptr par rule: rep_path.induct)
  case (1 A root ptr par)
  then show ?case by simp
next
  case (2 A root i c s ps ptr par)
  then show ?case by (auto simp: links_eq_iff intro: rep_frame)
next
  case (3 A root i c s ps ptr par)
  then show ?case by (auto simp: links_eq_iff intro: rep_frame)
qed

text \<open>Moving a subtree under another parent changes one parent link.\<close>

lemma rep_reparent:
  assumes "rep A par ptr t" and "distinct (labels t)" and "length A \<le> length A'"
    and "\<forall>i \<in> set (labels t). ptr \<noteq> Some i \<longrightarrow> links (A' ! i) = links (A ! i)"
    and "\<forall>i. ptr = Some i \<longrightarrow> links (A' ! i) = links (set_parent par' (A ! i))"
  shows "rep A' par' ptr t"
proof (cases t rule: no_red_red.cases)
  case 1
  then show ?thesis using assms by simp
next
  case (2 l i c r)
  have "rep A' (Some i) (nd_left (A ! i)) l" and "rep A' (Some i) (nd_right (A ! i)) r"
    using assms 2 by (auto intro!: rep_frame [of A])
  then show ?thesis using assms 2 by (auto simp: links_eq_iff)
qed

text \<open>Re-targeting the link into the hole.\<close>

lemma rep_path_retarget:
  assumes "rep_path A root ps ptr par" and "distinct (path_labels ps)" and "length A \<le> length A'"
    and "\<forall>i \<in> set (path_labels ps). par \<noteq> Some i \<longrightarrow> links (A' ! i) = links (A ! i)"
    and "\<forall>i. par = Some i \<longrightarrow> links (A' ! i) =
           links (if nd_left (A ! i) = ptr then set_left ptr' (A ! i) else set_right ptr' (A ! i))"
    and "root' = (if par = None then ptr' else root)"
    and "\<forall>i. ptr = Some i \<longrightarrow> i \<notin> set (path_labels ps)" and "ptr \<noteq> None"
  shows "rep_path A' root' ps ptr' par"
proof (cases "(A, root, ps, ptr, par)" rule: rep_path.cases)
  case 1
  then show ?thesis using assms by auto
next
  case (2 A' root'' i c s qs)
  then show ?thesis
    using assms by (auto simp: links_eq_iff intro!: rep_frame [of A] rep_path_frame [of A])
next
  case (3 A' root'' i c s qs)
  have "nd_left (A ! i) \<noteq> ptr"
    using assms(1,7,8) 3 rep_ptr_in by fastforce
  then show ?thesis
    using assms 3 by (auto simp: links_eq_iff intro!: rep_frame [of A] rep_path_frame [of A])
qed

lemma rep_path_par_in: "rep_path A root ps ptr (Some p) \<Longrightarrow> p \<in> set (path_labels ps)"
  by (cases "(A, root, ps, ptr, Some p)" rule: rep_path.cases) auto

definition tree_of :: "MemtableInner \<Rightarrow> nat ctree \<Rightarrow> bool" where
  "tree_of self t \<longleftrightarrow> rep (mt_arena self) None (mt_root_node self) t \<and> distinct (labels t)"

section \<open>Rotations\<close>

text \<open>What the tree operations leave alone: the records, the log, the bounds and the size counter.\<close>

definition same_data :: "MemtableInner \<Rightarrow> MemtableInner \<Rightarrow> bool" where
  "same_data self self' \<longleftrightarrow>
     map nd_record (mt_arena self') = map nd_record (mt_arena self) \<and>
     mt_wal self' = mt_wal self \<and> mt_capacity self' = mt_capacity self \<and>
     mt_max_size self' = mt_max_size self \<and> mt_current_size self' = mt_current_size self"

lemma same_data_refl [simp]: "same_data s s"
  by (simp add: same_data_def)

lemma same_data_trans: "same_data a b \<Longrightarrow> same_data b c \<Longrightarrow> same_data a c"
  by (simp add: same_data_def)

lemma same_data_length: "same_data a b \<Longrightarrow> length (mt_arena b) = length (mt_arena a)"
  by (metis same_data_def length_map)

text \<open>The pointer surgery of \<^verbatim>\<open>left_rotate\<close>, node by node.\<close>

lemma left_rotate_arena:
  assumes "n < length A" "nd_right (A ! n) = Some r" "r < length A" "n \<noteq> r"
    and "\<And>x. nd_left (A ! r) = Some x \<Longrightarrow> x < length A \<and> x \<noteq> n \<and> x \<noteq> r \<and> nd_parent (A ! n) \<noteq> Some x"
    and "\<And>p. nd_parent (A ! n) = Some p \<Longrightarrow> p < length A \<and> p \<noteq> n \<and> p \<noteq> r"
    and A: "A = mt_arena self"
  obtains self' where "left_rotate n self = Some self'" "same_data self self'"
    "mt_root_node self' = (if nd_parent (A ! n) = None then Some r else mt_root_node self)"
    "mt_arena self' ! n = (A ! n)\<lparr>nd_right := nd_left (A ! r), nd_parent := Some r\<rparr>"
    "mt_arena self' ! r = (A ! r)\<lparr>nd_left := Some n, nd_parent := nd_parent (A ! n)\<rparr>"
    "\<And>x. nd_left (A ! r) = Some x \<Longrightarrow> mt_arena self' ! x = set_parent (Some n) (A ! x)"
    "\<And>p. nd_parent (A ! n) = Some p \<Longrightarrow> mt_arena self' ! p =
       (if nd_left (A ! p) = Some n then set_left (Some r) (A ! p) else set_right (Some r) (A ! p))"
    "\<And>i. i \<noteq> n \<Longrightarrow> i \<noteq> r \<Longrightarrow> nd_left (A ! r) \<noteq> Some i \<Longrightarrow> nd_parent (A ! n) \<noteq> Some i \<Longrightarrow>
       mt_arena self' ! i = A ! i"
proof -
  note ev = left_rotate_def node_at_def modify_def A [symmetric] assms(1-4) assms(4) [symmetric]
    nth_list_update map_update same_data_def
  show ?thesis
  proof (cases "nd_left (A ! r)")
    case none: None
    show ?thesis
    proof (cases "nd_parent (A ! n)")
      case None
      show ?thesis
        by (rule that [of "the (left_rotate n self)"]) (simp_all add: ev none None)
    next
      case (Some p)
      then have p: "p < length A" "p \<noteq> n" "p \<noteq> r" "n \<noteq> p" "r \<noteq> p" using assms(6) by auto
      show ?thesis
        by (rule that [of "the (left_rotate n self)"]) (simp_all add: ev none Some p)
    qed
  next
    case some: (Some x)
    then have x: "x < length A" "x \<noteq> n" "x \<noteq> r" "n \<noteq> x" "r \<noteq> x" "nd_parent (A ! n) \<noteq> Some x"
      using assms(5) by auto
    show ?thesis
    proof (cases "nd_parent (A ! n)")
      case None
      show ?thesis
        by (rule that [of "the (left_rotate n self)"]) (simp_all add: ev some x None)
    next
      case (Some p)
      then have p: "p < length A" "p \<noteq> n" "p \<noteq> r" "n \<noteq> p" "r \<noteq> p" "p \<noteq> x" "x \<noteq> p" using assms(6) x by auto
      show ?thesis
        by (rule that [of "the (left_rotate n self)"]) (simp_all add: ev some x Some p)
    qed
  qed
qed

text \<open>The pointer surgery of \<^verbatim>\<open>right_rotate\<close>, node by node.\<close>

lemma right_rotate_arena:
  assumes "n < length A" "nd_left (A ! n) = Some r" "r < length A" "n \<noteq> r"
    and "\<And>x. nd_right (A ! r) = Some x \<Longrightarrow> x < length A \<and> x \<noteq> n \<and> x \<noteq> r \<and> nd_parent (A ! n) \<noteq> Some x"
    and "\<And>p. nd_parent (A ! n) = Some p \<Longrightarrow> p < length A \<and> p \<noteq> n \<and> p \<noteq> r"
    and A: "A = mt_arena self"
  obtains self' where "right_rotate n self = Some self'" "same_data self self'"
    "mt_root_node self' = (if nd_parent (A ! n) = None then Some r else mt_root_node self)"
    "mt_arena self' ! n = (A ! n)\<lparr>nd_left := nd_right (A ! r), nd_parent := Some r\<rparr>"
    "mt_arena self' ! r = (A ! r)\<lparr>nd_right := Some n, nd_parent := nd_parent (A ! n)\<rparr>"
    "\<And>x. nd_right (A ! r) = Some x \<Longrightarrow> mt_arena self' ! x = set_parent (Some n) (A ! x)"
    "\<And>p. nd_parent (A ! n) = Some p \<Longrightarrow> mt_arena self' ! p =
       (if nd_left (A ! p) = Some n then set_left (Some r) (A ! p) else set_right (Some r) (A ! p))"
    "\<And>i. i \<noteq> n \<Longrightarrow> i \<noteq> r \<Longrightarrow> nd_right (A ! r) \<noteq> Some i \<Longrightarrow> nd_parent (A ! n) \<noteq> Some i \<Longrightarrow>
       mt_arena self' ! i = A ! i"
proof -
  note ev = right_rotate_def node_at_def modify_def A [symmetric] assms(1-4) assms(4) [symmetric]
    nth_list_update map_update same_data_def
  show ?thesis
  proof (cases "nd_right (A ! r)")
    case none: None
    show ?thesis
    proof (cases "nd_parent (A ! n)")
      case None
      show ?thesis
        by (rule that [of "the (right_rotate n self)"]) (simp_all add: ev none None)
    next
      case (Some p)
      then have p: "p < length A" "p \<noteq> n" "p \<noteq> r" "n \<noteq> p" "r \<noteq> p" using assms(6) by auto
      show ?thesis
        by (rule that [of "the (right_rotate n self)"]) (simp_all add: ev none Some p)
    qed
  next
    case some: (Some x)
    then have x: "x < length A" "x \<noteq> n" "x \<noteq> r" "n \<noteq> x" "r \<noteq> x" "nd_parent (A ! n) \<noteq> Some x"
      using assms(5) by auto
    show ?thesis
    proof (cases "nd_parent (A ! n)")
      case None
      show ?thesis
        by (rule that [of "the (right_rotate n self)"]) (simp_all add: ev some x None)
    next
      case (Some p)
      then have p: "p < length A" "p \<noteq> n" "p \<noteq> r" "n \<noteq> p" "r \<noteq> p" "p \<noteq> x" "x \<noteq> p" using assms(6) x by auto
      show ?thesis
        by (rule that [of "the (right_rotate n self)"]) (simp_all add: ev some x Some p)
    qed
  qed
qed

lemma left_rotate_tree:
  assumes "tree_of self (plug (Node a (n, cn) (Node b (r, cr) c)) ps)"
  obtains self' where "left_rotate n self = Some self'" "same_data self self'"
    "tree_of self' (plug (Node (Node a (n, cn) b) (r, cr) c) ps)"
proof -
  let ?A = "mt_arena self" and ?root = "mt_root_node self"
  from assms obtain par where path: "rep_path ?A ?root ps (Some n) par"
    and n: "n < length ?A" "nd_parent (?A ! n) = par" "nd_color (?A ! n) = cn" "nd_right (?A ! n) = Some r"
    and r: "r < length ?A" "nd_parent (?A ! r) = Some n" "nd_color (?A ! r) = cr"
    and a: "rep ?A (Some n) (nd_left (?A ! n)) a"
    and b: "rep ?A (Some r) (nd_left (?A ! r)) b"
    and c: "rep ?A (Some r) (nd_right (?A ! r)) c"
    unfolding tree_of_def rep_plug by auto
  from assms have dist: "distinct (labels (Node a (n, cn) (Node b (r, cr) c)))" "distinct (path_labels ps)"
    "set (labels (Node a (n, cn) (Node b (r, cr) c))) \<inter> set (path_labels ps) = {}"
    by (auto simp: tree_of_def distinct_labels_plug)
  have par: "p \<in> set (path_labels ps)" "p < length ?A" if "par = Some p" for p
    using path that by (auto intro: rep_path_par_in rep_path_index_bound)
  have bx: "x \<in> set (labels b)" "x < length ?A" if "nd_left (?A ! r) = Some x" for x
    using b that by (auto intro: rep_ptr_in rep_index_bound)
  obtain self' where s: "left_rotate n self = Some self'" "same_data self self'"
    and root': "mt_root_node self' = (if par = None then Some r else ?root)"
    and upd: "mt_arena self' ! n = (?A ! n)\<lparr>nd_right := nd_left (?A ! r), nd_parent := Some r\<rparr>"
    "mt_arena self' ! r = (?A ! r)\<lparr>nd_left := Some n, nd_parent := par\<rparr>"
    "\<And>x. nd_left (?A ! r) = Some x \<Longrightarrow> mt_arena self' ! x = set_parent (Some n) (?A ! x)"
    "\<And>p. par = Some p \<Longrightarrow> mt_arena self' ! p =
       (if nd_left (?A ! p) = Some n then set_left (Some r) (?A ! p) else set_right (Some r) (?A ! p))"
    "\<And>i. i \<noteq> n \<Longrightarrow> i \<noteq> r \<Longrightarrow> nd_left (?A ! r) \<noteq> Some i \<Longrightarrow> par \<noteq> Some i \<Longrightarrow> mt_arena self' ! i = ?A ! i"
    by (rule left_rotate_arena [of n ?A r self]) (use n r par bx dist in fastforce)+
  have len: "length ?A \<le> length (mt_arena self')" using same_data_length [OF s(2)] by simp
  have other: "mt_arena self' ! i = ?A ! i"
    if "i \<noteq> n" "i \<noteq> r" "i \<notin> set (labels b)" "par \<noteq> Some i" for i
    using that bx by (intro upd(5)) auto
  have on_path: "mt_arena self' ! i = ?A ! i" if "i \<in> set (path_labels ps)" "par \<noteq> Some i" for i
    using that dist(3) by (intro other) auto
  have path': "rep_path (mt_arena self') (mt_root_node self') ps (Some r) par"
    by (rule rep_path_retarget [OF path dist(2) len _ _ root']) (use dist(3) on_path upd(4) in auto)
  have par_out: "par \<noteq> Some i" if "i \<in> set (labels a) \<union> set (labels b) \<union> set (labels c)" for i
    using that par(1) [of i] dist(3) by auto
  have ac: "mt_arena self' ! i = ?A ! i" if "i \<in> set (labels a) \<union> set (labels c)" for i
    using that dist(1) par_out by (intro other) auto
  have "rep (mt_arena self') (Some n) (nd_left (?A ! n)) a"
    by (rule rep_frame [OF a len]) (simp add: ac)
  moreover have "rep (mt_arena self') (Some r) (nd_right (?A ! r)) c"
    by (rule rep_frame [OF c len]) (simp add: ac)
  moreover have "mt_arena self' ! i = ?A ! i" if "i \<in> set (labels b)" "nd_left (?A ! r) \<noteq> Some i" for i
    using that dist(1) par_out by (intro upd(5)) auto
  then have "rep (mt_arena self') (Some n) (nd_left (?A ! r)) b"
    using dist(1) by (intro rep_reparent [OF b _ len]) (simp_all add: upd(3))
  ultimately have "rep (mt_arena self') None (mt_root_node self') (plug (Node (Node a (n, cn) b) (r, cr) c) ps)"
    using path' n r upd(1,2) len unfolding rep_plug by (intro exI [of _ "Some r"] exI [of _ par]) simp
  with dist have "tree_of self' (plug (Node (Node a (n, cn) b) (r, cr) c) ps)"
    by (auto simp: tree_of_def distinct_labels_plug)
  with s show ?thesis by (rule that)
qed

lemma right_rotate_tree:
  assumes "tree_of self (plug (Node (Node c (r, cr) b) (n, cn) a) ps)"
  obtains self' where "right_rotate n self = Some self'" "same_data self self'"
    "tree_of self' (plug (Node c (r, cr) (Node b (n, cn) a)) ps)"
proof -
  let ?A = "mt_arena self" and ?root = "mt_root_node self"
  from assms obtain par where path: "rep_path ?A ?root ps (Some n) par"
    and n: "n < length ?A" "nd_parent (?A ! n) = par" "nd_color (?A ! n) = cn" "nd_left (?A ! n) = Some r"
    and r: "r < length ?A" "nd_parent (?A ! r) = Some n" "nd_color (?A ! r) = cr"
    and a: "rep ?A (Some n) (nd_right (?A ! n)) a"
    and b: "rep ?A (Some r) (nd_right (?A ! r)) b"
    and c: "rep ?A (Some r) (nd_left (?A ! r)) c"
    unfolding tree_of_def rep_plug by auto
  from assms have dist: "distinct (labels (Node (Node c (r, cr) b) (n, cn) a))" "distinct (path_labels ps)"
    "set (labels (Node (Node c (r, cr) b) (n, cn) a)) \<inter> set (path_labels ps) = {}"
    by (auto simp: tree_of_def distinct_labels_plug)
  have par: "p \<in> set (path_labels ps)" "p < length ?A" if "par = Some p" for p
    using path that by (auto intro: rep_path_par_in rep_path_index_bound)
  have bx: "x \<in> set (labels b)" "x < length ?A" if "nd_right (?A ! r) = Some x" for x
    using b that by (auto intro: rep_ptr_in rep_index_bound)
  obtain self' where s: "right_rotate n self = Some self'" "same_data self self'"
    and root': "mt_root_node self' = (if par = None then Some r else ?root)"
    and upd: "mt_arena self' ! n = (?A ! n)\<lparr>nd_left := nd_right (?A ! r), nd_parent := Some r\<rparr>"
    "mt_arena self' ! r = (?A ! r)\<lparr>nd_right := Some n, nd_parent := par\<rparr>"
    "\<And>x. nd_right (?A ! r) = Some x \<Longrightarrow> mt_arena self' ! x = set_parent (Some n) (?A ! x)"
    "\<And>p. par = Some p \<Longrightarrow> mt_arena self' ! p =
       (if nd_left (?A ! p) = Some n then set_left (Some r) (?A ! p) else set_right (Some r) (?A ! p))"
    "\<And>i. i \<noteq> n \<Longrightarrow> i \<noteq> r \<Longrightarrow> nd_right (?A ! r) \<noteq> Some i \<Longrightarrow> par \<noteq> Some i \<Longrightarrow> mt_arena self' ! i = ?A ! i"
    by (rule right_rotate_arena [of n ?A r self]) (use n r par bx dist in fastforce)+
  have len: "length ?A \<le> length (mt_arena self')" using same_data_length [OF s(2)] by simp
  have other: "mt_arena self' ! i = ?A ! i"
    if "i \<noteq> n" "i \<noteq> r" "i \<notin> set (labels b)" "par \<noteq> Some i" for i
    using that bx by (intro upd(5)) auto
  have on_path: "mt_arena self' ! i = ?A ! i" if "i \<in> set (path_labels ps)" "par \<noteq> Some i" for i
    using that dist(3) by (intro other) auto
  have path': "rep_path (mt_arena self') (mt_root_node self') ps (Some r) par"
    by (rule rep_path_retarget [OF path dist(2) len _ _ root']) (use dist(3) on_path upd(4) in auto)
  have par_out: "par \<noteq> Some i" if "i \<in> set (labels a) \<union> set (labels b) \<union> set (labels c)" for i
    using that par(1) [of i] dist(3) by auto
  have ac: "mt_arena self' ! i = ?A ! i" if "i \<in> set (labels a) \<union> set (labels c)" for i
    using that dist(1) par_out by (intro other) auto
  have "rep (mt_arena self') (Some n) (nd_right (?A ! n)) a"
    by (rule rep_frame [OF a len]) (simp add: ac)
  moreover have "rep (mt_arena self') (Some r) (nd_left (?A ! r)) c"
    by (rule rep_frame [OF c len]) (simp add: ac)
  moreover have "mt_arena self' ! i = ?A ! i" if "i \<in> set (labels b)" "nd_right (?A ! r) \<noteq> Some i" for i
    using that dist(1) par_out by (intro upd(5)) auto
  then have "rep (mt_arena self') (Some n) (nd_right (?A ! r)) b"
    using dist(1) by (intro rep_reparent [OF b _ len]) (simp_all add: upd(3))
  ultimately have "rep (mt_arena self') None (mt_root_node self') (plug (Node c (r, cr) (Node b (n, cn) a)) ps)"
    using path' n r upd(1,2) len unfolding rep_plug by (intro exI [of _ "Some r"] exI [of _ par]) simp
  with dist have "tree_of self' (plug (Node c (r, cr) (Node b (n, cn) a)) ps)"
    by (auto simp: tree_of_def distinct_labels_plug)
  with s show ?thesis by (rule that)
qed

section \<open>Recolouring and linking\<close>

text \<open>\<^verbatim>\<open>modify\<close> at a node of the tree, when only its colour changes.\<close>

lemma modify_color_tree:
  assumes "tree_of self (plug (Node l (i, c) r) ps)"
  obtains self' where "modify i (set_color c') self = Some self'" "same_data self self'"
    "tree_of self' (plug (Node l (i, c') r) ps)" "mt_root_node self' = mt_root_node self"
proof -
  let ?A = "mt_arena self" and ?A' = "(mt_arena self)[i := set_color c' (mt_arena self ! i)]"
  from assms obtain par where path: "rep_path ?A (mt_root_node self) ps (Some i) par"
    and i: "i < length ?A" "nd_parent (?A ! i) = par"
    and l: "rep ?A (Some i) (nd_left (?A ! i)) l" and r: "rep ?A (Some i) (nd_right (?A ! i)) r"
    unfolding tree_of_def rep_plug by auto
  from assms have dist: "i \<notin> set (labels l)" "i \<notin> set (labels r)" "i \<notin> set (path_labels ps)"
    by (auto simp: tree_of_def distinct_labels_plug)
  have "rep_path ?A' (mt_root_node self) ps (Some i) par"
    by (rule rep_path_frame [OF path]) (use dist in \<open>auto intro!: arg_cong [where f = links] nth_list_update_neq\<close>)
  moreover have "rep ?A' (Some i) (nd_left (?A ! i)) l"
    by (rule rep_frame [OF l]) (use dist in \<open>auto intro!: arg_cong [where f = links] nth_list_update_neq\<close>)
  moreover have "rep ?A' (Some i) (nd_right (?A ! i)) r"
    by (rule rep_frame [OF r]) (use dist in \<open>auto intro!: arg_cong [where f = links] nth_list_update_neq\<close>)
  ultimately have "rep ?A' None (mt_root_node self) (plug (Node l (i, c') r) ps)"
    using i unfolding rep_plug by (intro exI [of _ "Some i"] exI [of _ par]) simp
  with assms have "tree_of (self\<lparr>mt_arena := ?A'\<rparr>) (plug (Node l (i, c') r) ps)"
    by (simp add: tree_of_def labels_plug)
  with i show ?thesis
    by (intro that [of "self\<lparr>mt_arena := ?A'\<rparr>"]) (simp_all add: modify_def same_data_def map_update)
qed

text \<open>Appending a node and hanging it into an empty child position.\<close>

lemma link_tree:
  assumes tr: "tree_of self (plug Leaf ((d, (p, c), s) # ps))"
    and nd: "nd_left nd = None" "nd_right nd = None" "nd_parent nd = Some p"
    and upd: "f = (case d of ChildLeft \<Rightarrow> set_left (Some n) | ChildRight \<Rightarrow> set_right (Some n))"
    and n: "n = length (mt_arena self)"
  shows "\<exists>self'. modify p f self = Some self' \<and> mt_root_node self' = mt_root_node self \<and>
    map nd_record (mt_arena self') = map nd_record (mt_arena self) \<and>
    mt_wal self' = mt_wal self \<and> mt_capacity self' = mt_capacity self \<and>
    mt_max_size self' = mt_max_size self \<and> mt_current_size self' = mt_current_size self \<and>
    tree_of (self'\<lparr>mt_arena := mt_arena self' @ [nd]\<rparr>)
      (plug (Node Leaf (n, nd_color nd) Leaf) ((d, (p, c), s) # ps))"
proof -
  let ?A = "mt_arena self" and ?A' = "(mt_arena self)[p := f (mt_arena self ! p)] @ [nd]"
  from tr obtain par ptr where path: "rep_path ?A (mt_root_node self) ((d, (p, c), s) # ps) ptr par"
    and ptr: "ptr = None"
    unfolding tree_of_def rep_plug by auto
  from tr have dist: "distinct (path_labels ((d, (p, c), s) # ps))"
    by (simp add: tree_of_def distinct_labels_plug)
  have bound: "i < length ?A" if "i \<in> set (path_labels ((d, (p, c), s) # ps))" for i
    using rep_path_index_bound [OF path that] .
  have s: "rep ?A' (Some p) q s" if "rep ?A (Some p) q s" for q
    by (rule rep_frame [OF that]) (use dist bound in \<open>auto simp: nth_append intro!: arg_cong [where f = links] nth_list_update_neq\<close>)
  have ps: "rep_path ?A' (mt_root_node self) ps q v" if "rep_path ?A (mt_root_node self) ps q v" for q v
    by (rule rep_path_frame [OF that]) (use dist bound in \<open>auto simp: nth_append intro!: arg_cong [where f = links] nth_list_update_neq\<close>)
  have p: "p < length ?A" using bound by simp
  have "rep_path ?A' (mt_root_node self) ((d, (p, c), s) # ps) (Some n) (Some p)"
    using path p s ps by (cases d) (auto simp: upd nth_append ptr)
  moreover have "rep ?A' (Some p) (Some n) (Node Leaf (n, nd_color nd) Leaf)"
    using nd n by (simp add: nth_append)
  ultimately have "rep ?A' None (mt_root_node self) (plug (Node Leaf (n, nd_color nd) Leaf) ((d, (p, c), s) # ps))"
    unfolding rep_plug by blast
  moreover have "distinct (labels (plug (Node Leaf (n, nd_color nd) Leaf) ((d, (p, c), s) # ps)))"
    using dist bound n unfolding distinct_labels_plug by fastforce
  moreover have "nd_record (f x) = nd_record x" for x
    by (cases d) (simp_all add: upd)
  ultimately show ?thesis
    using p by (intro exI [of _ "self\<lparr>mt_arena := (mt_arena self)[p := f (mt_arena self ! p)]\<rparr>"])
      (simp add: modify_def tree_of_def map_update)
qed

end
