(* ===== verification/Arena_Insert.thy ===== *)
theory Arena_Insert
  imports Arena_Rep
begin

text \<open>
  \<^verbatim>\<open>insert_fix_tree\<close> restores the red-black rules.  The loop is followed case by case (Case 1: red
  uncle, recolour and climb; Case 2: inner child, rotate the parent; Case 3: outer child, recolour
  and rotate the grandparent); the induction on the length of the path above the current node also
  shows that the loop ends and that none of its index operations can fail.
\<close>

fun root_idx :: "nat ctree \<Rightarrow> nat option" where
  "root_idx Leaf = None"
| "root_idx (Node l (i, c) r) = Some i"

definition path_parent :: "nat path \<Rightarrow> nat option" where
  "path_parent ps = (case ps of [] \<Rightarrow> None | (_, (p, _), _) # _ \<Rightarrow> Some p)"

lemma path_parent_simps [simp]:
  "path_parent [] = None" "path_parent ((d, (p, c), s) # ps) = Some p"
  by (simp_all add: path_parent_def)

lemma rep_root_idx: "rep A par ptr t \<Longrightarrow> ptr = root_idx t"
  by (cases t rule: root_idx.cases) auto

lemma rep_path_parent: "rep_path A root ps ptr par \<Longrightarrow> par = path_parent ps"
  by (cases "(A, root, ps, ptr, par)" rule: rep_path.cases) auto

text \<open>All that the code can read off a node, in terms of the tree around it.\<close>

lemma tree_node:
  assumes "tree_of self (plug (Node l (i, c) r) ps)"
  shows "node_at self i = Some (mt_arena self ! i)" "vec_get (mt_arena self) i = Some (mt_arena self ! i)"
    and "nd_color (mt_arena self ! i) = c"
    and "nd_left (mt_arena self ! i) = root_idx l" and "nd_right (mt_arena self ! i) = root_idx r"
    and "nd_parent (mt_arena self ! i) = path_parent ps"
  using assms unfolding tree_of_def rep_plug
  by (auto simp: node_at_def dest: rep_root_idx rep_path_parent)

lemma root_idx_in: "root_idx t = Some i \<Longrightarrow> i \<in> set (labels t)"
  by (cases t rule: root_idx.cases) auto

lemma tree_of_distinct: "tree_of self t \<Longrightarrow> distinct (labels t)"
  by (simp add: tree_of_def)

section \<open>Recolouring a node anywhere in the tree\<close>

fun recolor :: "nat \<Rightarrow> Color \<Rightarrow> nat ctree \<Rightarrow> nat ctree" where
  "recolor i c Leaf = Leaf"
| "recolor i c (Node l (x, cx) r) = Node (recolor i c l) (x, if x = i then c else cx) (recolor i c r)"

definition recolor_path :: "nat \<Rightarrow> Color \<Rightarrow> nat path \<Rightarrow> nat path" where
  "recolor_path i c ps = map (\<lambda>(d, (x, cx), s). (d, (x, if x = i then c else cx), recolor i c s)) ps"

lemma recolor_path_simps [simp]:
  "recolor_path i c [] = []"
  "recolor_path i c ((d, (x, cx), s) # ps) =
     (d, (x, if x = i then c else cx), recolor i c s) # recolor_path i c ps"
  by (simp_all add: recolor_path_def)

lemma recolor_id [simp]: "i \<notin> set (labels t) \<Longrightarrow> recolor i c t = t"
  by (induction t rule: no_red_red.induct) auto

lemma recolor_path_id [simp]: "i \<notin> set (path_labels ps) \<Longrightarrow> recolor_path i c ps = ps"
proof (induction ps)
  case Nil
  then show ?case by simp
next
  case (Cons a ps)
  then show ?case by (cases a) auto
qed

lemma recolor_plug: "recolor i c (plug t ps) = plug (recolor i c t) (recolor_path i c ps)"
proof (induction t ps rule: plug.induct)
  case (1 t)
  then show ?case by simp
next
  case (2 t x s ps)
  then show ?case by (cases x) simp
next
  case (3 t x s ps)
  then show ?case by (cases x) simp
qed

lemma labels_focus:
  "i \<in> set (labels t) \<Longrightarrow> \<exists>l c r qs. plug t ps = plug (Node l (i, c) r) qs"
proof (induction t arbitrary: ps rule: no_red_red.induct)
  case 1
  then show ?case by simp
next
  case (2 l x c r)
  then consider "i = x" | "i \<in> set (labels l)" | "i \<in> set (labels r)" by auto
  then show ?case
  proof cases
    case 1
    then show ?thesis by blast
  next
    case 2
    from "2.IH"(1) [OF this, of "(ChildLeft, (x, c), r) # ps"] show ?thesis by simp
  next
    case 3
    from "2.IH"(2) [OF this, of "(ChildRight, (x, c), l) # ps"] show ?thesis by simp
  qed
qed

lemma modify_color:
  assumes tr: "tree_of self t" and i: "i \<in> set (labels t)"
  obtains self' where "modify i (set_color c') self = Some self'" "same_data self self'"
    "tree_of self' (recolor i c' t)" "mt_root_node self' = mt_root_node self"
proof -
  from labels_focus [OF i, of "[]"] obtain l c r qs where t: "t = plug (Node l (i, c) r) qs" by auto
  from tr have "i \<notin> set (labels l)" "i \<notin> set (labels r)" "i \<notin> set (path_labels qs)"
    by (auto simp: t tree_of_def distinct_labels_plug)
  then have "recolor i c' t = plug (Node l (i, c') r) qs" by (simp add: t recolor_plug)
  then show ?thesis using modify_color_tree [OF tr [unfolded t]] that by metis
qed

fun opposite :: "Child \<Rightarrow> Child" where
  "opposite ChildLeft = ChildRight"
| "opposite ChildRight = ChildLeft"

section \<open>What the loop body reads\<close>

text \<open>Parent, grandparent and uncle of the current node, for either side at either level.\<close>

lemma family:
  assumes tr: "tree_of self (plug (Node l (i, ci) r) ((d, (p, cp), s) # (e, (g, cg), u) # ps))"
  shows "nd_parent (mt_arena self ! i) = Some p" "nd_color (mt_arena self ! p) = cp"
    and "nd_parent (mt_arena self ! p) = Some g" "nd_color (mt_arena self ! g) = cg"
    and "nd_left (mt_arena self ! p) = Some i \<longleftrightarrow> d = ChildLeft"
    and "nd_left (mt_arena self ! g) = Some p \<longleftrightarrow> e = ChildLeft"
    and "uncle (mt_arena self ! i) (mt_arena self) = Some (root_idx u)"
    and "node_at self p = Some (mt_arena self ! p)" "node_at self g = Some (mt_arena self ! g)"
proof -
  let ?A = "mt_arena self" and ?x = "Node l (i, ci) r"
  obtain pl pr where P: "plug ?x [(d, (p, cp), s)] = Node pl (p, cp) pr"
    and pc: "(d = ChildLeft \<and> pl = ?x) \<or> (d = ChildRight \<and> pl = s)" by (cases d) auto
  have trp: "tree_of self (plug (Node pl (p, cp) pr) ((e, (g, cg), u) # ps))"
    using tr P by (cases d) auto
  obtain gl gr where G: "plug (Node pl (p, cp) pr) [(e, (g, cg), u)] = Node gl (g, cg) gr"
    and gc: "(e = ChildLeft \<and> gl = Node pl (p, cp) pr \<and> gr = u) \<or>
             (e = ChildRight \<and> gl = u \<and> gr = Node pl (p, cp) pr)" by (cases e) auto
  have trg: "tree_of self (plug (Node gl (g, cg) gr) ps)"
    using trp G by (cases e) auto
  note ni = tree_node [OF tr] and np = tree_node [OF trp] and ng = tree_node [OF trg]
  show "nd_parent (?A ! i) = Some p" "nd_color (?A ! p) = cp" "nd_parent (?A ! p) = Some g"
    "nd_color (?A ! g) = cg" "node_at self p = Some (?A ! p)" "node_at self g = Some (?A ! g)"
    using ni np ng by simp_all
  have "i \<notin> set (labels s)" "p \<notin> set (labels u)"
    using tr by (auto simp: tree_of_def distinct_labels_plug)
  then have out: "root_idx s \<noteq> Some i" "root_idx u \<noteq> Some p" using root_idx_in by blast+
  show "nd_left (?A ! p) = Some i \<longleftrightarrow> d = ChildLeft"
    using np pc out by auto
  show gleft: "nd_left (?A ! g) = Some p \<longleftrightarrow> e = ChildLeft"
    using ng gc out by auto
  show "uncle (?A ! i) ?A = Some (root_idx u)"
    using ni np ng gc gleft by (auto simp: uncle_def)
qed

section \<open>Case 1: the uncle is red\<close>

lemma red_uncle_step:
  assumes tr: "tree_of self (plug (Node l (i, Red) r) ((d, (p, Red), s) # (e, (g, Black), u) # ps))"
    and u: "u = Node ul (ui, Red) ur"
  obtains self' where "insert_fix_loop i self = insert_fix_loop g self'" "same_data self self'"
    "tree_of self' (plug (Node l (i, Red) r)
       ((d, (p, Black), s) # (e, (g, Red), Node ul (ui, Black) ur) # ps))"
proof -
  let ?T = "plug (Node l (i, Red) r) ((d, (p, Red), s) # (e, (g, Black), u) # ps)"
  have mem: "ui \<in> set (labels ?T)" "p \<in> set (labels ?T)" "g \<in> set (labels ?T)"
    by (cases d; cases e; simp add: u labels_plug)+
  have lab: "set (labels (recolor j c t)) = set (labels t)" for j c t
    by (induction t rule: no_red_red.induct) auto
  obtain s1 where s1: "modify ui (set_color Black) self = Some s1" "same_data self s1"
    "tree_of s1 (recolor ui Black ?T)" by (rule modify_color [OF tr mem(1)])
  obtain s2 where s2: "modify p (set_color Black) s1 = Some s2" "same_data s1 s2"
    "tree_of s2 (recolor p Black (recolor ui Black ?T))"
    by (rule modify_color [OF s1(3), of p]) (use mem lab in auto)
  obtain s3 where s3: "modify g (set_color Red) s2 = Some s3" "same_data s2 s3"
    "tree_of s3 (recolor g Red (recolor p Black (recolor ui Black ?T)))"
    by (rule modify_color [OF s2(3), of g]) (use mem lab in auto)
  have notin: "x \<notin> set (labels l)" "x \<notin> set (labels r)" "x \<notin> set (labels s)" "x \<notin> set (path_labels ps)"
    "x \<notin> set (labels ul)" "x \<notin> set (labels ur)" "i \<noteq> x" if "x \<in> {ui, p, g}" for x
    using that tr unfolding tree_of_def distinct_labels_plug by (auto simp: u)
  have neq: "ui \<noteq> p" "ui \<noteq> g" "p \<noteq> g" "p \<noteq> ui" "g \<noteq> ui" "g \<noteq> p"
    using tr unfolding tree_of_def distinct_labels_plug by (auto simp: u)
  have "recolor g Red (recolor p Black (recolor ui Black ?T)) =
      plug (Node l (i, Red) r) ((d, (p, Black), s) # (e, (g, Red), Node ul (ui, Black) ur) # ps)"
    by (simp add: u recolor_plug notin neq)
  moreover have "node_at self ui = Some (mt_arena self ! ui)" "nd_color (mt_arena self ! ui) = Red"
  proof -
    have "?T = plug (Node ul (ui, Red) ur)
        ((opposite e, (g, Black), plug (Node l (i, Red) r) [(d, (p, Red), s)]) # ps)"
      by (cases e; cases d) (simp_all add: u)
    then obtain qs where "?T = plug (Node ul (ui, Red) ur) qs" by blast
    with tree_node [of self ul ui Red ur qs] tr
    show "node_at self ui = Some (mt_arena self ! ui)" "nd_color (mt_arena self ! ui) = Red" by simp_all
  qed
  then have "insert_fix_loop i self = insert_fix_loop g s3"
    by (subst insert_fix_loop.simps)
      (simp add: family [OF tr] tree_node [OF tr] u s1(1) s2(1) s3(1))
  ultimately show ?thesis
    using s3(3) by (intro that [of s3] same_data_trans [OF same_data_trans [OF s1(2) s2(2)] s3(2)]) simp_all
qed

section \<open>Cases 3 and 2: the uncle is black\<close>

text \<open>The guard \<^verbatim>\<open>Some(u) if arena[u].color == Red\<close> fails for a black uncle and for a missing one.\<close>

lemma black_uncle:
  assumes tr: "tree_of self (plug x ((e, (g, cg), u) # ps))" and u: "root_color u = Black"
  shows "(case root_idx u of None \<Rightarrow> Some None
    | Some ui \<Rightarrow> do { un \<leftarrow> node_at self ui; Some (if nd_color un = Red then Some ui else None) }) = Some None"
proof (cases u rule: root_idx.cases)
  case 1
  then show ?thesis by simp
next
  case (2 ul ui c ur)
  have "plug x ((e, (g, cg), u) # ps) = plug (Node ul (ui, c) ur) ((opposite e, (g, cg), x) # ps)"
    by (cases e) (simp_all add: 2)
  with tree_node [of self ul ui c ur "(opposite e, (g, cg), x) # ps"] tr u 2 show ?thesis by simp
qed

definition rotated :: "Child \<Rightarrow> nat ctree \<Rightarrow> nat \<Rightarrow> nat ctree \<Rightarrow> nat \<Rightarrow> nat ctree \<Rightarrow> nat ctree" where
  "rotated d x p s g u =
     (case d of ChildLeft \<Rightarrow> Node x (p, Black) (Node s (g, Red) u)
              | ChildRight \<Rightarrow> Node (Node u (g, Red) s) (p, Black) x)"

lemma outer_step:
  assumes tr: "tree_of self (plug (Node l (i, Red) r) ((d, (p, Red), s) # (d, (g, Black), u) # ps))"
    and u: "root_color u = Black"
  obtains self' where "insert_fix_loop i self = Some self'" "same_data self self'"
    "tree_of self' (plug (rotated d (Node l (i, Red) r) p s g u) ps)"
proof -
  let ?x = "Node l (i, Red) r"
  let ?T = "plug ?x ((d, (p, Red), s) # (d, (g, Black), u) # ps)"
  have mem: "p \<in> set (labels ?T)" "g \<in> set (labels ?T)" by (cases d; simp add: labels_plug)+
  have lab: "set (labels (recolor j c t)) = set (labels t)" for j c t
    by (induction t rule: no_red_red.induct) auto
  obtain s1 where s1: "modify p (set_color Black) self = Some s1" "same_data self s1"
    "tree_of s1 (recolor p Black ?T)" by (rule modify_color [OF tr mem(1)])
  obtain s2 where s2: "modify g (set_color Red) s1 = Some s2" "same_data s1 s2"
    "tree_of s2 (recolor g Red (recolor p Black ?T))"
    by (rule modify_color [OF s1(3), of g]) (use mem lab in auto)
  have notin: "y \<notin> set (labels l)" "y \<notin> set (labels r)" "y \<notin> set (labels s)"
    "y \<notin> set (path_labels ps)" "y \<notin> set (labels u)" "i \<noteq> y" if "y \<in> {p, g}" for y
    using that tr unfolding tree_of_def distinct_labels_plug by auto
  have neq: "g \<noteq> p" "p \<noteq> g" using tr unfolding tree_of_def distinct_labels_plug by auto
  have "recolor g Red (recolor p Black ?T) = plug ?x ((d, (p, Black), s) # (d, (g, Red), u) # ps)"
    by (simp add: recolor_plug notin neq)
  with s2(3) have tr2: "tree_of s2 (plug ?x ((d, (p, Black), s) # (d, (g, Red), u) # ps))" by simp
  have bu: "(case root_idx u of None \<Rightarrow> Some None
    | Some ui \<Rightarrow> do { un \<leftarrow> node_at self ui; Some (if nd_color un = Red then Some ui else None) }) = Some None"
    by (rule black_uncle [of _ "plug ?x [(d, (p, Red), s)]" d g Black u ps, OF _ u]) (use tr in \<open>cases d; simp\<close>)
  note read = family [OF tr] tree_node [OF tr] s1(1) s2(1) insert_recolor_def derive_rotation_direction_def
    child_type_def derive_outer_rotation_def
  note sd = same_data_trans [OF s1(2) s2(2)]
  show ?thesis
  proof (cases d)
    case ChildLeft
    then have "tree_of s2 (plug (Node (Node ?x (p, Black) s) (g, Red) u) ps)" using tr2 by simp
    then obtain s3 where s3: "right_rotate g s2 = Some s3" "same_data s2 s3"
      "tree_of s3 (plug (Node ?x (p, Black) (Node s (g, Red) u)) ps)" by (rule right_rotate_tree)
    have "insert_fix_loop i self = Some s3"
      by (subst insert_fix_loop.simps) (simp add: read bu s3(1) ChildLeft)
    with s3 sd show ?thesis
      by (intro that [of s3]) (auto simp: rotated_def ChildLeft intro: same_data_trans)
  next
    case ChildRight
    then have "tree_of s2 (plug (Node u (g, Red) (Node s (p, Black) ?x)) ps)" using tr2 by simp
    then obtain s3 where s3: "left_rotate g s2 = Some s3" "same_data s2 s3"
      "tree_of s3 (plug (Node (Node u (g, Red) s) (p, Black) ?x) ps)" by (rule left_rotate_tree)
    have "insert_fix_loop i self = Some s3"
      by (subst insert_fix_loop.simps) (simp add: read bu s3(1) ChildRight)
    with s3 sd show ?thesis
      by (intro that [of s3]) (auto simp: rotated_def ChildRight intro: same_data_trans)
  qed
qed

text \<open>An inner child is turned into an outer one by rotating the parent.\<close>

definition straightened :: "Child \<Rightarrow> nat ctree \<Rightarrow> nat \<Rightarrow> nat ctree \<Rightarrow> nat ctree" where
  "straightened e l p s =
     (case e of ChildLeft \<Rightarrow> Node s (p, Red) l | ChildRight \<Rightarrow> Node l (p, Red) s)"

lemma inner_step:
  assumes tr: "tree_of self (plug (Node l (i, Red) r) ((d, (p, Red), s) # (e, (g, Black), u) # ps))"
    and u: "root_color u = Black" and d: "d = opposite e"
    and near: "near = (case e of ChildLeft \<Rightarrow> l | ChildRight \<Rightarrow> r)"
    and far: "far = (case e of ChildLeft \<Rightarrow> r | ChildRight \<Rightarrow> l)"
  obtains self' where "insert_fix_loop i self = insert_fix_loop p self'" "same_data self self'"
    "tree_of self' (plug (straightened e near p s) ((e, (i, Red), far) # (e, (g, Black), u) # ps))"
proof -
  let ?x = "Node l (i, Red) r"
  have bu: "(case root_idx u of None \<Rightarrow> Some None
    | Some ui \<Rightarrow> do { un \<leftarrow> node_at self ui; Some (if nd_color un = Red then Some ui else None) }) = Some None"
    by (rule black_uncle [of _ "plug ?x [(d, (p, Red), s)]" e g Black u ps, OF _ u])
      (use tr in \<open>cases d; simp\<close>)
  note read = family [OF tr] tree_node [OF tr] derive_rotation_direction_def child_type_def
    derive_inner_rotation_def
  show ?thesis
  proof (cases e)
    case ChildLeft
    then have "tree_of self (plug (Node s (p, Red) (Node l (i, Red) r)) ((ChildLeft, (g, Black), u) # ps))"
      using tr d by simp
    then obtain s1 where s1: "left_rotate p self = Some s1" "same_data self s1"
      "tree_of s1 (plug (Node (Node s (p, Red) l) (i, Red) r) ((ChildLeft, (g, Black), u) # ps))"
      by (rule left_rotate_tree)
    have "insert_fix_loop i self = insert_fix_loop p s1"
      by (subst insert_fix_loop.simps) (simp add: read bu s1(1) ChildLeft d)
    with s1 show ?thesis
      by (intro that [of s1]) (simp_all add: straightened_def ChildLeft near far)
  next
    case ChildRight
    then have "tree_of self (plug (Node (Node l (i, Red) r) (p, Red) s) ((ChildRight, (g, Black), u) # ps))"
      using tr d by simp
    then obtain s1 where s1: "right_rotate p self = Some s1" "same_data self s1"
      "tree_of s1 (plug (Node l (i, Red) (Node r (p, Red) s)) ((ChildRight, (g, Black), u) # ps))"
      by (rule right_rotate_tree)
    have "insert_fix_loop i self = insert_fix_loop p s1"
      by (subst insert_fix_loop.simps) (simp add: read bu s1(1) ChildRight d)
    with s1 show ?thesis
      by (intro that [of s1]) (simp_all add: straightened_def ChildRight near far)
  qed
qed

lemma outer_correct:
  assumes tr: "tree_of self (plug (Node l (i, Red) r) ps)" and ps: "ps = (d, (p, Red), s) # (d, (g, Black), u) # qs"
    and ok: "no_red_red (Node l (i, Red) r)" "uniform_black (Node l (i, Red) r)" "path_ok (black_height l) ps"
    and u: "root_color u = Black"
  shows "\<exists>self' T. insert_fix_loop i self = Some self' \<and> same_data self self' \<and> tree_of self' T \<and>
     labels T = labels (plug (Node l (i, Red) r) ps) \<and> no_red_red T \<and> uniform_black T"
proof -
  let ?x = "Node l (i, Red) r" and ?R = "rotated d (Node l (i, Red) r) p s g u"
  obtain self' where s: "insert_fix_loop i self = Some self'" "same_data self self'" "tree_of self' (plug ?R qs)"
    by (rule outer_step [OF tr [unfolded ps] u])
  have R: "no_red_red ?R" "uniform_black ?R" "path_ok (black_height ?R) qs" "root_color ?R = Black"
    and lab: "labels (plug ?R qs) = labels (plug ?x ps)"
    using ok u unfolding ps by (cases d; auto simp: rotated_def labels_plug)+
  from R path_ok_plug [of ?R qs] have "no_red_red (plug ?R qs)" "uniform_black (plug ?R qs)" by auto
  with s lab show ?thesis by blast
qed

section \<open>The whole loop\<close>

text \<open>Where the loop stops, and where it goes on: a red parent has a black grandparent.\<close>

lemma path_cases:
  assumes "path_ok n ps"
  obtains (root) "ps = []" | (black) d p s qs where "ps = (d, (p, Black), s) # qs"
    | (red) d p s e g u qs where "ps = (d, (p, Red), s) # (e, (g, Black), u) # qs"
proof (cases ps)
  case Nil
  then show ?thesis using root by simp
next
  case (Cons a qs)
  obtain d p cp s where a: "a = (d, (p, cp), s)" by (cases a) auto
  show ?thesis
  proof (cases cp)
    case Black
    then show ?thesis using black Cons a by simp
  next
    case Red
    with assms Cons a have "qs \<noteq> []" "path_color qs = Black" by auto
    then show ?thesis using red Cons a Red by (cases qs) auto
  qed
qed

lemma loop_stops:
  assumes tr: "tree_of self (plug (Node l (i, Red) r) ps)" and ps: "ps = [] \<or> (\<exists>d p s qs. ps = (d, (p, Black), s) # qs)"
  shows "insert_fix_loop i self = Some self"
proof (cases "ps = []")
  case True
  then show ?thesis by (subst insert_fix_loop.simps) (simp add: tree_node [OF tr])
next
  case False
  then obtain d p s qs where black: "ps = (d, (p, Black), s) # qs" using ps by blast
  let ?x = "Node l (i, Red) r"
  have "node_at self p = Some (mt_arena self ! p) \<and> nd_color (mt_arena self ! p) = Black"
    using tr black tree_node(1,3) [of self ?x p Black s qs] tree_node(1,3) [of self s p Black ?x qs]
    by (cases d) auto
  then show ?thesis by (subst insert_fix_loop.simps) (simp add: tree_node [OF tr] black)
qed

lemma inner_correct:
  assumes tr: "tree_of self (plug (Node l (i, Red) r) ps)" and red: "ps = (d, (p, Red), s) # (e, (g, Black), u) # qs"
    and ok: "no_red_red (Node l (i, Red) r)" "uniform_black (Node l (i, Red) r)" "path_ok (black_height l) ps"
    and black_u: "root_color u = Black" and d: "d = opposite e"
  shows "\<exists>self' T. insert_fix_loop i self = Some self' \<and> same_data self self' \<and> tree_of self' T \<and>
     labels T = labels (plug (Node l (i, Red) r) ps) \<and> no_red_red T \<and> uniform_black T"
proof -
  let ?x = "Node l (i, Red) r"
  note tr' = tr [unfolded red] and ok' = ok [unfolded red]
  define near where "near = (case e of ChildLeft \<Rightarrow> l | ChildRight \<Rightarrow> r)"
  define far where "far = (case e of ChildLeft \<Rightarrow> r | ChildRight \<Rightarrow> l)"
  obtain s1 where s1: "insert_fix_loop i self = insert_fix_loop p s1" "same_data self s1"
    "tree_of s1 (plug (straightened e near p s) ((e, (i, Red), far) # (e, (g, Black), u) # qs))"
    by (rule inner_step [OF tr' black_u d near_def far_def])
  obtain L R where L: "straightened e near p s = Node L (p, Red) R"
    and good: "no_red_red (Node L (p, Red) R)" "uniform_black (Node L (p, Red) R)"
      "path_ok (black_height L) ((e, (i, Red), far) # (e, (g, Black), u) # qs)"
    and lab: "labels (plug (Node L (p, Red) R) ((e, (i, Red), far) # (e, (g, Black), u) # qs)) = labels (plug ?x ps)"
  proof (cases e)
    case ChildLeft
    show ?thesis
      by (rule that [of s l]) (use ok' d in \<open>simp_all add: ChildLeft red straightened_def near_def far_def labels_plug\<close>)
  next
    case ChildRight
    show ?thesis
      by (rule that [of r s]) (use ok' d in \<open>simp_all add: ChildRight red straightened_def near_def far_def labels_plug\<close>)
  qed
  from outer_correct [OF s1(3) [unfolded L] refl good black_u] obtain self' T where
    fin: "insert_fix_loop p s1 = Some self'" "same_data s1 self'" "tree_of self' T"
    "labels T = labels (plug ?x ps)" "no_red_red T" "uniform_black T" unfolding lab by blast
  from s1(2) fin(2) have "same_data self self'" by (rule same_data_trans)
  with fin show ?thesis unfolding s1(1) by blast
qed

lemma insert_fix_loop_correct:
  "tree_of self (plug (Node l (i, Red) r) ps) \<Longrightarrow> no_red_red (Node l (i, Red) r) \<Longrightarrow>
   uniform_black (Node l (i, Red) r) \<Longrightarrow> path_ok (black_height l) ps \<Longrightarrow>
   \<exists>self' T. insert_fix_loop i self = Some self' \<and> same_data self self' \<and> tree_of self' T \<and>
     labels T = labels (plug (Node l (i, Red) r) ps) \<and> no_red_red T \<and> uniform_black T"
proof (induction "length ps" arbitrary: self l i r ps rule: less_induct)
  case less
  let ?x = "Node l (i, Red) r"
  note tr = less.prems(1) and ok = less.prems(2-4)
  from ok(3) show ?case
  proof (cases rule: path_cases)
    case root
    then show ?thesis using loop_stops [OF tr] tr ok by fastforce
  next
    case black
    have "no_red_red (plug ?x ps) \<and> uniform_black (plug ?x ps)" using path_ok_plug [of ?x ps] ok black by simp
    then show ?thesis using loop_stops [OF tr] black tr by fastforce
  next
    case (red d p s e g u qs)
    note tr' = tr [unfolded red] and ok' = ok [unfolded red]
    show ?thesis
    proof (cases "root_color u")
      case Red
      then obtain ul ui ur where u: "u = Node ul (ui, Red) ur" by (cases u rule: root_color.cases) auto
      obtain s1 where s1: "insert_fix_loop i self = insert_fix_loop g s1" "same_data self s1"
        "tree_of s1 (plug ?x ((d, (p, Black), s) # (e, (g, Red), Node ul (ui, Black) ur) # qs))"
        by (rule red_uncle_step [OF tr' u])
      obtain L R where X: "plug ?x [(d, (p, Black), s), (e, (g, Red), Node ul (ui, Black) ur)] = Node L (g, Red) R"
        and XX: "plug ?x ((d, (p, Black), s) # (e, (g, Red), Node ul (ui, Black) ur) # qs) = plug (Node L (g, Red) R) qs"
        and good: "no_red_red (Node L (g, Red) R)" "uniform_black (Node L (g, Red) R)" "path_ok (black_height L) qs"
        and lab: "labels (plug (Node L (g, Red) R) qs) = labels (plug ?x ps)"
        using ok' unfolding red by (cases d; cases e) (auto simp: u labels_plug)
      have "\<exists>self' T. insert_fix_loop g s1 = Some self' \<and> same_data s1 self' \<and> tree_of self' T \<and>
          labels T = labels (plug (Node L (g, Red) R) qs) \<and> no_red_red T \<and> uniform_black T"
        by (rule less.hyps) (use s1(3) good in \<open>simp_all add: red flip: XX\<close>)
      then show ?thesis using s1(1,2) lab same_data_trans by metis
    next
      case Black
      show ?thesis
      proof (cases "d = e")
        case True
        with outer_correct [OF tr _ ok Black] red show ?thesis by simp
      next
        case False
        then have "d = opposite e" by (cases d; cases e) simp_all
        then show ?thesis by (rule inner_correct [OF tr red ok Black])
      qed
    qed
  qed
qed

text \<open>
  \<^verbatim>\<open>insert_fix_tree\<close>: for a red node whose subtree obeys the rules, below a path that does, the result is
  a red-black tree with the same nodes in the same order.
\<close>

lemma insert_fix_tree_correct:
  assumes "tree_of self (plug (Node l (i, Red) r) ps)" "no_red_red (Node l (i, Red) r)"
    "uniform_black (Node l (i, Red) r)" "path_ok (black_height l) ps"
  obtains self' T where "insert_fix_tree i self = Some self'" "same_data self self'" "tree_of self' T"
    "labels T = labels (plug (Node l (i, Red) r) ps)" "red_black T"
proof -
  from insert_fix_loop_correct [OF assms] obtain s1 T where s1: "insert_fix_loop i self = Some s1"
    "same_data self s1" "tree_of s1 T" and lab: "labels T = labels (plug (Node l (i, Red) r) ps)"
    and ok: "no_red_red T" "uniform_black T" by blast
  from lab have "labels T \<noteq> []" by (simp add: labels_plug)
  then obtain a x c b where T: "T = Node a (x, c) b" by (cases T rule: root_color.cases) auto
  have root: "mt_root_node s1 = Some x" using s1(3) by (simp add: T tree_of_def)
  obtain s2 where s2: "modify x (set_color Black) s1 = Some s2" "same_data s1 s2" "tree_of s2 (plug (Node a (x, Black) b) [])"
    by (rule modify_color_tree [of s1 a x c b "[]"]) (use s1(3) T in simp_all)
  have "insert_fix_tree i self = Some s2" by (simp add: insert_fix_tree_def s1(1) root s2(1))
  moreover have "red_black (Node a (x, Black) b)" using ok by (simp add: T red_black_def)
  ultimately show ?thesis
    using that [of s2 "Node a (x, Black) b"] s1(2) s2 lab by (auto simp: T intro: same_data_trans)
qed

end
