(* ===== verification/Kv_Table.thy ===== *)
theory Kv_Table
  imports Record_Iter
begin

text \<open>
  The contract between the memtable and its clients (writing, log replay, recovery): a table of
  records seen as a finite map from keys to payloads, where the payload \<open>None\<close> is a tombstone.  The
  map is read off the blobs alone, because the blobs are what the log and the SSTables hold.
\<close>

type_synonym entry = "bytes \<times> bytes option"

text \<open>The key and payload a blob stands for on disk.\<close>

definition disk_entry :: "Record \<Rightarrow> entry option" where
  "disk_entry r = do {
     (ro, off) \<leftarrow> decode_disk_record (rec_blob r) 0;
     r' \<leftarrow> ro;
     k \<leftarrow> record_key r';
     p \<leftarrow> record_value r';
     Some (k, p)
   }"

lemma disk_entry_repr: "rec_repr r k p \<Longrightarrow> disk_entry r = Some (k, p)"
  using decode_disk_record_enc_blob [of k p "[]" "[]"] record_key_repr [OF rec_of_repr]
  by (simp add: disk_entry_def rec_repr_def rec_fits_def record_value_rec_of)

lemma enc_blob_inj:
  "enc_blob k p = enc_blob k' p' \<Longrightarrow> rec_fits k p \<Longrightarrow> k = k' \<and> p = p'"
  using disk_entry_repr [OF rec_of_repr, of k p] disk_entry_repr [OF rec_of_repr, of k' p']
  by (simp add: disk_entry_def rec_of_def rec_fits_def)

text \<open>
  An update may replace the payload \<open>q\<close> of key \<open>k\<close> by \<open>p\<close> unless the in-place rewrite of the blob
  would leave its bounds.
\<close>

definition may_replace :: "bytes \<Rightarrow> bytes option option \<Rightarrow> bytes option \<Rightarrow> bool" where
  "may_replace k old p \<longleftrightarrow>
     (case (old, p) of (Some q, Some v) \<Rightarrow> overwrite_ok k q v | _ \<Rightarrow> True)"

lemma may_replace_simps [simp]:
  "may_replace k None p" "may_replace k old None" "may_replace k (Some q) (Some v) = overwrite_ok k q v"
  by (simp_all add: may_replace_def split: option.split)

text \<open>Feeding a list of records to a table, one after the other; \<open>None\<close> is a panic.\<close>

primrec feed :: "(Record \<Rightarrow> 's \<Rightarrow> 's option) \<Rightarrow> Record list \<Rightarrow> 's \<Rightarrow> 's option" where
  "feed put [] s = Some s"
| "feed put (r # rs) s = do { s \<leftarrow> put r s; feed put rs s }"

text \<open>The last write of each key wins.\<close>

definition last_writes :: "entry list \<Rightarrow> bytes \<rightharpoonup> bytes option" where
  "last_writes kps = map_of (rev kps)"

lemma last_writes_simps [simp]:
  "last_writes [] = Map.empty"
  "last_writes (kps @ [(k, p)]) = (last_writes kps)(k \<mapsto> p)"
  by (simp_all add: last_writes_def)

lemma map_add_last_writes_Cons: "m ++ last_writes ((k, p) # kps) = m(k \<mapsto> p) ++ last_writes kps"
  by (rule ext) (simp add: last_writes_def map_add_def split: option.split)

lemma dom_last_writes: "dom (last_writes kps) = fst ` set kps"
  by (simp add: last_writes_def dom_map_of_conv_image_fst)

text \<open>Several tables, the newest first: the first one that knows the key decides.\<close>

primrec first_known :: "(bytes \<rightharpoonup> bytes option) list \<Rightarrow> bytes \<rightharpoonup> bytes option" where
  "first_known [] k = None"
| "first_known (m # ms) k = (case m k of None \<Rightarrow> first_known ms k | Some p \<Rightarrow> Some p)"

lemma first_known_append:
  "first_known (ms @ ns) k = (case first_known ms k of None \<Rightarrow> first_known ns k | Some p \<Rightarrow> Some p)"
  by (induction ms) (simp_all split: option.split)

lemma first_known_None: "first_known ms k = None \<longleftrightarrow> (\<forall>m \<in> set ms. m k = None)"
  by (induction ms) (simp_all split: option.split)

lemma first_known_SomeD: "first_known ms k = Some p \<Longrightarrow> \<exists>m \<in> set ms. m k = Some p"
  by (induction ms) (auto split: option.splits)

lemma first_known_insert:
  "first_known (m(k \<mapsto> p) # ms) = (first_known (m # ms))(k \<mapsto> p)"
  "first_known (Map.empty # ms) = first_known ms"
  by (rule ext, simp)+

locale kv_table =
  fixes inv :: "'s \<Rightarrow> bool"
    and view :: "'s \<Rightarrow> bytes \<rightharpoonup> bytes option"
    and admits :: "bytes \<Rightarrow> bytes option \<Rightarrow> 's \<Rightarrow> bool"
    and put :: "Record \<Rightarrow> 's \<Rightarrow> 's option"
  assumes put_admitted: "inv s \<Longrightarrow> rec_fits k p \<Longrightarrow> admits k p s \<Longrightarrow>
      \<exists>s'. put (rec_of k p) s = Some s' \<and> inv s' \<and> view s' = (view s)(k \<mapsto> p)"
    and put_refused: "inv s \<Longrightarrow> rec_fits k p \<Longrightarrow> \<not> admits k p s \<Longrightarrow> put (rec_of k p) s = None"
begin

lemma put_cases:
  assumes "inv s" "rec_fits k p"
  obtains (panic) "\<not> admits k p s" "put (rec_of k p) s = None"
    | (stored) s' where "admits k p s" "put (rec_of k p) s = Some s'" "inv s'" "view s' = (view s)(k \<mapsto> p)"
  using put_admitted [OF assms] put_refused [OF assms] by (cases "admits k p s") auto

text \<open>Whatever is replayed without a panic leaves the last write of each key over the old contents.\<close>

lemma feed_view:
  "inv s \<Longrightarrow> \<forall>(k, p) \<in> set kps. rec_fits k p \<Longrightarrow> feed put (recs_of kps) s = Some s' \<Longrightarrow>
   inv s' \<and> view s' = view s ++ last_writes kps"
proof (induction kps arbitrary: s)
  case Nil
  then show ?case by simp
next
  case (Cons kp kps)
  obtain k p where kp: "kp = (k, p)" by (cases kp)
  from Cons.prems have "inv s" "rec_fits k p" by (simp_all add: kp)
  then show ?case
  proof (cases rule: put_cases)
    case panic
    then show ?thesis using Cons.prems by (simp add: kp)
  next
    case (stored t)
    have "inv s' \<and> view s' = view t ++ last_writes kps"
      by (rule Cons.IH) (use stored Cons.prems in \<open>simp_all add: kp\<close>)
    then show ?thesis by (simp only: kp map_add_last_writes_Cons stored(4))
  qed
qed

text \<open>A replay of distinct keys, none of them present, goes through if room is all that is needed.\<close>

lemma feed_total:
  assumes room: "\<And>k p s s'. inv s \<Longrightarrow> rec_fits k p \<Longrightarrow> put (rec_of k p) s = Some s' \<Longrightarrow> Suc (room s') \<ge> room s"
    and ok: "\<And>k p s. inv s \<Longrightarrow> rec_fits k p \<Longrightarrow> 0 < room s \<Longrightarrow> view s k = None \<Longrightarrow> admits k p s"
  shows "inv s \<Longrightarrow> \<forall>(k, p) \<in> set kps. rec_fits k p \<Longrightarrow> distinct (map fst kps) \<Longrightarrow>
    dom (view s) \<inter> fst ` set kps = {} \<Longrightarrow> length kps \<le> room s \<Longrightarrow>
    \<exists>s'. feed put (recs_of kps) s = Some s'"
proof (induction kps arbitrary: s)
  case Nil
  then show ?case by simp
next
  case (Cons kp kps)
  obtain k p where kp: "kp = (k, p)" by (cases kp)
  from Cons.prems have s: "inv s" "rec_fits k p" "admits k p s"
    by (auto simp: kp intro!: ok)
  then obtain t where t: "put (rec_of k p) s = Some t" "inv t" "view t = (view s)(k \<mapsto> p)"
    using put_admitted by blast
  have "dom (view t) = insert k (dom (view s))" by (simp only: t(3) dom_fun_upd) simp
  then have "\<exists>s'. feed put (recs_of kps) t = Some s'"
    by (intro Cons.IH) (use Cons.prems t(2) room [OF s(1,2) t(1)] in \<open>simp_all add: kp\<close>)
  with t(1) show ?case by (simp add: kp)
qed

end

end
