(* ===== verification/Memtable.thy ===== *)
theory Memtable
  imports Arena_Insert Kv_Table
begin

text \<open>
  The memtable is an ordered dictionary: its invariant (a red-black tree, strictly sorted by key,
  whose nodes are exactly the slots of the arena and whose records are well formed), the two
  searches, and \<^verbatim>\<open>insert_node\<close> as an update of the abstract map.  The abstract map is the one that
  reaches the disk: it is read off the record blobs, which is what \<^verbatim>\<open>write_sstable\<close> writes.
\<close>

section \<open>Searching a tree sorted by key\<close>

text \<open>The pure search both pointer loops perform: a node, or the path to the empty place.\<close>

fun descend :: "(nat \<Rightarrow> bytes) \<Rightarrow> bytes \<Rightarrow> nat ctree \<Rightarrow> nat path \<Rightarrow> nat + nat path" where
  "descend K k Leaf ps = Inr ps"
| "descend K k (Node l (i, c) r) ps =
     (case cmp k (K i) of
        Equal \<Rightarrow> Inl i
      | Less \<Rightarrow> descend K k l ((ChildLeft, (i, c), r) # ps)
      | Greater \<Rightarrow> descend K k r ((ChildRight, (i, c), l) # ps))"

definition sorted_keys :: "(nat \<Rightarrow> bytes) \<Rightarrow> nat ctree \<Rightarrow> bool" where
  "sorted_keys K t \<longleftrightarrow> sorted_wrt (<) (map K (labels t))"

definition around :: "(nat \<Rightarrow> bytes) \<Rightarrow> bytes \<Rightarrow> nat path \<Rightarrow> bool" where
  "around K k ps \<longleftrightarrow> (\<forall>x \<in> fst ` set (before ps). K x < k) \<and> (\<forall>x \<in> fst ` set (after ps). k < K x)"

lemma around_simps [simp]:
  "around K k []"
  "around K k ((ChildLeft, (i, c), r) # ps) \<longleftrightarrow>
     k < K i \<and> (\<forall>x \<in> set (labels r). k < K x) \<and> around K k ps"
  "around K k ((ChildRight, (i, c), l) # ps) \<longleftrightarrow>
     K i < k \<and> (\<forall>x \<in> set (labels l). K x < k) \<and> around K k ps"
  by (auto simp: around_def labels_def)

lemma descend_found: "descend K k t ps = Inl j \<Longrightarrow> j \<in> set (labels t) \<and> K j = k"
proof (induction t arbitrary: ps rule: no_red_red.induct)
  case 1
  then show ?case by simp
next
  case (2 l i c r)
  then show ?case by (cases "cmp k (K i)") auto
qed

lemma descend_hole:
  "descend K k t ps = Inr qs \<Longrightarrow> sorted_keys K t \<Longrightarrow> around K k ps \<Longrightarrow>
   plug Leaf qs = plug t ps \<and> around K k qs"
proof (induction t arbitrary: ps rule: no_red_red.induct)
  case 1
  then show ?case by simp
next
  case (2 l i c r)
  from "2.prems"(2) have s: "sorted_keys K l" "sorted_keys K r" "\<forall>x \<in> set (labels l). K x < K i"
    "\<forall>x \<in> set (labels r). K i < K x"
    by (auto simp: sorted_keys_def sorted_wrt_append)
  show ?case
  proof (cases "cmp k (K i)")
    case Less
    then have "around K k ((ChildLeft, (i, c), r) # ps)" using "2.prems" s by (auto intro: less_trans)
    with "2.IH"(1) "2.prems" s Less show ?thesis by fastforce
  next
    case Equal
    then show ?thesis using "2.prems" by simp
  next
    case Greater
    then have "around K k ((ChildRight, (i, c), l) # ps)" using "2.prems" s by (auto intro: less_trans)
    with "2.IH"(2) "2.prems" s Greater show ?thesis by fastforce
  qed
qed

lemma descend_missing:
  assumes "descend K k t [] = Inr qs" and "sorted_keys K t"
  shows "k \<notin> K ` set (labels t)"
proof -
  from descend_hole [OF assms] have "plug Leaf qs = t" "around K k qs" by simp_all
  then have "labels t = map fst (before qs) @ map fst (after qs)" "around K k qs"
    using labels_plug [of Leaf qs] by simp_all
  then show ?thesis by (auto simp: around_def)
qed

text \<open>Both loops of the source run this search; in particular they end and touch only valid slots.\<close>

definition keyed :: "MemtableInner \<Rightarrow> (nat \<Rightarrow> bytes) \<Rightarrow> nat ctree \<Rightarrow> bool" where
  "keyed self K t \<longleftrightarrow> (\<forall>i \<in> set (labels t). node_key (mt_arena self ! i) = Some (K i))"

definition found_position :: "nat + nat path \<Rightarrow> InsertionPosition option" where
  "found_position s = (case s of Inl j \<Rightarrow> Some (ExistingNode j)
     | Inr [] \<Rightarrow> None | Inr ((d, (p, c), t) # ps) \<Rightarrow> Some (NewNode p d))"

lemma keyed_NodeD:
  "keyed self K (Node l (i, c) r) \<Longrightarrow>
     node_key (mt_arena self ! i) = Some (K i) \<and> keyed self K l \<and> keyed self K r"
  by (simp add: keyed_def)

lemma find_position_loop_descend:
  assumes k: "node_key nd = Some k"
  shows "tree_of self (plug t ps) \<Longrightarrow> keyed self K t \<Longrightarrow> root_idx t = Some i \<Longrightarrow>
    find_position_loop nd i self = found_position (descend K k t ps)"
proof (induction t arbitrary: i ps rule: no_red_red.induct)
  case 1
  then show ?case by simp
next
  case (2 l j c r)
  note kd = keyed_NodeD [OF "2.prems"(2)] and nd = tree_node [OF "2.prems"(1)]
  have i: "i = j" using "2.prems"(3) by simp
  show ?case
  proof (cases "cmp k (K j)")
    case Less
    then show ?thesis
      using "2.IH"(1) [of "(ChildLeft, (j, c), r) # ps"] "2.prems" kd i k
      by (subst find_position_loop.simps)
        (cases l rule: root_idx.cases; simp add: nd node_cmp_def found_position_def)
  next
    case Equal
    then show ?thesis
      using kd i k by (subst find_position_loop.simps) (simp add: nd node_cmp_def found_position_def)
  next
    case Greater
    then show ?thesis
      using "2.IH"(2) [of "(ChildRight, (j, c), l) # ps"] "2.prems" kd i k
      by (subst find_position_loop.simps)
        (cases r rule: root_idx.cases; simp add: nd node_cmp_def found_position_def)
  qed
qed

lemma get_search_loop_descend:
  "tree_of self (plug t ps) \<Longrightarrow> keyed self K t \<Longrightarrow> root_idx t = Some i \<Longrightarrow>
    get_search_loop k i self = Some (case descend K k t ps of Inl j \<Rightarrow> Some j | Inr _ \<Rightarrow> None)"
proof (induction t arbitrary: i ps rule: no_red_red.induct)
  case 1
  then show ?case by simp
next
  case (2 l j c r)
  note kd = keyed_NodeD [OF "2.prems"(2)] and nd = tree_node [OF "2.prems"(1)]
  have i: "i = j" using "2.prems"(3) by simp
  show ?case
  proof (cases "cmp k (K j)")
    case Less
    then show ?thesis
      using "2.IH"(1) [of "(ChildLeft, (j, c), r) # ps"] "2.prems" kd i
      by (subst get_search_loop.simps) (cases l rule: root_idx.cases; simp add: nd)
  next
    case Equal
    then show ?thesis using kd i by (subst get_search_loop.simps) (simp add: nd)
  next
    case Greater
    then show ?thesis
      using "2.IH"(2) [of "(ChildRight, (j, c), l) # ps"] "2.prems" kd i
      by (subst get_search_loop.simps) (cases r rule: root_idx.cases; simp add: nd)
  qed
qed

section \<open>The invariant\<close>

text \<open>
  \<open>mt_wf self T es\<close>: the arena is the red-black tree \<open>T\<close>, slot \<open>i\<close> holds the entry \<open>es ! i\<close>, and
  the keys increase strictly from left to right.
\<close>

definition mt_wf :: "MemtableInner \<Rightarrow> nat ctree \<Rightarrow> entry list \<Rightarrow> bool" where
  "mt_wf self T es \<longleftrightarrow>
     tree_of self T \<and> red_black T \<and> set (labels T) = {..<length (mt_arena self)} \<and>
     list_all2 (\<lambda>r (k, p). rec_repr r k p) (map nd_record (mt_arena self)) es \<and>
     sorted_keys (\<lambda>i. fst (es ! i)) T"

definition mt_inv :: "MemtableInner \<Rightarrow> bool" where
  "mt_inv self \<longleftrightarrow> (\<exists>T es. mt_wf self T es)"

text \<open>The contents of the table, as its blobs record them.\<close>

definition mt_entries :: "MemtableInner \<Rightarrow> entry list" where
  "mt_entries self = List.map_filter (\<lambda>nd. disk_entry (nd_record nd)) (mt_arena self)"

definition mt_view :: "MemtableInner \<Rightarrow> bytes \<rightharpoonup> bytes option" where
  "mt_view self = map_of (mt_entries self)"

lemma entries_of_repr:
  "list_all2 (\<lambda>r (k, p). rec_repr r k p) (map nd_record A) es \<Longrightarrow>
   List.map_filter (\<lambda>nd. disk_entry (nd_record nd)) A = es"
  by (induction A arbitrary: es)
    (auto simp: list_all2_Cons1 map_filter_simps disk_entry_repr)

lemma mt_wf_entries: "mt_wf self T es \<Longrightarrow> mt_entries self = es"
  by (simp add: mt_wf_def mt_entries_def entries_of_repr)

lemma mt_wf_view: "mt_wf self T es \<Longrightarrow> mt_view self = map_of es"
  by (simp add: mt_view_def mt_wf_entries)

lemma mt_wf_length: "mt_wf self T es \<Longrightarrow> length es = length (mt_arena self)"
  unfolding mt_wf_def by (elim conjE) (drule list_all2_lengthD, simp)

lemma mt_wf_labels: "mt_wf self T es \<Longrightarrow> set (labels T) = {..<length es}"
  using mt_wf_length [of self T es] by (simp add: mt_wf_def)

lemma mt_wf_record:
  assumes "mt_wf self T es" and "i < length es"
  shows "rec_repr (nd_record (mt_arena self ! i)) (fst (es ! i)) (snd (es ! i))"
proof -
  from assms(1) have "list_all2 (\<lambda>r (k, p). rec_repr r k p) (map nd_record (mt_arena self)) es"
    by (simp add: mt_wf_def)
  from list_all2_nthD2 [OF this assms(2)] show ?thesis
    using assms(2) mt_wf_length [OF assms(1)] by (simp add: case_prod_beta)
qed

lemma mt_wf_keyed: "mt_wf self T es \<Longrightarrow> keyed self (\<lambda>i. fst (es ! i)) T"
  using mt_wf_record [of self T es] mt_wf_labels [of self T es]
  by (auto simp: keyed_def node_key_def intro: record_key_repr)

lemma sorted_keys_distinct:
  assumes "sorted_keys (\<lambda>i. fst (es ! i)) T" and "set (labels T) = {..<length es}"
  shows "distinct (map fst es)"
proof -
  from assms(1) have "distinct (map (\<lambda>i. fst (es ! i)) (labels T))"
    by (simp add: sorted_keys_def strict_sorted_iff)
  then have "inj_on (\<lambda>i. fst (es ! i)) {..<length es}" by (simp add: distinct_map assms(2))
  then show ?thesis by (auto simp: distinct_conv_nth inj_on_def)
qed

lemma mt_wf_distinct: "mt_wf self T es \<Longrightarrow> distinct (map fst es)"
  using sorted_keys_distinct [of es T] mt_wf_labels [of self T es] by (simp add: mt_wf_def)

lemma mt_wf_tree: "mt_wf self T es \<Longrightarrow> tree_of self (plug T [])"
  by (simp add: mt_wf_def)

lemma mt_wf_root: "mt_wf self T es \<Longrightarrow> mt_root_node self = root_idx T"
  unfolding mt_wf_def tree_of_def by (elim conjE) (rule rep_root_idx)

lemma mt_wf_empty:
  assumes "mt_wf self T es"
  shows "mt_root_node self = None \<longleftrightarrow> es = []"
proof (cases T rule: root_idx.cases)
  case 1
  then show ?thesis using mt_wf_root [OF assms] mt_wf_labels [OF assms, symmetric] by (simp add: lessThan_empty_iff)
next
  case (2 l i c r)
  then have "i < length es" using mt_wf_labels [OF assms] by auto
  then show ?thesis using mt_wf_root [OF assms] 2 by auto
qed

lemma memtable_new_wf [simp]: "mt_wf (memtable_new max_size max_nodes wal) Leaf []"
  by (simp add: mt_wf_def memtable_new_def tree_of_def red_black_def sorted_keys_def)

text \<open>What a search finds.\<close>

lemma mt_wf_descend:
  assumes wf: "mt_wf self T es"
  shows "descend (\<lambda>i. fst (es ! i)) k T [] = Inl j \<Longrightarrow> j < length es \<and> fst (es ! j) = k \<and> map_of es k = Some (snd (es ! j))"
    and "descend (\<lambda>i. fst (es ! i)) k T [] = Inr qs \<Longrightarrow> map_of es k = None"
proof -
  note lab = mt_wf_labels [OF wf]
  show "j < length es \<and> fst (es ! j) = k \<and> map_of es k = Some (snd (es ! j))"
    if "descend (\<lambda>i. fst (es ! i)) k T [] = Inl j"
  proof -
    have j: "j < length es" "fst (es ! j) = k" using descend_found [OF that] lab by simp_all
    then have "(k, snd (es ! j)) \<in> set es" using nth_mem [of j es] by (cases "es ! j") simp
    then show ?thesis using j mt_wf_distinct [OF wf] by simp
  qed
  show "map_of es k = None" if "descend (\<lambda>i. fst (es ! i)) k T [] = Inr qs"
  proof -
    have "k \<notin> (\<lambda>i. fst (es ! i)) ` {..<length es}"
      using descend_missing [OF that] wf lab by (simp add: mt_wf_def)
    moreover have "fst ` set es = (\<lambda>i. fst (es ! i)) ` {..<length es}"
      by (force simp: set_conv_nth)
    ultimately show ?thesis by (simp add: map_of_eq_None_iff)
  qed
qed

lemma get_search_wf:
  assumes wf: "mt_wf self T es"
  shows "get_search k self = Some (case descend (\<lambda>i. fst (es ! i)) k T [] of Inl j \<Rightarrow> Some j | Inr _ \<Rightarrow> None)"
  using get_search_loop_descend [OF mt_wf_tree [OF wf] mt_wf_keyed [OF wf], of _ k] mt_wf_root [OF wf]
  by (cases T rule: root_idx.cases) (simp_all add: get_search_def)

section \<open>Insertion\<close>

lemma map_of_update_key:
  "distinct (map fst es) \<Longrightarrow> j < length es \<Longrightarrow> fst (es ! j) = k \<Longrightarrow>
   map_of (es[j := (k, p)]) = (map_of es)(k \<mapsto> p)"
proof (induction es arbitrary: j)
  case Nil
  then show ?case by simp
next
  case (Cons e es)
  then show ?case
    by (cases j; cases e) (auto simp: fun_upd_def fun_eq_iff dest: nth_mem)
qed

lemma list_update_fst_nth:
  "j < length es \<Longrightarrow> fst (es ! j) = k \<Longrightarrow> fst (es[j := (k, p)] ! i) = fst (es ! i)"
  by (cases "i = j"; cases "i < length es") auto

text \<open>Case 1: the empty tree.\<close>

lemma set_root_wf:
  assumes wf: "mt_wf self T es" and e: "es = []" and fits: "rec_fits k p"
  shows "mt_wf (set_root (new_from_record (rec_of k p)) (length (mt_arena self)) self)
     (Node Leaf (0, Black) Leaf) [(k, p)]"
  using mt_wf_length [OF wf] e rec_of_repr [OF fits]
  by (simp add: mt_wf_def set_root_def tree_of_def red_black_def sorted_keys_def new_from_record_def
      lessThan_Suc)

text \<open>Case 2: the key is present and its record is rewritten.\<close>

lemma tree_of_records:
  assumes "tree_of self T" and "map links A = map links (mt_arena self)"
  shows "tree_of (self\<lparr>mt_arena := A\<rparr>) T"
proof -
  have len: "length A = length (mt_arena self)" using assms(2) by (metis length_map)
  have "links (A ! i) = links (mt_arena self ! i)" if "i < length A" for i
    using that assms(2) len by (metis nth_map)
  then have "rep A None (mt_root_node self) T"
    using assms(1) len rep_index_bound by (auto simp: tree_of_def intro!: rep_frame [of "mt_arena self"])
  then show ?thesis using assms(1) by (simp add: tree_of_def)
qed

lemma update_wf:
  assumes wf: "mt_wf self T es" and j: "j < length es" "fst (es ! j) = k" and fits: "rec_fits k p"
    and upd: "update_from_record (nd_record (mt_arena self ! j)) (rec_of k p) = Some r"
  shows "update_data_from_node j (new_from_record (rec_of k p)) self =
           Some (self\<lparr>mt_arena := (mt_arena self)[j := nd_record_update (\<lambda>_. r) (mt_arena self ! j)]\<rparr>)"
    and "mt_wf (self\<lparr>mt_arena := (mt_arena self)[j := nd_record_update (\<lambda>_. r) (mt_arena self ! j)]\<rparr>)
           T (es[j := (k, p)])"
proof -
  let ?A = "(mt_arena self)[j := nd_record_update (\<lambda>_. r) (mt_arena self ! j)]"
  have len: "j < length (mt_arena self)" using j mt_wf_length [OF wf] by simp
  show "update_data_from_node j (new_from_record (rec_of k p)) self = Some (self\<lparr>mt_arena := ?A\<rparr>)"
    using len upd by (simp add: update_data_from_node_def node_at_def modify_def new_from_record_def)
  have "rec_repr r k p"
    using update_from_record_preserves_repr [OF _ fits upd] mt_wf_record [OF wf j(1)] j(2) by simp
  then have "list_all2 (\<lambda>r (k, p). rec_repr r k p) (map nd_record ?A) (es[j := (k, p)])"
    using wf by (auto simp: mt_wf_def map_update intro!: list_all2_update_cong)
  moreover have "map links ?A = map links (mt_arena self)"
    using list_update_map_same [of links "mt_arena self" j] by (simp add: map_update links_def)
  ultimately show "mt_wf (self\<lparr>mt_arena := ?A\<rparr>) T (es[j := (k, p)])"
    using wf tree_of_records [of self T ?A] j
    by (simp add: mt_wf_def list_update_fst_nth sorted_keys_def)
qed

text \<open>Case 3: a new red leaf below the place the search found, then \<^verbatim>\<open>insert_fix_tree\<close>.\<close>

definition append_entry :: "MemtableNode \<Rightarrow> MemtableInner \<Rightarrow> MemtableInner" where
  "append_entry nd self = self\<lparr>mt_current_size := mt_current_size self + record_size (nd_record nd),
     mt_arena := mt_arena self @ [nd]\<rparr>"

lemma red_leaf_path_ok:
  assumes "red_black (plug Leaf ps)"
  shows "path_ok 0 ps"
  using plug_path_ok [of Leaf ps] assms by (simp add: red_black_def)

lemma sorted_keys_insert:
  assumes "sorted_keys K (plug Leaf qs)" and "around K k qs" and "K n = k"
  shows "sorted_wrt (<) (map K (labels (plug (Node Leaf (n, c) Leaf) qs)))"
  using assms by (auto simp: sorted_keys_def labels_plug sorted_wrt_append around_def)

lemma new_leaf_wf:
  assumes wf: "mt_wf self T es" and fits: "rec_fits k p"
    and hole: "descend (\<lambda>i. fst (es ! i)) k T [] = Inr ((d, (q, c), s) # ps)"
    and nd: "nd = set_parent (Some q) (new_from_record (rec_of k p))" and n: "n = length (mt_arena self)"
    and upd: "f = (case d of ChildLeft \<Rightarrow> set_left (Some n) | ChildRight \<Rightarrow> set_right (Some n))"
  obtains s1 s2 T' where "modify q f self = Some s1" "mt_current_size s1 = mt_current_size self"
    "insert_fix_tree n (append_entry nd s1) = Some s2" "same_data (append_entry nd self) s2"
    "mt_wf s2 T' (es @ [(k, p)])"
proof -
  let ?K = "\<lambda>i. fst ((es @ [(k, p)]) ! i)"
  let ?qs = "(d, (q, c), s) # ps"
  have len: "length es = n" using mt_wf_length [OF wf] n by simp
  have sorted: "sorted_keys (\<lambda>i. fst (es ! i)) T" using wf by (simp add: mt_wf_def)
  note h = descend_hole [OF hole sorted]
  have T: "plug Leaf ?qs = T" and arnd: "around (\<lambda>i. fst (es ! i)) k ?qs" using h by simp_all
  obtain s1 where s1: "modify q f self = Some s1" "map nd_record (mt_arena s1) = map nd_record (mt_arena self)"
      "mt_wal s1 = mt_wal self" "mt_capacity s1 = mt_capacity self" "mt_max_size s1 = mt_max_size self"
      "mt_current_size s1 = mt_current_size self"
    and tr: "tree_of (s1\<lparr>mt_arena := mt_arena s1 @ [nd]\<rparr>) (plug (Node Leaf (n, Red) Leaf) ?qs)"
    using link_tree [of self d q c s ps nd f n] wf T upd n
    by (auto simp: nd new_from_record_def mt_wf_def)
  have tr': "tree_of (append_entry nd s1) (plug (Node Leaf (n, Red) Leaf) ?qs)"
    using tr by (simp add: append_entry_def tree_of_def)
  have ok: "path_ok (black_height Leaf) ?qs"
    using red_leaf_path_ok [of ?qs] wf T by (simp add: mt_wf_def)
  obtain s2 T' where s2: "insert_fix_tree n (append_entry nd s1) = Some s2"
      "same_data (append_entry nd s1) s2" "tree_of s2 T'" "red_black T'"
    and lab: "labels T' = labels (plug (Node Leaf (n, Red) Leaf) ?qs)"
    by (rule insert_fix_tree_correct [OF tr' _ _ ok]) simp_all
  have same: "same_data (append_entry nd self) s2"
    using s2(2) s1 by (simp add: same_data_def append_entry_def)
  have old: "set (map fst (before ?qs)) \<union> set (map fst (after ?qs)) = {..<n}"
    using mt_wf_labels [OF wf] T labels_plug [of Leaf ?qs] len by simp
  have labs: "set (labels T') = {..<Suc n}"
    using old by (auto simp: lab labels_plug lessThan_Suc)
  have agree: "?K i = fst (es ! i)" if "i < n" for i using that len by (simp add: nth_append)
  have "sorted_keys ?K (plug Leaf ?qs)"
  proof -
    have "map ?K (labels T) = map (\<lambda>i. fst (es ! i)) (labels T)"
      using mt_wf_labels [OF wf] len agree by (intro map_cong) simp_all
    then show ?thesis using sorted T by (simp add: sorted_keys_def del: map_eq_conv)
  qed
  moreover have "around ?K k ?qs"
    using arnd old agree unfolding around_def by (metis UnI1 UnI2 lessThan_iff set_map)
  moreover have "?K n = k" by (simp flip: len)
  ultimately have "sorted_keys ?K T'"
    using sorted_keys_insert [of ?K ?qs k n Red] by (simp add: sorted_keys_def lab)
  moreover have "length (mt_arena s2) = Suc n"
    using same_data_length [OF same] n by (simp add: append_entry_def)
  moreover have "list_all2 (\<lambda>r (k, p). rec_repr r k p) (map nd_record (mt_arena s2)) (es @ [(k, p)])"
    using same wf rec_of_repr [OF fits]
    by (simp add: same_data_def append_entry_def mt_wf_def nd new_from_record_def list_all2_appendI)
  ultimately have "mt_wf s2 T' (es @ [(k, p)])" using s2 labs by (simp add: mt_wf_def)
  with that s1 s2 same show thesis by blast
qed

text \<open>Together: \<^verbatim>\<open>insert_node\<close> on a key that is not in the table.\<close>

lemma insert_node_new:
  assumes wf: "mt_wf self T es" and fits: "rec_fits k p" and new: "map_of es k = None"
  obtains s' T' where "insert_node (new_from_record (rec_of k p)) self = Some s'"
    "mt_wf s' T' (es @ [(k, p)])" "map nd_record (mt_arena s') = map nd_record (mt_arena self) @ [rec_of k p]"
    "mt_wal s' = mt_wal self" "mt_capacity s' = mt_capacity self" "mt_max_size s' = mt_max_size self"
    "mt_current_size s' = mt_current_size self + (if es = [] then 0 else length (enc_blob k p))"
proof (cases "es = []")
  case True
  let ?s = "set_root (new_from_record (rec_of k p)) (length (mt_arena self)) self"
  have "insert_node (new_from_record (rec_of k p)) self = Some ?s"
    using mt_wf_empty [OF wf] True by (simp add: insert_node_def)
  moreover have "mt_wf ?s (Node Leaf (0, Black) Leaf) (es @ [(k, p)])"
    using set_root_wf [OF wf True fits] True by simp
  ultimately show thesis by (rule that) (simp_all add: set_root_def new_from_record_def True)
next
  case False
  let ?K = "\<lambda>i. fst (es ! i)" and ?node = "new_from_record (rec_of k p)" and ?n = "length (mt_arena self)"
  obtain root where root: "mt_root_node self = Some root" "root_idx T = Some root"
    using mt_wf_empty [OF wf] mt_wf_root [OF wf] False by auto
  obtain qs where hole: "descend ?K k T [] = Inr qs"
    using new mt_wf_descend(1) [OF wf] by (cases "descend ?K k T []") auto
  obtain l c r where T: "T = Node l (root, c) r" using root by (cases T rule: root_idx.cases) auto
  have "plug Leaf qs = T" using descend_hole [OF hole] wf by (simp add: mt_wf_def)
  then obtain d q cq s ps where qs: "qs = (d, (q, cq), s) # ps"
    using T by (cases qs) auto
  have key: "node_key ?node = Some k"
    using record_key_repr [OF rec_of_repr [OF fits]] by (simp add: node_key_def new_from_record_def)
  have pos: "find_insert_position ?node self = Some (NewNode q d)"
    using find_position_loop_descend [OF key mt_wf_tree [OF wf] mt_wf_keyed [OF wf] root(2)]
    by (simp add: find_insert_position_def root hole qs found_position_def)
  let ?f = "case d of ChildLeft \<Rightarrow> set_left (Some ?n) | ChildRight \<Rightarrow> set_right (Some ?n)"
  let ?nd = "set_parent (Some q) ?node"
  obtain s1 s2 T' where s: "modify q ?f self = Some s1" "mt_current_size s1 = mt_current_size self"
    "insert_fix_tree ?n (append_entry ?nd s1) = Some s2" "same_data (append_entry ?nd self) s2"
    "mt_wf s2 T' (es @ [(k, p)])"
    by (rule new_leaf_wf [OF wf fits hole [unfolded qs] refl refl refl])
  have "insert_node ?node self = Some s2"
    using s(1,3) by (cases d) (simp_all add: insert_node_def root pos Let_def append_entry_def)
  then show thesis
    by (rule that [OF _ s(5)])
      (use s(4) False in \<open>simp_all add: same_data_def append_entry_def new_from_record_def record_size_def rec_of_def\<close>)
qed

text \<open>On a key that is present the record of its node is updated in place.\<close>

lemma insert_node_existing:
  assumes wf: "mt_wf self T es" and fits: "rec_fits k p" and old: "map_of es k = Some q"
  obtains j where "j < length es" "es ! j = (k, q)" "rec_repr (nd_record (mt_arena self ! j)) k q"
    "insert_node (new_from_record (rec_of k p)) self =
       update_data_from_node j (new_from_record (rec_of k p)) self"
proof -
  let ?K = "\<lambda>i. fst (es ! i)" and ?node = "new_from_record (rec_of k p)"
  obtain j where hit: "descend ?K k T [] = Inl j"
    using old mt_wf_descend(2) [OF wf] by (cases "descend ?K k T []") auto
  from mt_wf_descend(1) [OF wf hit] old have j: "j < length es" "es ! j = (k, q)"
    by (cases "es ! j"; simp)+
  obtain root where root: "mt_root_node self = Some root" "root_idx T = Some root"
    using mt_wf_empty [OF wf] mt_wf_root [OF wf] j by auto
  have key: "node_key ?node = Some k"
    using record_key_repr [OF rec_of_repr [OF fits]] by (simp add: node_key_def new_from_record_def)
  have "find_insert_position ?node self = Some (ExistingNode j)"
    using find_position_loop_descend [OF key mt_wf_tree [OF wf] mt_wf_keyed [OF wf] root(2)]
    by (simp add: find_insert_position_def root hit found_position_def)
  then have "insert_node ?node self = update_data_from_node j ?node self"
    by (simp add: insert_node_def root)
  with that j mt_wf_record [OF wf j(1)] show thesis by simp
qed

section \<open>insert_node as a map update\<close>

lemma update_from_record_may_replace:
  assumes "rec_repr r k q" and "rec_fits k p"
  shows "update_from_record r (rec_of k p) = None \<longleftrightarrow> \<not> may_replace k (Some q) p"
  using update_from_record_repr [OF assms] by (auto split: option.splits)

text \<open>
  Within the invariant, \<^verbatim>\<open>insert_node\<close> returns unless it has to overwrite a record that cannot be
  rewritten in place; when it returns it has updated the map and kept the invariant.
\<close>

lemma insert_node_refines:
  assumes inv: "mt_inv self" and fits: "rec_fits k p"
  shows "may_replace k (mt_view self k) p \<Longrightarrow>
      \<exists>s'. insert_node (new_from_record (rec_of k p)) self = Some s' \<and> mt_inv s' \<and>
        mt_view s' = (mt_view self)(k \<mapsto> p)"
    and "\<not> may_replace k (mt_view self k) p \<Longrightarrow> insert_node (new_from_record (rec_of k p)) self = None"
proof -
  from inv obtain T es where wf: "mt_wf self T es" unfolding mt_inv_def by blast
  note v = mt_wf_view [OF wf]
  have "(may_replace k (mt_view self k) p \<longrightarrow>
      (\<exists>s'. insert_node (new_from_record (rec_of k p)) self = Some s' \<and> mt_inv s' \<and>
        mt_view s' = (mt_view self)(k \<mapsto> p))) \<and>
    (\<not> may_replace k (mt_view self k) p \<longrightarrow> insert_node (new_from_record (rec_of k p)) self = None)"
  proof (cases "map_of es k")
    case None
    obtain s' T' where s': "insert_node (new_from_record (rec_of k p)) self = Some s'"
      "mt_wf s' T' (es @ [(k, p)])"
      by (rule insert_node_new [OF wf fits None])
    have "mt_view s' = (mt_view self)(k \<mapsto> p)"
      using None by (auto simp: mt_wf_view [OF s'(2)] v fun_eq_iff map_add_def split: option.split)
    then show ?thesis using s' None v by (auto simp: mt_inv_def)
  next
    case (Some q)
    obtain j where j: "j < length es" "es ! j = (k, q)" "rec_repr (nd_record (mt_arena self ! j)) k q"
      and ins: "insert_node (new_from_record (rec_of k p)) self =
        update_data_from_node j (new_from_record (rec_of k p)) self"
      by (rule insert_node_existing [OF wf fits Some])
    show ?thesis
    proof (cases "update_from_record (nd_record (mt_arena self ! j)) (rec_of k p)")
      case None
      then have "insert_node (new_from_record (rec_of k p)) self = None"
        using ins j mt_wf_length [OF wf]
        by (simp add: update_data_from_node_def node_at_def new_from_record_def)
      then show ?thesis using None update_from_record_may_replace [OF j(3) fits] Some v by simp
    next
      case (Some r)
      have kj: "fst (es ! j) = k" using j by simp
      note u = update_wf [OF wf j(1) kj fits Some]
      have "mt_view (self\<lparr>mt_arena := (mt_arena self)[j := nd_record_update (\<lambda>_. r) (mt_arena self ! j)]\<rparr>)
          = (mt_view self)(k \<mapsto> p)"
        unfolding mt_wf_view [OF u(2)] v
        by (rule map_of_update_key [OF mt_wf_distinct [OF wf] j(1) kj])
      then show ?thesis
        using u ins Some update_from_record_may_replace [OF j(3) fits] \<open>map_of es k = Some q\<close> v
        by (auto simp: mt_inv_def)
    qed
  qed
  then show "may_replace k (mt_view self k) p \<Longrightarrow>
      \<exists>s'. insert_node (new_from_record (rec_of k p)) self = Some s' \<and> mt_inv s' \<and>
        mt_view s' = (mt_view self)(k \<mapsto> p)"
    and "\<not> may_replace k (mt_view self k) p \<Longrightarrow> insert_node (new_from_record (rec_of k p)) self = None"
    by simp_all
qed

interpretation memtable: kv_table mt_inv mt_view
  "\<lambda>k p self. may_replace k (mt_view self k) p" "\<lambda>r self. insert_node (new_from_record r) self"
  by unfold_locales (auto dest: insert_node_refines)

end
