(* ===== verification/Memtable_Api.thy ===== *)
theory Memtable_Api
  imports Memtable
begin

text \<open>
  What clients of the memtable see: \<^verbatim>\<open>get\<close>, \<^verbatim>\<open>insert_data_record\<close>, \<^verbatim>\<open>insert_tombstone_record\<close> and
  the wrapper \<^verbatim>\<open>Memtable\<close> of \<^verbatim>\<open>src/memtable/mod.rs\<close>.
\<close>

section \<open>memtable/mod.rs\<close>

text \<open>The lock around the table makes every call one step; what is left is the table and its limits.\<close>

record Memtable =
  mem_inner :: MemtableInner
  mem_max_size :: nat
  mem_max_nodes :: nat

text \<open>\<^verbatim>\<open>MemtableInner::new\<close>; \<open>w\<close> is the outcome of \<^verbatim>\<open>Wal::new\<close>.\<close>

definition memtable_inner_new :: "nat \<Rightarrow> nat \<Rightarrow> io_error + Wal \<Rightarrow> io_error + MemtableInner" where
  "memtable_inner_new max_size max_nodes w =
     (case w of Inl e \<Rightarrow> Inl e | Inr wal \<Rightarrow> Inr (memtable_new max_size max_nodes wal))"

definition Memtable_new :: "nat \<Rightarrow> nat \<Rightarrow> io_error + Wal \<Rightarrow> io_error + Memtable" where
  "Memtable_new max_size max_nodes w =
     (case memtable_inner_new max_size max_nodes w of
        Inl e \<Rightarrow> Inl e
      | Inr inner \<Rightarrow> Inr \<lparr>mem_inner = inner, mem_max_size = max_size, mem_max_nodes = max_nodes\<rparr>)"

definition Memtable_insert :: "Env \<Rightarrow> bytes \<Rightarrow> bytes \<Rightarrow> Memtable \<Rightarrow> (MemtableError + Memtable) option" where
  "Memtable_insert env key data self = do {
     r \<leftarrow> insert_data_record env key data (mem_inner self);
     Some (case r of Inl e \<Rightarrow> Inl e | Inr inner \<Rightarrow> Inr (self\<lparr>mem_inner := inner\<rparr>))
   }"

definition Memtable_get :: "bytes \<Rightarrow> Memtable \<Rightarrow> MemtableQuery option" where
  "Memtable_get key self = memtable_get key (mem_inner self)"

definition Memtable_delete :: "Env \<Rightarrow> bytes \<Rightarrow> Memtable \<Rightarrow> (MemtableError + Memtable) option" where
  "Memtable_delete env key self = do {
     r \<leftarrow> insert_tombstone_record env key (mem_inner self);
     Some (case r of Inl e \<Rightarrow> Inl e | Inr inner \<Rightarrow> Inr (self\<lparr>mem_inner := inner\<rparr>))
   }"

text \<open>\<^verbatim>\<open>rotate\<close> returns the full table and leaves a fresh one.\<close>

definition Memtable_rotate :: "io_error + Wal \<Rightarrow> Memtable \<Rightarrow> io_error + (MemtableInner \<times> Memtable)" where
  "Memtable_rotate w self =
     (case memtable_inner_new (mem_max_size self) (mem_max_nodes self) w of
        Inl e \<Rightarrow> Inl e
      | Inr fresh \<Rightarrow> Inr (mem_inner self, self\<lparr>mem_inner := fresh\<rparr>))"

section \<open>Lookup\<close>

definition query_of :: "bytes option option \<Rightarrow> MemtableQuery" where
  "query_of e = (case e of None \<Rightarrow> QNone | Some None \<Rightarrow> QTombstone | Some (Some v) \<Rightarrow> QData v)"

lemma query_of_simps [simp]:
  "query_of None = QNone" "query_of (Some None) = QTombstone" "query_of (Some (Some v)) = QData v"
  by (simp_all add: query_of_def)

text \<open>The record of key \<open>k\<close> (if any) has value offsets that match its blob.\<close>

definition coherent :: "bytes \<Rightarrow> MemtableInner \<Rightarrow> bool" where
  "coherent k self \<longleftrightarrow>
     (\<forall>r \<in> set (map nd_record (mt_arena self)). record_key r = Some k \<longrightarrow> (\<exists>p. r = rec_of k p))"

lemma get_search_view:
  assumes wf: "mt_wf self T es"
  shows "map_of es k = None \<Longrightarrow> memtable_get k self = Some QNone"
    and "map_of es k = Some p \<Longrightarrow> \<exists>j < length es. es ! j = (k, p) \<and> get_search k self = Some (Some j)"
proof -
  show "memtable_get k self = Some QNone" if "map_of es k = None"
    using get_search_wf [OF wf, of k] mt_wf_descend(1) [OF wf, of k] that
    by (auto simp: memtable_get_def split: sum.splits)
  show "\<exists>j < length es. es ! j = (k, p) \<and> get_search k self = Some (Some j)" if "map_of es k = Some p"
    using get_search_wf [OF wf, of k] mt_wf_descend [OF wf, where k = k] that
    by (cases "descend (\<lambda>i. fst (es ! i)) k T []") (auto intro!: exI prod_eqI)
qed

text \<open>A lookup reads the record of the key, through that record's own offsets.\<close>

definition read_record :: "Record \<Rightarrow> MemtableQuery option" where
  "read_record r = (case record_type r of
     Data \<Rightarrow> do { val \<leftarrow> copy_value r; data \<leftarrow> val; Some (QData data) }
   | Tombstone \<Rightarrow> Some QTombstone)"

lemma read_record_rec_of: "read_record (rec_of k p) = Some (query_of (Some p))"
  by (cases p) (simp_all add: read_record_def record_type_rec_of record_value_rec_of)

lemma memtable_get_record:
  assumes wf: "mt_wf self T es" and j: "j < length es" "es ! j = (k, p)"
  shows "memtable_get k self = read_record (nd_record (mt_arena self ! j))"
proof -
  have "map_of es k = Some p" using j mt_wf_distinct [OF wf] nth_mem [OF j(1)] by simp
  then obtain i where i: "i < length es" "es ! i = (k, p)" "get_search k self = Some (Some i)"
    using get_search_view(2) [OF wf] by blast
  have "i = j" using i j mt_wf_distinct [OF wf] nth_eq_iff_index_eq [of "map fst es" i j] by simp
  then show ?thesis
    using i mt_wf_length [OF wf] by (simp add: memtable_get_def read_record_def node_at_def cong: RecordType.case_cong)
qed

lemma coherent_record:
  assumes "coherent k self" "j < length (mt_arena self)" "rec_repr (nd_record (mt_arena self ! j)) k q"
  shows "nd_record (mt_arena self ! j) = rec_of k q"
proof -
  let ?r = "nd_record (mt_arena self ! j)"
  have "?r \<in> set (map nd_record (mt_arena self))" using assms(2) by simp
  then obtain q' where q': "?r = rec_of k q'"
    using assms(1) record_key_repr [OF assms(3)] unfolding coherent_def by blast
  have "enc_blob k q = enc_blob k q'" "rec_fits k q"
    using assms(3) q' by (simp_all add: rec_repr_def rec_of_def)
  from enc_blob_inj [OF this] show ?thesis using q' by simp
qed

lemma memtable_get_view:
  assumes inv: "mt_inv self" and co: "coherent k self"
  shows "memtable_get k self = Some (query_of (mt_view self k))"
proof -
  from inv obtain T es where wf: "mt_wf self T es" unfolding mt_inv_def by blast
  show ?thesis
  proof (cases "map_of es k")
    case None
    then show ?thesis using get_search_view(1) [OF wf] mt_wf_view [OF wf] by simp
  next
    case (Some p)
    obtain j where j: "j < length es" "es ! j = (k, p)" using get_search_view(2) [OF wf Some] by blast
    have "nd_record (mt_arena self ! j) = rec_of k p"
      using coherent_record [OF co] mt_wf_record [OF wf j(1)] mt_wf_length [OF wf] j by simp
    then show ?thesis
      using memtable_get_record [OF wf j] Some mt_wf_view [OF wf] by (simp add: read_record_rec_of)
  qed
qed

section \<open>What an update does to the records\<close>

text \<open>
  A write leaves the offsets of its key in agreement with the blob when the key is new, when it
  deletes, or when the value replaced has the same length.
\<close>

definition clean_write :: "bytes option option \<Rightarrow> bytes option \<Rightarrow> bool" where
  "clean_write old p \<longleftrightarrow>
     (case (old, p) of
        (Some (Some w), Some v) \<Rightarrow> length v = length w
      | (Some None, Some v) \<Rightarrow> False
      | _ \<Rightarrow> True)"

lemma clean_write_simps [simp]:
  "clean_write None p" "clean_write old None"
  "clean_write (Some (Some w)) (Some v) \<longleftrightarrow> length v = length w" "\<not> clean_write (Some None) (Some v)"
  by (simp_all add: clean_write_def split: option.split)

lemma clean_write_may_replace: "clean_write old p \<Longrightarrow> may_replace k old p"
  by (auto simp: clean_write_def may_replace_def overwrite_ok_same_length split: option.splits)

text \<open>The records after an insertion, in terms of the records before.\<close>

lemma insert_node_cases:
  assumes inv: "mt_inv self" and fits: "rec_fits k p"
    and ins: "insert_node (new_from_record (rec_of k p)) self = Some s'"
  obtains (new) "mt_view self k = None"
      "map nd_record (mt_arena s') = map nd_record (mt_arena self) @ [rec_of k p]"
    | (update) j q r where "mt_view self k = Some q" "j < length (mt_arena self)"
      "rec_repr (nd_record (mt_arena self ! j)) k q" "rec_repr r k p"
      "update_from_record (nd_record (mt_arena self ! j)) (rec_of k p) = Some r"
      "map nd_record (mt_arena s') = (map nd_record (mt_arena self))[j := r]"
      "memtable_get k s' = read_record r"
proof -
  from inv obtain T es where wf: "mt_wf self T es" unfolding mt_inv_def by blast
  note v = mt_wf_view [OF wf]
  show thesis
  proof (cases "map_of es k")
    case None
    obtain s2 T' where "insert_node (new_from_record (rec_of k p)) self = Some s2"
      "map nd_record (mt_arena s2) = map nd_record (mt_arena self) @ [rec_of k p]"
      by (rule insert_node_new [OF wf fits None])
    then show thesis using new ins None v by simp
  next
    case (Some q)
    obtain j where j: "j < length es" "es ! j = (k, q)" "rec_repr (nd_record (mt_arena self ! j)) k q"
      "insert_node (new_from_record (rec_of k p)) self =
         update_data_from_node j (new_from_record (rec_of k p)) self"
      by (rule insert_node_existing [OF wf fits Some])
    have len: "j < length (mt_arena self)" using j(1) mt_wf_length [OF wf] by simp
    have "update_data_from_node j (new_from_record (rec_of k p)) self = Some s'" using ins j(4) by simp
    then obtain r where r: "update_from_record (nd_record (mt_arena self ! j)) (rec_of k p) = Some r"
      using len by (auto simp: update_data_from_node_def node_at_def new_from_record_def bind_eq_Some_conv)
    have kj: "fst (es ! j) = k" using j by simp
    note u = update_wf [OF wf j(1) kj fits r]
    have s': "s' = self\<lparr>mt_arena := (mt_arena self)[j := nd_record_update (\<lambda>_. r) (mt_arena self ! j)]\<rparr>"
      using u(1) j(4) ins by simp
    have jj: "j < length (es[j := (k, p)])" "es[j := (k, p)] ! j = (k, p)" using j(1) by simp_all
    have "memtable_get k s' = read_record r"
      using memtable_get_record [OF u(2) jj] len by (simp add: s')
    moreover have "map nd_record (mt_arena s') = (map nd_record (mt_arena self))[j := r]"
      by (simp add: s' map_update)
    ultimately show thesis
      using update [of q j r] Some v len j(3) r update_from_record_preserves_repr [OF j(3) fits r] by simp
  qed
qed

lemma insert_node_length:
  assumes inv: "mt_inv self" and fits: "rec_fits k p"
    and ins: "insert_node (new_from_record (rec_of k p)) self = Some s'"
  shows "length (mt_arena s') \<le> Suc (length (mt_arena self)) \<and> mt_capacity s' = mt_capacity self"
proof -
  from inv obtain T es where wf: "mt_wf self T es" unfolding mt_inv_def by blast
  show ?thesis
  proof (cases "map_of es k")
    case None
    obtain s2 T' where s2: "insert_node (new_from_record (rec_of k p)) self = Some s2" "mt_capacity s2 = mt_capacity self"
      "map nd_record (mt_arena s2) = map nd_record (mt_arena self) @ [rec_of k p]"
      by (rule insert_node_new [OF wf fits None])
    from arg_cong [OF s2(3), of length] show ?thesis using s2(1,2) ins by simp
  next
    case (Some q)
    obtain j where "insert_node (new_from_record (rec_of k p)) self =
        update_data_from_node j (new_from_record (rec_of k p)) self"
      by (rule insert_node_existing [OF wf fits Some])
    then have "update_data_from_node j (new_from_record (rec_of k p)) self = Some s'" using ins by simp
    then show ?thesis by (auto simp: update_data_from_node_def modify_def bind_eq_Some_conv)
  qed
qed

lemma record_in_update:
  "j < length xs \<Longrightarrow> x \<in> set (xs[j := r]) \<Longrightarrow> x = r \<or> x \<in> set xs"
  by (auto dest: set_update_subset_insert [THEN subsetD])

lemma insert_node_coherent_other:
  assumes "mt_inv self" "rec_fits k p" "insert_node (new_from_record (rec_of k p)) self = Some s'"
    and "k' \<noteq> k" "coherent k' self"
  shows "coherent k' s'"
  using assms(1-3)
proof (cases rule: insert_node_cases)
  case new
  then show ?thesis
    using assms(4,5) record_key_repr [OF rec_of_repr [OF assms(2)]] by (auto simp: coherent_def)
next
  case (update j q r)
  show ?thesis
    unfolding coherent_def update(6)
  proof (intro ballI impI)
    fix x
    assume "x \<in> set ((map nd_record (mt_arena self))[j := r])" "record_key x = Some k'"
    then have "x \<in> set (map nd_record (mt_arena self))"
      using record_in_update [of j "map nd_record (mt_arena self)" x r] update(2)
        record_key_repr [OF update(4)] assms(4) by auto
    with \<open>record_key x = Some k'\<close> show "\<exists>p. x = rec_of k' p"
      using assms(5) unfolding coherent_def by blast
  qed
qed

text \<open>A clean write of a key that reads correctly leaves a key that reads correctly.\<close>

lemma insert_node_coherent_self:
  assumes "mt_inv self" "rec_fits k p" "insert_node (new_from_record (rec_of k p)) self = Some s'"
    and clean: "clean_write (mt_view self k) p" and co: "coherent k self"
  shows "coherent k s'"
  using assms(1-3)
proof (cases rule: insert_node_cases)
  case new
  then show ?thesis using co by (auto simp: coherent_def)
next
  case (update j q r)
  let ?old = "nd_record (mt_arena self ! j)"
  have old: "?old = rec_of k q" and "rec_fits k q"
    using coherent_record [OF co update(2,3)] update(3) by (simp_all add: rec_repr_def)
  have "r = rec_of k p"
  proof (cases p)
    case None
    then show ?thesis using update_from_record_repr [OF update(3) assms(2)] update(5) by simp
  next
    case (Some v)
    then obtain w where w: "q = Some w" "length v = length w"
      using clean update(1) by (cases q) simp_all
    then show ?thesis using update_same_length [of k w v] \<open>rec_fits k q\<close> update(5) old Some by simp
  qed
  then show ?thesis
    unfolding coherent_def update(6)
    using co record_in_update [of j "map nd_record (mt_arena self)" _ r] update(2)
    unfolding coherent_def by (metis length_map)
qed

section \<open>The public write operations\<close>

lemma new_data_node_rec_of: "rec_fits k (Some v) \<Longrightarrow> new_data_node k v = Some (new_from_record (rec_of k (Some v)))"
  by (simp add: new_data_node_def new_data_record_def encode_data_record_rec_of new_from_record_def)

lemma new_tombstone_node_rec_of: "rec_fits k None \<Longrightarrow> new_tombstone_node k = Some (new_from_record (rec_of k None))"
  by (simp add: new_tombstone_node_def new_tombstone_record_def encode_tombstone_record_rec_of new_from_record_def)

text \<open>Both writes are one operation on a key and a payload.\<close>

definition write_entry :: "Env \<Rightarrow> bytes \<Rightarrow> bytes option \<Rightarrow> MemtableInner \<Rightarrow> (MemtableError + MemtableInner) option" where
  "write_entry env k p self =
     (case p of Some v \<Rightarrow> insert_data_record env k v self | None \<Rightarrow> insert_tombstone_record env k self)"

lemma write_entry_unfold:
  assumes "rec_fits k p"
  shows "write_entry env k p self =
    (if full self then Some (Inl (TableFull k p))
     else map_option Inr
       (insert_node (new_from_record (rec_of k p)) (self\<lparr>mt_wal := write_log env (enc_blob k p) (mt_wal self)\<rparr>)))"
proof -
  have blob: "rec_blob (nd_record (new_from_record (rec_of k p))) = enc_blob k p"
    by (simp add: new_from_record_def rec_of_def)
  show ?thesis
    using assms blob
    by (cases p)
      (simp_all add: write_entry_def insert_data_record_def insert_tombstone_record_def
        new_data_node_rec_of new_tombstone_node_rec_of Let_def map_option_bind bind_map_option comp_def
        map_conv_bind_option)
qed

lemma mt_wf_wal [simp]: "mt_wf (self\<lparr>mt_wal := w\<rparr>) T es = mt_wf self T es"
  by (simp add: mt_wf_def tree_of_def)

lemma mt_wal_simps [simp]:
  "mt_inv (self\<lparr>mt_wal := w\<rparr>) = mt_inv self" "mt_view (self\<lparr>mt_wal := w\<rparr>) = mt_view self"
  "coherent k (self\<lparr>mt_wal := w\<rparr>) = coherent k self"
  by (simp_all add: mt_inv_def mt_view_def mt_entries_def coherent_def)

lemma write_entry_full: "full self \<Longrightarrow> write_entry env k p self = Some (Inl (TableFull k p))"
  by (cases p) (simp_all add: write_entry_def insert_data_record_def insert_tombstone_record_def)

lemma write_entry_stored:
  assumes "mt_inv self" "rec_fits k p" "\<not> full self" "may_replace k (mt_view self k) p"
  obtains s' where "write_entry env k p self = Some (Inr s')" "mt_inv s'" "mt_view s' = (mt_view self)(k \<mapsto> p)"
    "insert_node (new_from_record (rec_of k p)) (self\<lparr>mt_wal := write_log env (enc_blob k p) (mt_wal self)\<rparr>) = Some s'"
  using memtable.put_admitted [of "self\<lparr>mt_wal := write_log env (enc_blob k p) (mt_wal self)\<rparr>" k p] assms
  by (auto simp: write_entry_unfold)

lemma memtable_new_simps [simp]:
  "mt_inv (memtable_new max_size max_nodes wal)" "mt_view (memtable_new max_size max_nodes wal) = Map.empty"
  "coherent k (memtable_new max_size max_nodes wal)"
  using memtable_new_wf [of max_size max_nodes wal] mt_wf_view [OF memtable_new_wf, of max_size max_nodes wal]
  by (auto simp: mt_inv_def coherent_def memtable_new_def simp del: memtable_new_wf)

lemma one_entry_table:
  assumes "rec_fits k p"
  obtains self where "mt_inv self" "coherent k self" "mt_view self = [k \<mapsto> p]"
proof -
  let ?t = "memtable_new 0 0 (wal_new 0 [])"
  obtain s where s: "insert_node (new_from_record (rec_of k p)) ?t = Some s" "mt_inv s" "mt_view s = [k \<mapsto> p]"
    using memtable.put_admitted [of ?t k p] assms by auto
  from insert_node_coherent_self [OF _ assms s(1)] have "coherent k s" by simp
  with that s show thesis by blast
qed

text \<open>The arena has one slot per key.\<close>

lemma mt_inv_size:
  assumes "mt_inv self"
  shows "card (dom (mt_view self)) = length (mt_arena self)"
proof -
  from assms obtain T es where wf: "mt_wf self T es" unfolding mt_inv_def by blast
  have "card (dom (map_of es)) = length es"
    using mt_wf_distinct [OF wf] by (simp add: dom_map_of_conv_image_fst distinct_card flip: set_map)
  then show ?thesis using mt_wf_view [OF wf] mt_wf_length [OF wf] by simp
qed

end
