(* ===== verification/Wal_Recovery.thy ===== *)
theory Wal_Recovery
  imports Memtable_Api
begin

text \<open>
  Crash recovery: \<^verbatim>\<open>MemtableInner::from_wal\<close> replays a log into a fresh table.  The tree operations
  never look at the log, so replaying the log of a table repeats its insertions exactly.
\<close>

section \<open>Replay\<close>

text \<open>
  The environment of \<^verbatim>\<open>from_wal\<close>: the outcome of opening and mapping the old log, of creating the
  new one, and of removing the old one.
\<close>

record RecoverEnv =
  re_file :: "io_error + bytes"
  re_new_wal :: "io_error + Wal"
  re_remove :: "io_error + unit"

text \<open>\<^verbatim>\<open>for record in wal_iter\<close>.\<close>

partial_function (option) replay_loop :: "WalIterator \<Rightarrow> MemtableInner \<Rightarrow> MemtableInner option" where
  "replay_loop it table = do {
     (r, it) \<leftarrow> wal_next it;
     case r of
       None \<Rightarrow> Some table
     | Some r \<Rightarrow> do {
         table \<leftarrow> insert_record_from_wal r table;
         replay_loop it table
       }
   }"

text \<open>The second component tells whether the old log has been deleted.\<close>

definition from_wal :: "RecoverEnv \<Rightarrow> nat \<Rightarrow> nat \<Rightarrow> ((io_error + MemtableInner) \<times> bool) option" where
  "from_wal env max_size max_nodes =
     (case re_file env of
        Inl e \<Rightarrow> Some (Inl e, False)
      | Inr contents \<Rightarrow>
          (case memtable_inner_new max_size max_nodes (re_new_wal env) of
             Inl e \<Rightarrow> Some (Inl e, False)
           | Inr table \<Rightarrow> do {
               table \<leftarrow> replay_loop (wal_iterator_new contents) table;
               Some (case re_remove env of Inl e \<Rightarrow> (Inl e, False) | Inr _ \<Rightarrow> (Inr table, True))
             }))"

definition Memtable_new_from_wal :: "RecoverEnv \<Rightarrow> nat \<Rightarrow> nat \<Rightarrow> (io_error + Memtable) option" where
  "Memtable_new_from_wal env max_size max_nodes = do {
     (r, removed) \<leftarrow> from_wal env max_size max_nodes;
     Some (case r of
       Inl e \<Rightarrow> Inl e
     | Inr inner \<Rightarrow> Inr \<lparr>mem_inner = inner, mem_max_size = max_size, mem_max_nodes = max_nodes\<rparr>)
   }"

lemma replay_loop_feed:
  "yields wal_next it rs \<Longrightarrow> replay_loop it table = feed insert_record_from_wal rs table"
proof (induction arbitrary: table rule: yields.induct)
  case (stop it it')
  then show ?case by (subst replay_loop.simps) simp
next
  case (more it r it' rs)
  then show ?case by (subst replay_loop.simps) (simp cong: bind_option_cong)
qed

lemma replay_log:
  assumes "length (enc_blobs kps) < 2 ^ 63"
  shows "replay_loop (wal_iterator_new (enc_blobs kps)) table = feed insert_record_from_wal (recs_of kps) table"
  by (rule replay_loop_feed, rule wal_iter.yields_enc_blobs [of _ "[]"])
    (use assms in \<open>simp_all add: wal_iterator_new_def\<close>)

interpretation wal_replay: kv_table mt_inv mt_view
  "\<lambda>k p self. \<not> full self \<and> may_replace k (mt_view self k) p" insert_record_from_wal
  by unfold_locales (auto simp: insert_record_from_wal_def dest: memtable.put_admitted memtable.put_refused)

section \<open>The tree operations ignore the log\<close>

abbreviation with_wal :: "Wal \<Rightarrow> MemtableInner \<Rightarrow> MemtableInner" where
  "with_wal w \<equiv> mt_wal_update (\<lambda>_. w)"

text \<open>
  \<open>simulates w m m'\<close>: whenever the computation \<open>m\<close> returns a table, \<open>m'\<close> returns the same table
  with the log \<open>w\<close>.  The rules follow the code: reads agree, writes agree up to the log.
\<close>

definition simulates :: "Wal \<Rightarrow> MemtableInner option \<Rightarrow> MemtableInner option \<Rightarrow> bool" where
  "simulates w m m' \<longleftrightarrow> (\<forall>s. m = Some s \<longrightarrow> m' = Some (with_wal w s))"

named_theorems sim_intros

lemma sim_return [sim_intros]: "s' = with_wal w s \<Longrightarrow> simulates w (Some s) (Some s')"
  by (simp add: simulates_def)

lemma sim_seq [sim_intros]:
  "simulates w m m' \<Longrightarrow> (\<And>s. simulates w (g s) (g' (with_wal w s))) \<Longrightarrow> simulates w (m \<bind> g) (m' \<bind> g')"
  by (cases m) (auto simp: simulates_def)

lemma sim_read [sim_intros]:
  "m' = m \<Longrightarrow> (\<And>x. simulates w (g x) (g' x)) \<Longrightarrow> simulates w (m \<bind> g) (m' \<bind> g')"
  by (cases m) (auto simp: simulates_def)

lemma sim_case_option [sim_intros]:
  "simulates w a a' \<Longrightarrow> (\<And>y. simulates w (b y) (b' y)) \<Longrightarrow>
   simulates w (case x of None \<Rightarrow> a | Some y \<Rightarrow> b y) (case x of None \<Rightarrow> a' | Some y \<Rightarrow> b' y)"
  by (cases x) auto

lemma sim_case_rotation [sim_intros]:
  "(\<And>d. simulates w (a d) (a' d)) \<Longrightarrow> (\<And>d. simulates w (b d) (b' d)) \<Longrightarrow>
   simulates w (case x of (Inner, d) \<Rightarrow> a d | (Outer, d) \<Rightarrow> b d) (case x of (Inner, d) \<Rightarrow> a' d | (Outer, d) \<Rightarrow> b' d)"
  by (cases x; cases "fst x") auto

lemma sim_case_direction [sim_intros]:
  "simulates w a a' \<Longrightarrow> simulates w b b' \<Longrightarrow>
   simulates w (case d of RotLeft \<Rightarrow> a | RotRight \<Rightarrow> b) (case d of RotLeft \<Rightarrow> a' | RotRight \<Rightarrow> b')"
  by (cases d) auto

lemma sim_case_child [sim_intros]:
  "simulates w a a' \<Longrightarrow> simulates w b b' \<Longrightarrow>
   simulates w (case d of ChildLeft \<Rightarrow> a | ChildRight \<Rightarrow> b) (case d of ChildLeft \<Rightarrow> a' | ChildRight \<Rightarrow> b')"
  by (cases d) auto

lemma sim_if [sim_intros]:
  "c' = c \<Longrightarrow> simulates w a a' \<Longrightarrow> simulates w b b' \<Longrightarrow>
   simulates w (if c then a else b) (if c' then a' else b')"
  by simp

lemma node_at_wal [simp]: "node_at (with_wal w self) i = node_at self i"
  by (simp add: node_at_def)

lemma sim_modify [sim_intros]: "simulates w (modify i f self) (modify i f (with_wal w self))"
  by (auto simp: simulates_def modify_def bind_eq_Some_conv)

lemma sim_left_rotate [sim_intros]: "simulates w (left_rotate n self) (left_rotate n (with_wal w self))"
  unfolding left_rotate_def by (intro sim_intros) simp_all

lemma sim_right_rotate [sim_intros]: "simulates w (right_rotate n self) (right_rotate n (with_wal w self))"
  unfolding right_rotate_def by (intro sim_intros) simp_all

lemma sim_insert_recolor [sim_intros]:
  "simulates w (insert_recolor p g self) (insert_recolor p g (with_wal w self))"
  unfolding insert_recolor_def by (intro sim_intros)

lemma insert_fix_loop_wal:
  assumes "insert_fix_loop i self = Some s"
  shows "insert_fix_loop i (with_wal w self) = Some (with_wal w s)"
proof (rule insert_fix_loop.raw_induct [where P = "\<lambda>i self s. insert_fix_loop i (with_wal w self) = Some (with_wal w s)", OF _ assms], goal_cases)
  case (1 loop i self s)
  have [sim_intros]: "simulates w (loop j t) (insert_fix_loop j (with_wal w t))" for j t
    using "1"(1) by (simp add: simulates_def)
  have "simulates w (Some s) (insert_fix_loop i (with_wal w self))"
    unfolding "1"(2) [symmetric]
    by (subst insert_fix_loop.simps) (intro sim_intros; simp cong: option.case_cong)
  then show ?case by (simp add: simulates_def)
qed

lemma sim_insert_fix_loop [sim_intros]:
  "simulates w (insert_fix_loop i self) (insert_fix_loop i (with_wal w self))"
  using insert_fix_loop_wal by (simp add: simulates_def)

lemma sim_insert_fix_tree [sim_intros]:
  "simulates w (insert_fix_tree i self) (insert_fix_tree i (with_wal w self))"
  unfolding insert_fix_tree_def by (intro sim_intros) simp_all

lemma find_position_loop_wal:
  assumes "find_position_loop nd i self = Some q"
  shows "find_position_loop nd i (with_wal w self) = Some q"
proof (rule find_position_loop.raw_induct [where P = "\<lambda>nd i self q. find_position_loop nd i (with_wal w self) = Some q", OF _ assms], goal_cases)
  case (1 loop nd i self q)
  from "1"(2) show ?case
    by (subst find_position_loop.simps)
      (auto simp: bind_eq_Some_conv split: ordering.splits option.splits intro: "1"(1))
qed

lemma insert_node_wal:
  assumes "insert_node nd self = Some s"
  shows "insert_node nd (with_wal w self) = Some (with_wal w s)"
proof -
  have pos: "find_insert_position nd self = Some q \<Longrightarrow> find_insert_position nd (with_wal w self) = Some q" for q
    by (auto simp: find_insert_position_def bind_eq_Some_conv intro: find_position_loop_wal)
  have upd: "simulates w (update_data_from_node i nd self) (update_data_from_node i nd (with_wal w self))" for i
    unfolding update_data_from_node_def by (intro sim_intros) simp_all
  show ?thesis
  proof (cases "mt_root_node self")
    case None
    then show ?thesis using assms by (auto simp: insert_node_def set_root_def)
  next
    case (Some root)
    then obtain q where q: "find_insert_position nd self = Some q"
      using assms by (auto simp: insert_node_def Let_def bind_eq_Some_conv)
    have "simulates w (insert_node nd self) (insert_node nd (with_wal w self))"
    proof (cases q)
      case (ExistingNode i)
      then show ?thesis using Some q pos [OF q] upd by (simp add: insert_node_def)
    next
      case (NewNode p d)
      have "simulates w (case d of ChildLeft \<Rightarrow> modify p f self | ChildRight \<Rightarrow> modify p g self)
          (case d of ChildLeft \<Rightarrow> modify p f (with_wal w self) | ChildRight \<Rightarrow> modify p g (with_wal w self))" for f g
        by (intro sim_intros)
      moreover have "simulates w (insert_fix_tree i (s\<lparr>mt_current_size := c, mt_arena := A\<rparr>))
          (insert_fix_tree i (with_wal w s\<lparr>mt_current_size := c, mt_arena := A\<rparr>))" for i s c A
      proof -
        have "with_wal w s\<lparr>mt_current_size := c, mt_arena := A\<rparr> =
            with_wal w (s\<lparr>mt_current_size := c, mt_arena := A\<rparr>)" by (cases s) simp
        then show ?thesis by (simp only: sim_insert_fix_tree)
      qed
      ultimately show ?thesis
        using Some q pos [OF q] NewNode by (auto simp: insert_node_def Let_def intro!: sim_seq)
    qed
    then show ?thesis using assms by (simp add: simulates_def)
  qed
qed

section \<open>Histories\<close>

text \<open>
  \<open>written max_size max_nodes w0 kps self\<close>: the table \<open>self\<close> has accepted exactly the writes
  \<open>kps\<close>, in this order, since it was created with the log \<open>w0\<close>; the clock readings are arbitrary
  and the file system accepts every write in full.
\<close>

inductive written :: "nat \<Rightarrow> nat \<Rightarrow> Wal \<Rightarrow> entry list \<Rightarrow> MemtableInner \<Rightarrow> bool"
  for max_size max_nodes w0 where
  fresh: "written max_size max_nodes w0 [] (memtable_new max_size max_nodes w0)"
| store: "written max_size max_nodes w0 kps self \<Longrightarrow> full_writes (env_write env) \<Longrightarrow> rec_fits k p \<Longrightarrow>
    write_entry env k p self = Some (Inr self') \<Longrightarrow>
    written max_size max_nodes w0 (kps @ [(k, p)]) self'"

lemma feed_append: "feed put (xs @ ys) s = feed put xs s \<bind> feed put ys"
  by (induction xs arbitrary: s) (simp_all add: bind_assoc)

lemma feed_prefix: "feed put (xs @ ys) s = Some t \<Longrightarrow> \<exists>t'. feed put xs s = Some t'"
  by (auto simp: feed_append bind_eq_Some_conv)

lemma full_wal [simp]: "full (with_wal w self) = full self"
  by (simp add: full_def)

lemma insert_node_keeps_wal:
  assumes "insert_node nd self = Some s"
  shows "mt_wal s = mt_wal self"
proof -
  have "with_wal (mt_wal self) self = self" by simp
  then have "insert_node nd self = Some (with_wal (mt_wal self) s)"
    using insert_node_wal [OF assms, of "mt_wal self"] by simp
  then have "s = with_wal (mt_wal self) s" using assms by simp
  then show ?thesis by (metis MemtableInner.select_convs(6) MemtableInner.surjective MemtableInner.update_convs(6))
qed

lemma write_entry_replays:
  assumes "rec_fits k p" "write_entry env k p self = Some (Inr self')"
  shows "insert_record_from_wal (rec_of k p) (with_wal w self) = Some (with_wal w self')"
    and "mt_wal self' = write_log env (enc_blob k p) (mt_wal self)"
proof -
  let ?l = "write_log env (enc_blob k p) (mt_wal self)"
  have nf: "\<not> full self" and ins: "insert_node (new_from_record (rec_of k p)) (with_wal ?l self) = Some self'"
    using assms by (auto simp: write_entry_unfold split: if_splits)
  show "insert_record_from_wal (rec_of k p) (with_wal w self) = Some (with_wal w self')"
    using insert_node_wal [OF ins, of w] nf by (simp add: insert_record_from_wal_def)
  show "mt_wal self' = ?l" using insert_node_keeps_wal [OF ins] by simp
qed

lemma written_replays:
  "written max_size max_nodes w0 kps self \<Longrightarrow>
   feed insert_record_from_wal (recs_of kps) (memtable_new max_size max_nodes w) = Some (with_wal w self)"
proof (induction rule: written.induct)
  case fresh
  then show ?case by (simp add: memtable_new_def)
next
  case (store kps self env k p self')
  then show ?case using write_entry_replays(1) [OF store.hyps(3,4)] by (simp add: feed_append)
qed

lemma written_fits: "written max_size max_nodes w0 kps self \<Longrightarrow> \<forall>(k, p) \<in> set kps. rec_fits k p"
  by (induction rule: written.induct) auto

lemma written_view:
  assumes "written max_size max_nodes w0 kps self"
  shows "mt_inv self" "mt_view self = last_writes kps"
proof -
  let ?t = "memtable_new max_size max_nodes w0"
  have new: "mt_inv ?t" "mt_view ?t = Map.empty" by simp_all
  have "feed insert_record_from_wal (recs_of kps) ?t = Some (with_wal w0 self)"
    using written_replays [OF assms] by simp
  from wal_replay.feed_view [OF new(1) written_fits [OF assms] this]
  show "mt_inv self" "mt_view self = last_writes kps" by (simp_all add: new(2))
qed

text \<open>The log holds every write: the first ones on disk, the others in its buffer.\<close>

lemma written_log:
  assumes "written max_size max_nodes (wal_new now name) kps self"
  shows "wal_wf (mt_wal self) \<and> (\<exists>kps1 kps2. kps = kps1 @ kps2 \<and>
    f_data (wal_fd (mt_wal self)) = enc_blobs kps1 \<and> wal_buffer (mt_wal self) = enc_blobs kps2)"
  using assms
proof (induction rule: written.induct)
  case fresh
  then show ?case by (auto simp: memtable_new_def)
next
  case (store kps self env k p self')
  then obtain kps1 kps2 where log: "kps = kps1 @ kps2" "f_data (wal_fd (mt_wal self)) = enc_blobs kps1"
    "wal_buffer (mt_wal self) = enc_blobs kps2" and wf: "wal_wf (mt_wal self)" by blast
  note wal = write_entry_replays(2) [OF store.hyps(3,4)]
  have fl: "f_data (wal_fd (wal_flush env (mt_wal self))) = enc_blobs kps"
    "wal_buffer (wal_flush env (mt_wal self)) = []"
    using wal_flush_contents [OF store.hyps(2) wf] log by (simp_all add: wal_contents_def)
  show ?case
  proof (cases "needs_flush (env_now_check env) (mt_wal self)")
    case True
    then have "f_data (wal_fd (mt_wal self')) = enc_blobs kps \<and> wal_buffer (mt_wal self') = enc_blobs [(k, p)]"
      using fl by (simp add: wal write_log_def Let_def)
    then show ?thesis
      using wf by (intro conjI exI [of _ kps] exI [of _ "[(k, p)]"]) (simp_all add: wal)
  next
    case False
    then have "f_data (wal_fd (mt_wal self')) = enc_blobs kps1 \<and> wal_buffer (mt_wal self') = enc_blobs (kps2 @ [(k, p)])"
      using log by (simp add: wal write_log_def Let_def)
    then show ?thesis using wf log(1) by (intro conjI exI [of _ kps1] exI [of _ "kps2 @ [(k, p)]"]) (simp_all add: wal)
  qed
qed

lemma from_wal_log:
  assumes "re_file env = Inr (enc_blobs kps)" "re_new_wal env = Inr w" "re_remove env = Inr ()"
    and "length (enc_blobs kps) < 2 ^ 63"
  shows "from_wal env max_size max_nodes =
    map_option (\<lambda>t. (Inr t, True)) (feed insert_record_from_wal (recs_of kps) (memtable_new max_size max_nodes w))"
  using replay_log [OF assms(4)] assms(1-3)
  by (simp add: from_wal_def memtable_inner_new_def map_conv_bind_option comp_def)

lemma written_prefix:
  "written max_size max_nodes w0 kps self \<Longrightarrow> kps = kps1 @ kps2 \<Longrightarrow> \<exists>self1. written max_size max_nodes w0 kps1 self1"
proof (induction arbitrary: kps1 kps2 rule: written.induct)
  case fresh
  then show ?case by (auto intro: written.fresh)
next
  case (store kps self env k p self')
  show ?case
  proof (cases kps2 rule: rev_cases)
    case Nil
    then have "kps1 = kps @ [(k, p)]" using store.prems by simp
    then show ?thesis using written.store [OF store.hyps] by blast
  next
    case (snoc ys y)
    then show ?thesis using store.prems store.IH [of kps1 ys] by simp
  qed
qed

lemma from_wal_written:
  assumes "written max_size max_nodes w0 kps self" and "length (enc_blobs kps) < 2 ^ 63"
    and "re_file env = Inr (enc_blobs kps)" "re_new_wal env = Inr w" "re_remove env = Inr ()"
  shows "from_wal env max_size max_nodes = Some (Inr (with_wal w self), True)"
  using from_wal_log [OF assms(3-5,2)] written_replays [OF assms(1)] by simp

text \<open>A torn log: the iterator panics inside the loop.\<close>

lemma replay_loop_yields:
  assumes "replay_loop it table = Some t"
  shows "\<exists>rs. yields wal_next it rs"
proof (rule replay_loop.raw_induct [where P = "\<lambda>it table t. \<exists>rs. yields wal_next it rs", OF _ assms], goal_cases)
  case (1 loop it table t)
  obtain r it' where step: "wal_next it = Some (r, it')"
  proof (cases "wal_next it")
    case None
    then show ?thesis using "1"(2) by simp
  next
    case (Some x)
    then show ?thesis using that by (cases x) simp
  qed
  show ?case
  proof (cases r)
    case None
    then have "yields wal_next it []" using step by (intro yields.stop) simp
    then show ?thesis by blast
  next
    case (Some rec)
    then have "(insert_record_from_wal rec table \<bind> loop it') = Some t" using "1"(2) step by simp
    then obtain table' where "loop it' table' = Some t" unfolding bind_eq_Some_conv by blast
    then obtain rs where "yields wal_next it' rs" using "1"(1) by blast
    then have "yields wal_next it (rec # rs)" using step Some by (intro yields.more) simp_all
    then show ?thesis by blast
  qed
qed

lemma written_buffered:
  "written max_size max_nodes w0 kps self \<Longrightarrow> kps \<noteq> [] \<Longrightarrow> wal_buffer (mt_wal self) \<noteq> []"
proof (induction rule: written.induct)
  case fresh
  then show ?case by simp
next
  case (store kps self env k p self')
  then show ?case using write_entry_replays(2) [OF store.hyps(3,4)] by (simp add: write_log_def Let_def)
qed

lemma written_capacity:
  "written max_size max_nodes w0 kps self \<Longrightarrow> length (mt_arena self) \<le> max_nodes \<and> mt_capacity self = max_nodes"
proof (induction rule: written.induct)
  case fresh
  then show ?case by (simp add: memtable_new_def)
next
  case (store kps self env k p self')
  have ins: "insert_node (new_from_record (rec_of k p)) (with_wal (write_log env (enc_blob k p) (mt_wal self)) self) = Some self'"
    and room: "length (mt_arena self) \<noteq> mt_capacity self"
    using store.hyps by (auto simp: write_entry_unfold full_def split: if_splits)
  have inv: "mt_inv (with_wal (write_log env (enc_blob k p) (mt_wal self)) self)"
    using written_view(1) [OF store.hyps(1)] by simp
  from insert_node_length [OF inv store.hyps(3) ins] show ?case using store.IH room by auto
qed

text \<open>
  A short history, for the examples: two writes, 1000 ms after the creation of the table each, the
  first of which is on disk by the time of the second.
\<close>

definition calm_env :: Env where
  "calm_env = \<lparr>env_write = (\<lambda>_ b. Inr (length b)), env_now_check = 1000, env_now_flush = 0\<rparr>"

lemma calm_env_simps [simp]:
  "full_writes (env_write calm_env)" "env_now_check calm_env = 1000" "env_now_flush calm_env = 0"
  by (simp_all add: calm_env_def full_writes_def)

lemma mt_wal_new [simp]: "mt_wal (memtable_new max_size max_nodes w) = w"
  by (simp add: memtable_new_def)

lemma full_memtable_new [simp]:
  "full (memtable_new max_size max_nodes w) \<longleftrightarrow> max_nodes = 0 \<or> max_size = 0"
  by (auto simp: full_def memtable_new_def)

lemma history_extend:
  assumes "written max_size max_nodes w0 kps self" "rec_fits k p" "\<not> full self" "k \<notin> fst ` set kps"
  obtains self' where "written max_size max_nodes w0 (kps @ [(k, p)]) self'"
    "mt_wal self' = write_log calm_env (enc_blob k p) (mt_wal self)"
proof -
  have "mt_view self k = None"
    using assms(4) dom_last_writes [of kps] by (auto simp: written_view(2) [OF assms(1)])
  then have room: "may_replace k (mt_view self k) p" by simp
  obtain self' where s': "write_entry calm_env k p self = Some (Inr self')"
    by (rule write_entry_stored [OF written_view(1) [OF assms(1)] assms(2,3) room])
  from written.store [OF assms(1) _ assms(2) s'] write_entry_replays(2) [OF assms(2) s'] show thesis
    using that by simp
qed

lemma written_first_size:
  assumes "written max_size max_nodes w0 [(k, p)] self"
  shows "mt_current_size self = 0 \<and> mt_max_size self = max_size"
proof -
  let ?t = "memtable_new max_size max_nodes w0"
  have fits: "rec_fits k p" using written_fits [OF assms] by simp
  have "insert_record_from_wal (rec_of k p) ?t = Some (with_wal w0 self)"
    using written_replays [OF assms, of w0] by (simp split: bind_splits)
  then have "insert_node (new_from_record (rec_of k p)) ?t = Some (with_wal w0 self)"
    by (simp add: insert_record_from_wal_def split: if_splits)
  then have "with_wal w0 self = set_root (new_from_record (rec_of k p)) 0 ?t"
    by (simp add: insert_node_def memtable_new_def)
  from arg_cong [OF this, of mt_current_size] arg_cong [OF this, of mt_max_size] show ?thesis
    by (simp add: set_root_def memtable_new_def)
qed

lemma two_writes:
  assumes "rec_fits k p" "rec_fits k' p'" "k \<noteq> k'"
  obtains self where "written 100 4 (wal_new 0 name) [(k, p), (k', p')] self"
    "f_data (wal_fd (mt_wal self)) = enc_blob k p" "wal_buffer (mt_wal self) = enc_blob k' p'"
proof -
  obtain s1 where s1: "written 100 4 (wal_new 0 name) ([] @ [(k, p)]) s1"
    "mt_wal s1 = write_log calm_env (enc_blob k p) (wal_new 0 name)"
    by (rule history_extend [OF written.fresh assms(1), of 100 4 "wal_new 0 name"]) simp_all
  have len: "length (mt_arena s1) = 1"
    using mt_inv_size [OF written_view(1) [OF s1(1)]] written_view(2) [OF s1(1)] by (simp add: last_writes_def)
  have "\<not> full s1"
    using len written_first_size [OF s1(1) [simplified]] written_capacity [OF s1(1)] by (simp add: full_def)
  from history_extend [OF s1(1) assms(2) this] assms(3) obtain s2 where
    s2: "written 100 4 (wal_new 0 name) ([(k, p)] @ [(k', p')]) s2"
    "mt_wal s2 = write_log calm_env (enc_blob k' p') (mt_wal s1)" by auto
  have "f_data (wal_fd (mt_wal s2)) = enc_blob k p" "wal_buffer (mt_wal s2) = enc_blob k' p'"
    by (simp_all add: s2(2) s1(2) write_log_def needs_flush_def wal_new_def wal_flush_def file_write_def
        file_create_def calm_env_def Let_def DEFAULT_WAL_BUFFER_FLUSH_TIME_def)
  with that s2(1) show thesis by simp
qed

end
