(* ===== verification/Generation.thy ===== *)
theory Generation
  imports Wal_Recovery
begin

text \<open>
  A memtable against the sequence of writes it has accepted, its generation: which contents it has and
  for which keys reads return them.
\<close>

section \<open>One write\<close>

lemma write_entry_Inl:
  "rec_fits k p \<Longrightarrow> write_entry env k p inner = Some (Inl e) \<Longrightarrow> full inner"
  by (simp add: write_entry_unfold map_option_case split: if_splits option.splits)

lemma write_entry_Inr:
  assumes "mt_inv inner" "rec_fits k p" "write_entry env k p inner = Some (Inr inner')"
  shows "\<not> full inner" "mt_inv inner'" "mt_view inner' = (mt_view inner)(k \<mapsto> p)"
    "coherent j inner \<Longrightarrow> (j = k \<Longrightarrow> clean_write (mt_view inner k) p) \<Longrightarrow> coherent j inner'"
proof -
  let ?t = "inner\<lparr>mt_wal := write_log env (enc_blob k p) (mt_wal inner)\<rparr>"
  have i: "\<not> full inner" "insert_node (new_from_record (rec_of k p)) ?t = Some inner'"
    using assms(2,3) by (simp_all add: write_entry_unfold split: if_splits)
  have "mt_inv ?t" using assms(1) by simp
  from this assms(2) show "\<not> full inner" "mt_inv inner'" "mt_view inner' = (mt_view inner)(k \<mapsto> p)"
    using i by (cases rule: memtable.put_cases; simp)+
  show "coherent j inner'" if "coherent j inner" "j = k \<Longrightarrow> clean_write (mt_view inner k) p"
    using insert_node_coherent_self [OF \<open>mt_inv ?t\<close> assms(2) i(2)]
      insert_node_coherent_other [OF \<open>mt_inv ?t\<close> assms(2) i(2), of j] that by (cases "j = k") simp_all
qed

section \<open>Clean generations\<close>

text \<open>
  Every write of the key finds it absent, deletes it, or replaces a value by one of the same length;
  \<open>old\<close> is what the key holds before.
\<close>

fun clean_from :: "bytes \<Rightarrow> bytes option option \<Rightarrow> entry list \<Rightarrow> bool" where
  "clean_from k old [] = True"
| "clean_from k old ((j, p) # g) =
     (if j = k then clean_write old p \<and> clean_from k (Some p) g else clean_from k old g)"

definition clean_gen :: "bytes \<Rightarrow> entry list \<Rightarrow> bool" where
  "clean_gen k g = clean_from k None g"

lemma last_writes_Cons: "last_writes ((j, p) # g) k = (case last_writes g k of None \<Rightarrow> if j = k then Some p else None | Some q \<Rightarrow> Some q)"
  by (simp add: last_writes_def map_add_def split: option.split)

lemma clean_from_snoc:
  "clean_from k old (g @ [(j, p)]) \<longleftrightarrow> clean_from k old g \<and>
     (j = k \<longrightarrow> clean_write (case last_writes g k of None \<Rightarrow> old | Some q \<Rightarrow> Some q) p)"
proof (induction k old g rule: clean_from.induct)
  case (1 k old)
  then show ?case by (simp add: last_writes_def)
next
  case (2 k old i q g)
  then show ?case by (auto simp: last_writes_Cons split: option.split)
qed

lemma clean_gen_snoc:
  "clean_gen k (g @ [(j, p)]) \<longleftrightarrow> clean_gen k g \<and> (j = k \<longrightarrow> clean_write (last_writes g k) p)"
  by (simp add: clean_gen_def clean_from_snoc split: option.split)

lemma clean_gen_Nil [simp]: "clean_gen k []"
  by (simp add: clean_gen_def)

section \<open>Tables and generations\<close>

text \<open>The table has the contents of the generation, and the records of its clean keys have matching offsets.\<close>

definition gen_holds :: "entry list \<Rightarrow> MemtableInner \<Rightarrow> bool" where
  "gen_holds g t \<longleftrightarrow> mt_inv t \<and> mt_view t = last_writes g \<and> (\<forall>k. clean_gen k g \<longrightarrow> coherent k t)"

lemma gen_holdsD:
  assumes "gen_holds g t"
  shows "mt_inv t" "mt_view t = last_writes g" "clean_gen k g \<Longrightarrow> coherent k t"
  using assms by (simp_all add: gen_holds_def)

lemma gen_views: "list_all2 gen_holds gs ts \<Longrightarrow> map mt_view ts = map last_writes gs"
  by (induction rule: list_all2_induct) (simp_all add: gen_holds_def)

text \<open>A write extends the generation.\<close>

lemma gen_holds_write:
  assumes "gen_holds g t" "rec_fits k p" "write_entry env k p t = Some (Inr t')"
  shows "gen_holds (g @ [(k, p)]) t'"
  unfolding gen_holds_def
proof (intro conjI allI impI)
  note t = gen_holdsD [OF assms(1)] and w = write_entry_Inr [OF gen_holdsD(1) [OF assms(1)] assms(2,3)]
  show "mt_inv t'" "mt_view t' = last_writes (g @ [(k, p)])" using t w by (simp_all add: last_writes_def)
  show "coherent j t'" if "clean_gen j (g @ [(k, p)])" for j
    using that t w(4) [of j] by (auto simp: clean_gen_snoc)
qed

lemma gen_holds_new: "gen_holds [] (memtable_new max_size max_nodes w)"
  by (simp add: gen_holds_def last_writes_def)

lemma written_gen_holds: "written max_size max_nodes w0 kps t \<Longrightarrow> gen_holds kps t"
  by (induction rule: written.induct) (auto intro: gen_holds_write gen_holds_new)

lemma coherent_wal [simp]: "coherent k (t\<lparr>mt_wal := w\<rparr>) = coherent k t"
  by (simp add: coherent_def)

lemma gen_holds_wal [simp]: "gen_holds g (t\<lparr>mt_wal := w\<rparr>) = gen_holds g t"
  by (simp add: gen_holds_def)

section \<open>Answers\<close>

text \<open>What an entry is worth to a read; a tombstone is worth as little as no entry.\<close>

definition data_of :: "bytes option option \<Rightarrow> bytes option" where
  "data_of e = (case e of Some (Some v) \<Rightarrow> Some v | _ \<Rightarrow> None)"

lemma data_of_simps [simp]: "data_of None = None" "data_of (Some None) = None" "data_of (Some (Some v)) = Some v"
  by (simp_all add: data_of_def)

definition or_else :: "'a option \<Rightarrow> 'a option \<Rightarrow> 'a option" where
  "or_else a b = (case a of Some x \<Rightarrow> Some x | None \<Rightarrow> b)"

lemma or_else_simps [simp]: "or_else (Some x) b = Some x" "or_else None b = b"
  by (simp_all add: or_else_def)

end
