(* ===== verification/Search_Cost.thy ===== *)
theory Search_Cost
  imports Memtable_Api
begin

text \<open>
  How many nodes \<^verbatim>\<open>get_search\<close> of \<^verbatim>\<open>src/memtable/inner.rs\<close> visits.  The red-black rules bound the height
  of the tree by the number of its nodes, and the loop with a counter in it reads one node per level.
\<close>

section \<open>The height of a red-black tree\<close>

lemma height_black_height:
  "no_red_red t \<Longrightarrow> uniform_black t \<Longrightarrow>
     height t \<le> 2 * black_height t + (if root_color t = Red then 1 else 0)"
proof (induction t rule: no_red_red.induct)
  case (2 l x c r)
  then show ?case by (cases c) (auto split: if_splits)
qed simp

lemma black_height_size: "uniform_black t \<Longrightarrow> 2 ^ black_height t \<le> size1 t"
proof (induction t rule: no_red_red.induct)
  case (2 l x c r)
  then show ?case by (cases c) auto
qed simp

lemma size1_labels: "size1 t = length (labels t) + 1"
  by (induction t rule: no_red_red.induct) simp_all

lemma red_black_height:
  assumes "red_black t"
  shows "2 ^ height t \<le> (length (labels t) + 1) ^ 2"
proof -
  have "(2 :: nat) ^ height t \<le> 2 ^ (2 * black_height t)"
    using assms height_black_height [of t] by (intro power_increasing) (auto simp: red_black_def)
  also have "\<dots> = (2 ^ black_height t) ^ 2" by (simp add: power_mult [symmetric] mult.commute)
  also have "\<dots> \<le> (length (labels t) + 1) ^ 2"
    using assms black_height_size [of t] by (intro power_mono) (auto simp: red_black_def size1_labels)
  finally show ?thesis .
qed

section \<open>The search with a counter\<close>

text \<open>\<open>n\<close> counts the nodes read before the current one; the loop is otherwise \<^const>\<open>get_search_loop\<close>.\<close>

partial_function (option) counted_search_loop ::
  "bytes \<Rightarrow> nat \<Rightarrow> nat \<Rightarrow> MemtableInner \<Rightarrow> (nat option \<times> nat) option" where
  "counted_search_loop key n cur self = do {
     curr_node \<leftarrow> node_at self cur;
     k \<leftarrow> node_key curr_node;
     case cmp key k of
       Equal \<Rightarrow> Some (Some cur, n + 1)
     | Less \<Rightarrow> (case nd_left curr_node of
                  Some child \<Rightarrow> counted_search_loop key (n + 1) child self
                | None \<Rightarrow> Some (None, n + 1))
     | Greater \<Rightarrow> (case nd_right curr_node of
                     Some child \<Rightarrow> counted_search_loop key (n + 1) child self
                   | None \<Rightarrow> Some (None, n + 1))
   }"

definition counted_search :: "bytes \<Rightarrow> MemtableInner \<Rightarrow> (nat option \<times> nat) option" where
  "counted_search key self =
     (case mt_root_node self of
        None \<Rightarrow> Some (None, 0)
      | Some root \<Rightarrow> counted_search_loop key 0 root self)"

lemma counted_search_loop_descend:
  "tree_of self (plug t ps) \<Longrightarrow> keyed self K t \<Longrightarrow> root_idx t = Some i \<Longrightarrow>
    \<exists>m \<le> n + height t. counted_search_loop k n i self =
      Some (case descend K k t ps of Inl j \<Rightarrow> Some j | Inr _ \<Rightarrow> None, m)"
proof (induction t arbitrary: i n ps rule: no_red_red.induct)
  case 1
  then show ?case by simp
next
  case (2 l j c r)
  note kd = keyed_NodeD [OF "2.prems"(2)] and nd = tree_node [OF "2.prems"(1)]
  have i: "i = j" using "2.prems"(3) by simp
  show ?case
  proof (cases "cmp k (K j)")
    case Less
    show ?thesis
    proof (cases l rule: root_idx.cases)
      case 1
      then show ?thesis using Less kd i by (subst counted_search_loop.simps) (simp add: nd)
    next
      case (2 l' j' c' r')
      then obtain m where "m \<le> Suc n + height l" "counted_search_loop k (Suc n) j' self =
          Some (case descend K k l ((ChildLeft, (j, c), r) # ps) of Inl j \<Rightarrow> Some j | Inr _ \<Rightarrow> None, m)"
        using "2.IH"(1) [of "(ChildLeft, (j, c), r) # ps" j' "Suc n"] "2.prems" kd by auto
      then show ?thesis using Less kd i 2 by (subst counted_search_loop.simps) (auto simp: nd)
    qed
  next
    case Equal
    then show ?thesis using kd i by (subst counted_search_loop.simps) (simp add: nd)
  next
    case Greater
    show ?thesis
    proof (cases r rule: root_idx.cases)
      case 1
      then show ?thesis using Greater kd i by (subst counted_search_loop.simps) (simp add: nd)
    next
      case (2 l' j' c' r')
      then obtain m where "m \<le> Suc n + height r" "counted_search_loop k (Suc n) j' self =
          Some (case descend K k r ((ChildRight, (j, c), l) # ps) of Inl j \<Rightarrow> Some j | Inr _ \<Rightarrow> None, m)"
        using "2.IH"(2) [of "(ChildRight, (j, c), l) # ps" j' "Suc n"] "2.prems" kd by auto
      then show ?thesis using Greater kd i 2 by (subst counted_search_loop.simps) (auto simp: nd)
    qed
  qed
qed

lemma mt_wf_nodes:
  assumes "mt_wf self T es"
  shows "length (labels T) = length (mt_arena self)"
  using assms distinct_card [of "labels T"]
  by (auto simp: mt_wf_def tree_of_def)

lemma counted_search_wf:
  assumes wf: "mt_wf self T es"
  shows "\<exists>r n. counted_search k self = Some (r, n) \<and> get_search k self = Some r \<and> n \<le> height T"
  using counted_search_loop_descend [OF mt_wf_tree [OF wf] mt_wf_keyed [OF wf], of _ 0 k]
    mt_wf_root [OF wf] get_search_wf [OF wf, of k]
  by (cases T rule: root_idx.cases) (auto simp: counted_search_def)

lemma counted_search_bound:
  assumes "mt_inv self"
  shows "\<exists>r n. counted_search k self = Some (r, n) \<and> get_search k self = Some r \<and>
    2 ^ n \<le> (length (mt_arena self) + 1) ^ 2"
proof -
  obtain T es where wf: "mt_wf self T es" using assms by (auto simp: mt_inv_def)
  then obtain r n where rn: "counted_search k self = Some (r, n)" "get_search k self = Some r" "n \<le> height T"
    using counted_search_wf by blast
  have "2 ^ height T \<le> (length (mt_arena self) + 1) ^ 2"
    using red_black_height [of T] wf mt_wf_nodes [OF wf] by (simp add: mt_wf_def)
  moreover have "(2 :: nat) ^ n \<le> 2 ^ height T" using rn(3) by simp
  ultimately show ?thesis using rn by (meson order_trans)
qed

end
