(* ===== verification/Memtable_Props.thy ===== *)
theory Memtable_Props
  imports Generation Search_Cost
begin

text \<open>The properties of the memtable and of its recovery from the log.\<close>

section \<open>The red-black tree\<close>

text \<open>
  \<^verbatim>\<open>left_rotate\<close> and \<^verbatim>\<open>right_rotate\<close> perform the two textbook rotations anywhere in the tree: they
  do not panic, keep every parent and child link consistent (also at the root), touch neither records
  nor log, keep the order of the nodes, and undo each other.
\<close>

lemma rotations_inverse:
  assumes "tree_of self (plug (Node a (n, cn) (Node b (r, cr) c)) ps)"
  shows "\<exists>s1 s2. left_rotate n self = Some s1 \<and> same_data self s1 \<and>
    tree_of s1 (plug (Node (Node a (n, cn) b) (r, cr) c) ps) \<and>
    labels (plug (Node (Node a (n, cn) b) (r, cr) c) ps) = labels (plug (Node a (n, cn) (Node b (r, cr) c)) ps) \<and>
    right_rotate r s1 = Some s2 \<and> same_data self s2 \<and>
    tree_of s2 (plug (Node a (n, cn) (Node b (r, cr) c)) ps)"
proof -
  obtain s1 where s1: "left_rotate n self = Some s1" "same_data self s1"
    "tree_of s1 (plug (Node (Node a (n, cn) b) (r, cr) c) ps)"
    by (rule left_rotate_tree [OF assms])
  obtain s2 where s2: "right_rotate r s1 = Some s2" "same_data s1 s2"
    "tree_of s2 (plug (Node a (n, cn) (Node b (r, cr) c)) ps)"
    by (rule right_rotate_tree [OF s1(3)])
  show ?thesis
    using s1 s2 same_data_trans [OF s1(2) s2(2)] by (auto simp: labels_plug)
qed

definition sample_node :: "nat option \<Rightarrow> nat option \<Rightarrow> nat option \<Rightarrow> Color \<Rightarrow> u8 \<Rightarrow> MemtableNode" where
  "sample_node l r p c k =
     \<lparr>nd_record = rec_of [k] None, nd_left = l, nd_right = r, nd_parent = p, nd_color = c\<rparr>"

definition sample_table :: "MemtableNode list \<Rightarrow> MemtableInner" where
  "sample_table A = \<lparr>mt_arena = A, mt_capacity = 8, mt_max_size = 1000, mt_root_node = Some 0,
     mt_current_size = 0, mt_wal = wal_new 0 ''lsmlite.wal.0.log''\<rparr>"

text \<open>
  C11: \<^verbatim>\<open>insert_fix_tree\<close>, started on a red node whose subtree and surroundings obey the rules apart from
  a possibly red parent, ends without a panic in a tree that satisfies all red-black rules and has
  the same nodes in the same order; it changes links and colours only.
\<close>

theorem insert_fix_tree_restores:
  assumes "tree_of self (plug (Node l (i, Red) r) ps)" "no_red_red (Node l (i, Red) r)"
    "uniform_black (Node l (i, Red) r)" "path_ok (black_height l) ps"
  shows "\<exists>self' T. insert_fix_tree i self = Some self' \<and> same_data self self' \<and> tree_of self' T \<and>
    red_black T \<and> labels T = labels (plug (Node l (i, Red) r) ps)"
  using insert_fix_tree_correct [OF assms] by blast

theorem insert_fix_tree_restores_witness:
  "\<exists>self' T. insert_fix_tree 2 (sample_table
     [sample_node (Some 1) None None Black 3, sample_node (Some 2) None (Some 0) Red 2, sample_node None None (Some 1) Red 1])
     = Some self' \<and> tree_of self' T \<and> red_black T \<and> labels T = [2, 1, 0]"
proof -
  let ?s = "sample_table [sample_node (Some 1) None None Black 3, sample_node (Some 2) None (Some 0) Red 2,
    sample_node None None (Some 1) Red 1]"
  have "tree_of ?s (plug (Node Leaf (2, Red) Leaf) [(ChildLeft, (1, Red), Leaf), (ChildLeft, (0, Black), Leaf)])"
    by (simp add: tree_of_def sample_table_def sample_node_def)
  from insert_fix_tree_restores [OF this] show ?thesis by (auto simp: labels_plug)
qed

text \<open>
  C10: on every table that satisfies the invariant (a red-black tree, strictly ordered by key, one
  node per slot, well-formed records), \<^verbatim>\<open>insert_node\<close> returns exactly when the entry may replace what the
  key holds, and panics otherwise: when it would have to overwrite a value in place that cannot be
  rewritten.  When it returns, it has kept the invariant and changed the contents at the inserted key only.
\<close>

theorem insert_node_updates_map:
  assumes "mt_inv self" and "rec_fits k p"
  shows "case insert_node (new_from_record (rec_of k p)) self of
      Some self' \<Rightarrow> may_replace k (mt_view self k) p \<and> mt_inv self' \<and> mt_view self' = (mt_view self)(k \<mapsto> p)
    | None \<Rightarrow> \<not> may_replace k (mt_view self k) p"
  using assms by (cases rule: memtable.put_cases) auto

theorem insert_node_updates_map_witness:
  "\<exists>self. mt_view self = [[1] \<mapsto> Some [2], [3] \<mapsto> None] \<and>
     (case insert_node (new_from_record (rec_of [1] (Some [5]))) self of
        Some self' \<Rightarrow> mt_view self' = [[1] \<mapsto> Some [5], [3] \<mapsto> None] | None \<Rightarrow> False)"
proof -
  have "enc_blob [1] (Some [2]) = [0, 4, 1, 1, 1, 2]" "enc_blob [3] None = [1, 2, 1, 3]" "enc_blob [1] (Some [5]) = [0, 4, 1, 1, 1, 5]"
    by code_simp+
  then have fits: "rec_fits [1] (Some [2])" "rec_fits [3] None" "rec_fits [1] (Some [5])"
    by (simp_all add: rec_fits_def)
  obtain self where w: "written 100 4 (wal_new 0 ''w'') [([1], Some [2]), ([3], None)] self"
    by (rule two_writes [OF fits(1,2)]) simp
  note v = written_view [OF w]
  have view: "mt_view self = [[1] \<mapsto> Some [2], [3] \<mapsto> None]" using v(2) by (simp add: last_writes_def fun_upd_twist)
  have "may_replace [1] (mt_view self [1]) (Some [5])" using overwrite_ok_same_length [of "[5]" "[2]" "[1]"] by (simp add: view)
  then show ?thesis using insert_node_updates_map [OF v(1) fits(3)] view
    by (intro exI [of _ self]) (auto split: option.splits simp: fun_upd_twist)
qed

section \<open>Reading\<close>

text \<open>
  C14: \<^verbatim>\<open>get\<close> never panics and answers from the contents of the table (data, tombstone, or nothing for
  a key that is absent) for every key whose record's value offsets agree with its bytes.
\<close>

theorem memtable_get_correct:
  assumes "mt_inv self" and "coherent k self"
  shows "memtable_get k self = Some (case mt_view self k of
     None \<Rightarrow> QNone | Some None \<Rightarrow> QTombstone | Some (Some v) \<Rightarrow> QData v)"
  using memtable_get_view [OF assms] by (simp add: query_of_def)

theorem memtable_get_correct_witness:
  "\<exists>self. written 100 4 (wal_new 0 ''w'') [([1], Some [2]), ([3], None)] self \<and>
     memtable_get [1] self = Some (QData [2]) \<and> memtable_get [3] self = Some QTombstone \<and> memtable_get [7] self = Some QNone"
proof -
  have "enc_blob [1] (Some [2]) = [0, 4, 1, 1, 1, 2]" "enc_blob [3] None = [1, 2, 1, 3]" by code_simp+
  then have fits: "rec_fits [1] (Some [2])" "rec_fits [3] None" by (simp_all add: rec_fits_def)
  obtain self where w: "written 100 4 (wal_new 0 ''w'') [([1], Some [2]), ([3], None)] self"
    by (rule two_writes [OF fits]) simp
  note g = gen_holdsD [OF written_gen_holds [OF w]]
  have "coherent k self" for k by (rule g(3)) (simp add: clean_gen_def clean_write_def)
  from memtable_get_correct [OF g(1) this] w show ?thesis by (intro exI [of _ self]) (simp add: g(2) last_writes_def)
qed

text \<open>
  C15: a lookup is logarithmic.  On every table that satisfies the invariant the search of \<^verbatim>\<open>get\<close> ends, with
  the result of the plain loop, after reading at most \<open>2 * log 2 (N + 1)\<close> of the \<open>N\<close> nodes of the arena.
\<close>

theorem memtable_search_bound:
  assumes "mt_inv self"
  shows "\<exists>r n. counted_search k self = Some (r, n) \<and> get_search k self = Some r \<and> 2 ^ n \<le> (length (mt_arena self) + 1) ^ 2"
  by (rule counted_search_bound [OF assms])

theorem memtable_search_bound_witness:
  "\<exists>self r n. length (mt_arena self) = 2 \<and> counted_search [3] self = Some (r, n) \<and> get_search [3] self = Some r \<and> n \<le> 3"
proof -
  have "enc_blob [1] (Some [2]) = [0, 4, 1, 1, 1, 2]" "enc_blob [3] None = [1, 2, 1, 3]" by code_simp+
  then have fits: "rec_fits [1] (Some [2])" "rec_fits [3] None" by (simp_all add: rec_fits_def)
  obtain self where w: "written 100 4 (wal_new 0 ''w'') [([1], Some [2]), ([3], None)] self"
    by (rule two_writes [OF fits]) simp
  note v = written_view [OF w]
  have len: "length (mt_arena self) = 2" using mt_inv_size [OF v(1)] v(2) by (simp add: dom_last_writes)
  from memtable_search_bound [OF v(1), of "[3]"] obtain r n where
    r: "counted_search [3] self = Some (r, n)" "get_search [3] self = Some r" "2 ^ n \<le> ((2 :: nat) + 1) ^ 2" unfolding len by blast
  have "n \<le> 3" using r(3) power_increasing [of 4 n "2 :: nat"] by (cases "n \<le> 3") simp_all
  then show ?thesis using len r(1,2) by blast
qed

text \<open>
  Read your writes.  A write of a key that is new, a deletion, and an overwrite of a value by one
  of the same length succeed on a table that is not full; the key then reads as written and every
  other key reads as before.
\<close>

lemma write_then_read:
  assumes "mt_inv self" "rec_fits k p" "\<not> full self" "coherent k self" "clean_write (mt_view self k) p"
  shows "\<exists>self'. write_entry env k p self = Some (Inr self') \<and> mt_inv self' \<and> coherent k self' \<and>
    memtable_get k self' = Some (query_of (Some p)) \<and>
    (\<forall>k'. k' \<noteq> k \<longrightarrow> coherent k' self \<longrightarrow> coherent k' self' \<and> memtable_get k' self' = memtable_get k' self)"
proof -
  let ?s = "self\<lparr>mt_wal := write_log env (enc_blob k p) (mt_wal self)\<rparr>"
  obtain self' where s': "write_entry env k p self = Some (Inr self')" "mt_inv self'"
    "mt_view self' = (mt_view self)(k \<mapsto> p)" "insert_node (new_from_record (rec_of k p)) ?s = Some self'"
    by (rule write_entry_stored [OF assms(1-3) clean_write_may_replace [OF assms(5)]])
  have co: "coherent k self'"
    by (rule insert_node_coherent_self [OF _ assms(2) s'(4)]) (use assms in simp_all)
  have other: "coherent k' self'" if "k' \<noteq> k" "coherent k' self" for k'
    by (rule insert_node_coherent_other [OF _ assms(2) s'(4) that(1)]) (use assms(1) that in simp_all)
  have "memtable_get k' self' = memtable_get k' self" if "k' \<noteq> k" "coherent k' self" for k'
    using memtable_get_view [OF s'(2) other [OF that]] memtable_get_view [OF assms(1) that(2)] s'(3) that by simp
  then show ?thesis
    using s' co other memtable_get_view [OF s'(2) co] by auto
qed

text \<open>
  C19: an overwrite of a value by one of another length leaves the value offsets of the record
  behind.  The table reads the new bytes through the old window: a longer value comes back cut to the
  old length, and after a shorter one \<^verbatim>\<open>get\<close> panics (here for lengths with equally long prefixes).
  The blob, and with it the log and the SSTable, holds the new value.
\<close>

theorem overwrite_reads_old_window:
  assumes "mt_inv self" "coherent k self" "rec_fits k (Some v)" "mt_view self k = Some (Some w)"
    and "log_varint_len k (Some v) = log_varint_len k (Some w)"
    and "length (leb128 (length v)) = length (leb128 (length w))"
    and "insert_node (new_from_record (rec_of k (Some v))) self = Some self'"
  shows "mt_view self' k = Some (Some v) \<and>
    memtable_get k self' = (if length w \<le> length v then Some (QData (take (length w) v)) else None)"
proof -
  have view: "mt_view self' k = Some (Some v)"
    using insert_node_refines [OF assms(1,3)] assms(7) by (cases "may_replace k (mt_view self k) (Some v)") auto
  from assms(1,3,7) show ?thesis
  proof (cases rule: insert_node_cases)
    case new
    then show ?thesis using assms(4) by simp
  next
    case (update j q r)
    let ?old = "nd_record (mt_arena self ! j)"
    have q: "q = Some w" using update(1) assms(4) by simp
    have old: "rec_value ?old = val_span k (Some w)"
      using coherent_record [OF assms(2) update(2,3)] q by (simp add: rec_of_def)
    have "r = ?old\<lparr>rec_blob := enc_blob k (Some v), rec_key := (key_off k (Some v), length k)\<rparr>"
      using update_from_record_repr [OF update(3) assms(3)] update(5) by (simp split: if_splits)
    then have r: "rec_blob r = enc_blob k (Some v)" "rec_value r = val_span k (Some w)" using old by simp_all
    have "read_record r = (if length w \<le> length v then Some (QData (take (length w) v)) else None)"
      using assms(5,6)
      by (simp add: read_record_def record_type_def copy_value_def r val_span_def slice_def enc_blob_split
          key_off_def log_varint_len_def)
    then show ?thesis using view update(7) by simp
  qed
qed

theorem overwrite_reads_old_window_witness:
  "\<exists>self self'. mt_view self [1] = Some (Some [2]) \<and>
     insert_node (new_from_record (rec_of [1] (Some [3, 4]))) self = Some self' \<and>
     mt_view self' [1] = Some (Some [3, 4]) \<and> memtable_get [1] self' = Some (QData [3])"
proof -
  have e: "enc_blob [1] (Some [2]) = [0, 4, 1, 1, 1, 2]" "enc_blob [1] (Some [3, 4]) = [0, 5, 1, 1, 2, 3, 4]"
    "log_varint_len [1] (Some [2]) = 1" "log_varint_len [1] (Some [3, 4]) = 1" "leb128 1 = [1]" "leb128 2 = [2]"
    by code_simp+
  have fits: "rec_fits [1] (Some [2])" "rec_fits [1] (Some [3, 4])" by (simp_all add: rec_fits_def e)
  obtain self where s: "mt_inv self" "coherent [1] self" "mt_view self = [[1] \<mapsto> Some [2]]"
    by (rule one_entry_table [OF fits(1)])
  have "may_replace [1] (mt_view self [1]) (Some [3, 4])" by (simp add: s(3) overwrite_ok_def e)
  then obtain self' where s': "insert_node (new_from_record (rec_of [1] (Some [3, 4]))) self = Some self'"
    using memtable.put_admitted [OF s(1) fits(2)] by blast
  have l: "length (leb128 (length [3, 4 :: u8])) = length (leb128 (length [2 :: u8]))" by code_simp
  have "mt_view self [1] = Some (Some [2])" by (simp add: s(3))
  from overwrite_reads_old_window [OF s(1,2) fits(2) this _ l s'] this s' show ?thesis
    using e(3,4) by (intro exI [of _ self] exI [of _ self']) simp
qed

text \<open>
  C20: a key that was deleted and is written again while its tombstone is still in the table keeps
  reading as deleted, although the table (and the SSTable written from it) holds the new value.
\<close>

theorem rewritten_tombstone_reads_deleted:
  assumes "mt_inv self" "coherent k self" "rec_fits k (Some v)" "mt_view self k = Some None"
    and "insert_node (new_from_record (rec_of k (Some v))) self = Some self'"
  shows "mt_view self' k = Some (Some v) \<and> memtable_get k self' = Some QTombstone"
proof -
  have view: "mt_view self' k = Some (Some v)"
    using insert_node_refines [OF assms(1,3)] assms(5) by (cases "may_replace k (mt_view self k) (Some v)") auto
  from assms(1,3,5) show ?thesis
  proof (cases rule: insert_node_cases)
    case new
    then show ?thesis using assms(4) by simp
  next
    case (update j q r)
    let ?old = "nd_record (mt_arena self ! j)"
    have q: "q = None" using update(1) assms(4) by simp
    have "rec_value ?old = None"
      using coherent_record [OF assms(2) update(2,3)] q by (simp add: rec_of_def val_span_def)
    then have "rec_value r = None"
      using update_from_record_repr [OF update(3) assms(3)] update(5) by (auto split: if_splits)
    then show ?thesis using view update(7) by (simp add: read_record_def record_type_def)
  qed
qed

theorem rewritten_tombstone_reads_deleted_witness:
  "\<exists>self self'. mt_view self [1] = Some None \<and>
     insert_node (new_from_record (rec_of [1] (Some [3, 4]))) self = Some self' \<and>
     mt_view self' [1] = Some (Some [3, 4]) \<and> memtable_get [1] self' = Some QTombstone"
proof -
  have e: "enc_blob [1] None = [1, 2, 1, 1]" "enc_blob [1] (Some [3, 4]) = [0, 5, 1, 1, 2, 3, 4]"
    "log_varint_len [1] None = 1" "log_varint_len [1] (Some [3, 4]) = 1" by code_simp+
  have fits: "rec_fits [1] None" "rec_fits [1] (Some [3, 4])" by (simp_all add: rec_fits_def e)
  obtain self where s: "mt_inv self" "coherent [1] self" "mt_view self = [[1] \<mapsto> None]"
    by (rule one_entry_table [OF fits(1)])
  have "may_replace [1] (mt_view self [1]) (Some [3, 4])" by (simp add: s(3) overwrite_ok_def e)
  then obtain self' where s': "insert_node (new_from_record (rec_of [1] (Some [3, 4]))) self = Some self'"
    using memtable.put_admitted [OF s(1) fits(2)] by blast
  have "mt_view self [1] = Some None" by (simp add: s(3))
  from rewritten_tombstone_reads_deleted [OF s(1,2) fits(2) this s'] this s' show ?thesis
    by (intro exI [of _ self] exI [of _ self']) simp
qed

section \<open>Writing\<close>

text \<open>
  C17: on a full table \<^verbatim>\<open>insert_data_record\<close> and \<^verbatim>\<open>insert_tombstone_record\<close> hand the request back and
  do nothing else; otherwise they never report an error, log the record before they store it, and
  panic only on an overwrite that cannot be done in place.
\<close>

theorem write_outcomes:
  assumes "mt_inv self" and "rec_fits k p"
  shows "case write_entry env k p self of
      Some (Inl e) \<Rightarrow> full self \<and> e = TableFull k p
    | Some (Inr self') \<Rightarrow> \<not> full self \<and> mt_inv self' \<and> mt_view self' = (mt_view self)(k \<mapsto> p) \<and>
        mt_wal self' = write_log env (enc_blob k p) (mt_wal self)
    | None \<Rightarrow> \<not> full self \<and> \<not> may_replace k (mt_view self k) p"
proof (cases "full self")
  case True
  then show ?thesis by (simp add: write_entry_full)
next
  case False
  let ?s = "self\<lparr>mt_wal := write_log env (enc_blob k p) (mt_wal self)\<rparr>"
  have "mt_inv ?s" using assms(1) by simp
  from this assms(2) show ?thesis
  proof (cases rule: memtable.put_cases)
    case panic
    then show ?thesis using False by (simp add: write_entry_unfold [OF assms(2)])
  next
    case (stored s')
    then show ?thesis
      using False insert_node_keeps_wal [OF stored(2)] by (simp add: write_entry_unfold [OF assms(2)])
  qed
qed

theorem write_outcomes_witness:
  "write_entry \<lparr>env_write = (\<lambda>_ b. Inr (length b)), env_now_check = 5, env_now_flush = 5\<rparr> [1] None
     (memtable_new 100 0 (wal_new 0 ''w'')) = Some (Inl (TableFull [1] None)) \<and>
   (case write_entry \<lparr>env_write = (\<lambda>_ b. Inr (length b)), env_now_check = 5, env_now_flush = 5\<rparr> [1] None
     (memtable_new 100 4 (wal_new 0 ''w'')) of Some (Inr self') \<Rightarrow> mt_view self' = [[1] \<mapsto> None] | _ \<Rightarrow> False)"
proof -
  have "enc_blob [1] None = [1, 2, 1, 1]" by code_simp
  then have fits: "rec_fits [1] None" by (simp add: rec_fits_def)
  note w = write_outcomes [OF _ fits, of "memtable_new 100 n (wal_new 0 ''w'')"
      "\<lparr>env_write = (\<lambda>_ b. Inr (length b)), env_now_check = 5, env_now_flush = 5\<rparr>" for n]
  have "full (memtable_new 100 0 (wal_new 0 ''w''))" "\<not> full (memtable_new 100 4 (wal_new 0 ''w''))"
    by (simp_all add: full_def memtable_new_def)
  then show ?thesis using w [of 0] w [of 4] by (auto split: option.splits sum.splits)
qed

text \<open>
  C16: after any sequence of accepted writes the table holds the last payload written for each key,
  has exactly one arena slot per distinct key, and never more slots than it was created with.
\<close>

theorem history_contents:
  assumes "written max_size max_nodes w0 kps self"
  shows "mt_inv self \<and> mt_view self = map_of (rev kps) \<and>
    length (mt_arena self) = card (fst ` set kps) \<and> length (mt_arena self) \<le> max_nodes"
proof -
  note v = written_view [OF assms]
  have card: "length (mt_arena self) = card (fst ` set kps)"
    using mt_inv_size [OF v(1)] v(2) by (simp add: dom_last_writes)
  show ?thesis using v card written_capacity [OF assms] by (simp add: last_writes_def)
qed

theorem history_contents_witness:
  "\<exists>self. written 100 4 (wal_new 0 ''w'') [([1], Some [2]), ([3], None)] self \<and>
     length (mt_arena self) = 2 \<and> mt_view self [3] = Some None"
proof -
  have "enc_blob [1] (Some [2]) = [0, 4, 1, 1, 1, 2]" "enc_blob [3] None = [1, 2, 1, 3]" by code_simp+
  then have fits: "rec_fits [1] (Some [2])" "rec_fits [3] None" by (simp_all add: rec_fits_def)
  obtain self where "written 100 4 (wal_new 0 ''w'') [([1], Some [2]), ([3], None)] self"
    by (rule two_writes [OF fits]) simp
  then show ?thesis using history_contents by fastforce
qed

section \<open>Recovery\<close>

text \<open>
  C13: when every logged record has reached the log file, \<^verbatim>\<open>from_wal\<close> rebuilds exactly the table that
  wrote the log (same tree, same records, same counters) on top of the new, empty log, and deletes the
  old log.
\<close>

theorem recovery_exact:
  assumes "written max_size max_nodes (wal_new now name) kps self"
    and "length (wal_contents (mt_wal self)) < 2 ^ 63"
    and "re_file env = Inr (wal_contents (mt_wal self))" "re_new_wal env = Inr w" "re_remove env = Inr ()"
  shows "from_wal env max_size max_nodes = Some (Inr (self\<lparr>mt_wal := w\<rparr>), True)"
proof -
  have "wal_contents (mt_wal self) = enc_blobs kps"
    using written_log [OF assms(1)] by (auto simp: wal_contents_def)
  then show ?thesis using from_wal_written [OF assms(1)] assms(2-5) by simp
qed

theorem recovery_exact_witness:
  "\<exists>self. written 100 4 (wal_new 0 ''w'') [([1], Some [2]), ([3], None)] self \<and>
     from_wal \<lparr>re_file = Inr (wal_contents (mt_wal self)), re_new_wal = Inr (wal_new 9 ''v''), re_remove = Inr ()\<rparr> 100 4
       = Some (Inr (self\<lparr>mt_wal := wal_new 9 ''v''\<rparr>), True)"
proof -
  have e: "enc_blob [1] (Some [2]) = [0, 4, 1, 1, 1, 2]" "enc_blob [3] None = [1, 2, 1, 3]" by code_simp+
  then have fits: "rec_fits [1] (Some [2])" "rec_fits [3] None" by (simp_all add: rec_fits_def)
  obtain self where w: "written 100 4 (wal_new 0 ''w'') [([1], Some [2]), ([3], None)] self"
    and log: "f_data (wal_fd (mt_wal self)) = enc_blob [1] (Some [2])" "wal_buffer (mt_wal self) = enc_blob [3] None"
    by (rule two_writes [OF fits]) simp
  have len: "length (wal_contents (mt_wal self)) < 2 ^ 63" by (simp add: wal_contents_def log e)
  let ?env = "\<lparr>re_file = Inr (wal_contents (mt_wal self)), re_new_wal = Inr (wal_new 9 ''v''), re_remove = Inr ()\<rparr>"
  have "from_wal ?env 100 4 = Some (Inr (self\<lparr>mt_wal := wal_new 9 ''v''\<rparr>), True)"
    by (rule recovery_exact [OF w len]) simp_all
  with w show ?thesis by blast
qed

text \<open>
  C12: whenever the process stops, the log file holds a prefix of the writes, cut between two
  records; \<^verbatim>\<open>from_wal\<close> succeeds on it and yields the table as it was after that prefix, with the
  old log deleted.  The writes
  that are lost are exactly those still in the log buffer, and the newest write is always one of
  them.
\<close>

theorem recovery_prefix:
  assumes "written max_size max_nodes (wal_new now name) kps self"
    and "length (wal_contents (mt_wal self)) < 2 ^ 63"
    and "re_file env = Inr (f_data (wal_fd (mt_wal self)))" "re_new_wal env = Inr w" "re_remove env = Inr ()"
  shows "\<exists>kps1 kps2 self1. kps = kps1 @ kps2 \<and> enc_blobs kps2 = wal_buffer (mt_wal self) \<and>
    (kps \<noteq> [] \<longrightarrow> kps2 \<noteq> []) \<and> written max_size max_nodes (wal_new now name) kps1 self1 \<and>
    from_wal env max_size max_nodes = Some (Inr (self1\<lparr>mt_wal := w\<rparr>), True)"
proof -
  obtain kps1 kps2 where log: "kps = kps1 @ kps2" "f_data (wal_fd (mt_wal self)) = enc_blobs kps1"
    "wal_buffer (mt_wal self) = enc_blobs kps2"
    using written_log [OF assms(1)] by blast
  obtain self1 where s1: "written max_size max_nodes (wal_new now name) kps1 self1"
    using written_prefix [OF assms(1) log(1)] by blast
  have "length (enc_blobs kps1) < 2 ^ 63" using assms(2) log by (simp add: wal_contents_def)
  from from_wal_written [OF s1 this] assms(3-5) log(2)
  have "from_wal env max_size max_nodes = Some (Inr (self1\<lparr>mt_wal := w\<rparr>), True)" by simp
  moreover have "kps \<noteq> [] \<longrightarrow> kps2 \<noteq> []"
    using written_buffered [OF assms(1)] log(3) by auto
  ultimately show ?thesis using log s1 by auto
qed

theorem recovery_prefix_witness:
  "\<exists>self t. written 100 4 (wal_new 0 ''w'') [([1], Some [2]), ([3], None)] self \<and>
     from_wal \<lparr>re_file = Inr (f_data (wal_fd (mt_wal self))), re_new_wal = Inr (wal_new 9 ''v''), re_remove = Inr ()\<rparr> 100 4
       = Some (Inr t, True) \<and> mt_view t = [[1] \<mapsto> Some [2]]"
proof -
  have e: "enc_blob [1] (Some [2]) = [0, 4, 1, 1, 1, 2]" "enc_blob [3] None = [1, 2, 1, 3]" by code_simp+
  then have fits: "rec_fits [1] (Some [2])" "rec_fits [3] None" by (simp_all add: rec_fits_def)
  obtain self where w: "written 100 4 (wal_new 0 ''w'') [([1], Some [2]), ([3], None)] self"
    and log: "f_data (wal_fd (mt_wal self)) = enc_blob [1] (Some [2])" "wal_buffer (mt_wal self) = enc_blob [3] None"
    by (rule two_writes [OF fits]) simp
  let ?env = "\<lparr>re_file = Inr (f_data (wal_fd (mt_wal self))), re_new_wal = Inr (wal_new 9 ''v''), re_remove = Inr ()\<rparr>"
  have "length (wal_contents (mt_wal self)) < 2 ^ 63" by (simp add: wal_contents_def log e)
  from recovery_prefix [OF w this, of ?env] obtain kps1 kps2 self1 where
    r: "[([1], Some [2]), ([3], None)] = kps1 @ kps2" "enc_blobs kps2 = enc_blob [3] None"
    "written 100 4 (wal_new 0 ''w'') kps1 self1" "from_wal ?env 100 4 = Some (Inr (self1\<lparr>mt_wal := wal_new 9 ''v''\<rparr>), True)"
    by (auto simp: log)
  have "kps1 = [([1], Some [2])]"
    using r(1,2) by (auto simp: Cons_eq_append_conv e)
  then have "mt_view self1 = [[1] \<mapsto> Some [2]]" using written_view(2) [OF r(3)] by (simp add: last_writes_def)
  then show ?thesis using w r(4) by auto
qed

text \<open>
  C21: recovery from a log that breaks off inside a record panics, whatever the limits of the table:
  a half-written log makes the restart fail.
\<close>

theorem recovery_torn_log_panics:
  assumes "re_file env = Inr (enc_blobs kps @ take j (enc_blob k p))" "0 < j" "j < length (enc_blob k p)"
    and "length (enc_blobs kps) + length (enc_blob k p) < 2 ^ 63" and "re_new_wal env = Inr w"
  shows "from_wal env max_size max_nodes = None"
proof -
  let ?it = "wal_iterator_new (enc_blobs kps @ take j (enc_blob k p))"
  have "\<not> yields wal_next ?it rs" for rs
    by (rule wal_iter.torn_not_yields [of _ "[]" kps j k p])
      (use assms in \<open>simp_all add: wal_iterator_new_def\<close>)
  then have "replay_loop ?it t = None" for t
    using replay_loop_yields [of ?it t] by (cases "replay_loop ?it t") auto
  then show ?thesis using assms by (simp add: from_wal_def memtable_inner_new_def)
qed

theorem recovery_torn_log_panics_witness:
  "from_wal \<lparr>re_file = Inr [0, 4, 1, 1, 1, 2, 1, 2], re_new_wal = Inr (wal_new 9 ''v''), re_remove = Inr ()\<rparr> 100 4 = None"
proof -
  have e: "enc_blob [1] (Some [2]) = [0, 4, 1, 1, 1, 2]" "enc_blob [3] None = [1, 2, 1, 3]" by code_simp+
  show ?thesis by (rule recovery_torn_log_panics [where kps = "[([1], Some [2])]" and j = 2 and k = "[3]" and p = None])
      (simp_all add: e)
qed

end
