(* ===== verification/Trie.thy ===== *)
theory Trie
  imports Varint "HOL-Library.Sublist"
begin

text \<open>
  The SSTable index of \<^verbatim>\<open>src/ssindex/trie.rs\<close>: a trie in a flat arena of nodes, from keys to file
  offsets.  Children are kept sorted by byte and found by the binary search of the standard library.
\<close>

section \<open>Definitions\<close>

definition WORD_END_FLAG :: u64 where "WORD_END_FLAG = push_bit 63 1"
definition OFFSET_MASK :: u64 where "OFFSET_MASK = NOT (push_bit 63 1)"
definition UNMARKED_FLAG :: u64 where "UNMARKED_FLAG = 0"
definition SIZE_PER_CHILD_NODE :: nat where "SIZE_PER_CHILD_NODE = 5"
definition TRIE_NODE_HEADER_SIZE :: nat where "TRIE_NODE_HEADER_SIZE = 9"
definition TRIE_HEADER_SIZE :: nat where "TRIE_HEADER_SIZE = 4"

type_synonym TriePointer = "u8 \<times> u32"

record TrieNode =
  tn_offset :: u64
  tn_children :: "TriePointer list"

record Trie =
  tr_arena :: "TrieNode list"

definition trie_node_default :: TrieNode where
  "trie_node_default = \<lparr>tn_offset = UNMARKED_FLAG, tn_children = []\<rparr>"

text \<open>
  \<^verbatim>\<open>slice::binary_search_by\<close> of the standard library: \<open>Inr i\<close> is \<^verbatim>\<open>Ok(i)\<close>, \<open>Inl i\<close> is \<^verbatim>\<open>Err(i)\<close>, the
  position where the element could be inserted.
\<close>

function binary_search_loop :: "('a \<Rightarrow> ordering) \<Rightarrow> 'a list \<Rightarrow> nat \<Rightarrow> nat \<Rightarrow> nat" where
  "binary_search_loop f xs base sz =
     (if 1 < sz
      then (let half = sz div 2; mid = base + half
            in binary_search_loop f xs (if f (xs ! mid) = Greater then base else mid) (sz - half))
      else base)"
  by pat_completeness auto
termination
  by (relation "measure (\<lambda>(f, xs, base, sz). sz)") auto

declare binary_search_loop.simps [simp del]

definition binary_search_by :: "('a \<Rightarrow> ordering) \<Rightarrow> 'a list \<Rightarrow> nat + nat" where
  "binary_search_by f xs =
     (if xs = [] then Inl 0
      else let base = binary_search_loop f xs 0 (length xs)
           in (case f (xs ! base) of
                 Equal \<Rightarrow> Inr base
               | Less \<Rightarrow> Inl (base + 1)
               | Greater \<Rightarrow> Inl base))"

definition set_offset :: "u64 \<Rightarrow> TrieNode \<Rightarrow> TrieNode" where
  "set_offset offset self = self\<lparr>tn_offset := offset OR WORD_END_FLAG\<rparr>"

definition get_offset :: "TrieNode \<Rightarrow> u64 option" where
  "get_offset self =
     (if tn_offset self = UNMARKED_FLAG then None else Some (tn_offset self AND OFFSET_MASK))"

definition get_child_idx :: "u8 \<Rightarrow> TrieNode \<Rightarrow> (nat + nat) option" where
  "get_child_idx c self =
     (case binary_search_by (\<lambda>child. cmp (fst child) c) (tn_children self) of
        Inl e \<Rightarrow> Some (Inl e)
      | Inr child_idx \<Rightarrow> do {
          child \<leftarrow> vec_get (tn_children self) child_idx;
          Some (Inr (unat (snd child)))
        })"

definition insert_child :: "nat \<Rightarrow> u8 \<Rightarrow> u32 \<Rightarrow> TrieNode \<Rightarrow> TrieNode option" where
  "insert_child pos c idx self =
     (if pos \<le> length (tn_children self)
      then Some (self\<lparr>tn_children := take pos (tn_children self) @ (c, idx) # drop pos (tn_children self)\<rparr>)
      else None)"

definition trie_new :: "nat \<Rightarrow> Trie" where
  "trie_new capacity = \<lparr>tr_arena = []\<rparr>"

text \<open>\<^verbatim>\<open>child_idx as u32\<close> truncates; the conversion is written out.\<close>

definition get_or_insert_node :: "nat \<Rightarrow> u8 \<Rightarrow> Trie \<Rightarrow> (nat \<times> Trie) option" where
  "get_or_insert_node arena_idx c self = do {
     node \<leftarrow> vec_get (tr_arena self) arena_idx;
     r \<leftarrow> get_child_idx c node;
     case r of
       Inr child_idx \<Rightarrow> Some (child_idx, self)
     | Inl child_insert \<Rightarrow> do {
         let child_idx = length (tr_arena self);
         let self = self\<lparr>tr_arena := tr_arena self @ [trie_node_default]\<rparr>;
         node \<leftarrow> vec_get (tr_arena self) arena_idx;
         node \<leftarrow> insert_child child_insert c (of_nat child_idx) node;
         Some (child_idx, self\<lparr>tr_arena := (tr_arena self)[arena_idx := node]\<rparr>)
       }
   }"

primrec trie_insert_loop :: "bytes \<Rightarrow> nat \<Rightarrow> Trie \<Rightarrow> (nat \<times> Trie) option" where
  "trie_insert_loop [] arena_idx self = Some (arena_idx, self)"
| "trie_insert_loop (c # cs) arena_idx self = do {
     (arena_idx, self) \<leftarrow> get_or_insert_node arena_idx c self;
     trie_insert_loop cs arena_idx self
   }"

definition trie_insert :: "bytes \<Rightarrow> u64 \<Rightarrow> Trie \<Rightarrow> Trie option" where
  "trie_insert key offset self = do {
     let self = (if tr_arena self = [] then self\<lparr>tr_arena := [trie_node_default]\<rparr> else self);
     (arena_idx, self) \<leftarrow> trie_insert_loop key 0 self;
     node \<leftarrow> vec_get (tr_arena self) arena_idx;
     Some (self\<lparr>tr_arena := (tr_arena self)[arena_idx := set_offset offset node]\<rparr>)
   }"

text \<open>The outer option is the panic, the inner one the result of \<^verbatim>\<open>get\<close>.\<close>

primrec trie_get_loop :: "bytes \<Rightarrow> nat \<Rightarrow> Trie \<Rightarrow> nat option option" where
  "trie_get_loop [] arena_idx self = Some (Some arena_idx)"
| "trie_get_loop (c # cs) arena_idx self = do {
     node \<leftarrow> vec_get (tr_arena self) arena_idx;
     r \<leftarrow> get_child_idx c node;
     case r of
       Inl _ \<Rightarrow> Some None
     | Inr idx \<Rightarrow> trie_get_loop cs idx self
   }"

definition trie_get :: "bytes \<Rightarrow> Trie \<Rightarrow> u64 option option" where
  "trie_get key self =
     (if tr_arena self = [] then Some None
      else do {
        r \<leftarrow> trie_get_loop key 0 self;
        case r of
          None \<Rightarrow> Some None
        | Some arena_idx \<Rightarrow> do {
            node \<leftarrow> vec_get (tr_arena self) arena_idx;
            Some (get_offset node)
          }
      })"

section \<open>Binary search\<close>

text \<open>The comparison function splits the list: smaller elements first, then equal, then greater.\<close>

definition search_sorted :: "('a \<Rightarrow> ordering) \<Rightarrow> 'a list \<Rightarrow> bool" where
  "search_sorted f xs \<longleftrightarrow>
     (\<forall>i j. i < j \<longrightarrow> j < length xs \<longrightarrow> (f (xs ! j) = Less \<longrightarrow> f (xs ! i) = Less) \<and>
        (f (xs ! i) = Greater \<longrightarrow> f (xs ! j) = Greater))"

lemma binary_search_loop_range:
  "0 < sz \<Longrightarrow> base + sz \<le> length xs \<Longrightarrow>
   base \<le> binary_search_loop f xs base sz \<and> binary_search_loop f xs base sz < length xs"
proof (induction f xs base sz rule: binary_search_loop.induct)
  case (1 f xs base sz)
  show ?case
  proof (cases "1 < sz")
    case True
    let ?half = "sz div 2" and ?b = "if f (xs ! (base + sz div 2)) = Greater then base else base + sz div 2"
    have "?b \<le> binary_search_loop f xs ?b (sz - ?half) \<and> binary_search_loop f xs ?b (sz - ?half) < length xs"
      using "1.IH" [OF True refl refl] "1.prems" True by auto
    then show ?thesis using True by (subst (1 2) binary_search_loop.simps) (auto simp: Let_def split: if_splits)
  next
    case False
    then show ?thesis using "1.prems" by (subst (1 2) binary_search_loop.simps) auto
  qed
qed

text \<open>
  The loop invariant: everything left of \<open>base\<close> is at most the target, everything right of the
  window is greater.
\<close>

lemma binary_search_loop_inv:
  "search_sorted f xs \<Longrightarrow> 0 < sz \<Longrightarrow> base + sz \<le> length xs \<Longrightarrow>
   (0 < base \<longrightarrow> f (xs ! base) \<noteq> Greater) \<Longrightarrow>
   (\<forall>i. base + sz \<le> i \<longrightarrow> i < length xs \<longrightarrow> f (xs ! i) = Greater) \<Longrightarrow>
   b = binary_search_loop f xs base sz \<Longrightarrow>
   (0 < b \<longrightarrow> f (xs ! b) \<noteq> Greater) \<and> (\<forall>i. b < i \<longrightarrow> i < length xs \<longrightarrow> f (xs ! i) = Greater)"
proof (induction f xs base sz arbitrary: b rule: binary_search_loop.induct)
  case (1 f xs base sz)
  show ?case
  proof (cases "1 < sz")
    case True
    let ?mid = "base + sz div 2"
    let ?b = "if f (xs ! ?mid) = Greater then base else ?mid"
    have mid: "?mid < length xs" using "1.prems"(3) True by linarith
    have right: "\<forall>i. ?b + (sz - sz div 2) \<le> i \<longrightarrow> i < length xs \<longrightarrow> f (xs ! i) = Greater"
    proof (cases "f (xs ! ?mid) = Greater")
      case G: True
      show ?thesis
      proof (intro allI impI)
        fix i assume i: "?b + (sz - sz div 2) \<le> i" "i < length xs"
        then have "?mid \<le> i" using G True by simp
        show "f (xs ! i) = Greater"
        proof (cases "i = ?mid")
          case False
          then have "?mid < i" using \<open>?mid \<le> i\<close> by simp
          then show ?thesis using G i(2) "1.prems"(1) unfolding search_sorted_def by blast
        qed (simp add: G)
      qed
    next
      case False
      then show ?thesis using "1.prems"(5) by simp
    qed
    have b: "b = binary_search_loop f xs ?b (sz - sz div 2)"
      unfolding "1.prems"(6) using True by (subst binary_search_loop.simps) (simp add: Let_def)
    have pos: "0 < sz - sz div 2" and le: "?b + (sz - sz div 2) \<le> length xs"
      using "1.prems"(3) True by auto
    have left: "0 < ?b \<longrightarrow> f (xs ! ?b) \<noteq> Greater" using "1.prems"(4) by simp
    show ?thesis by (rule "1.IH" [OF True refl refl "1.prems"(1) pos le left right b])
  next
    case False
    then have "sz = 1" using "1.prems"(2) by simp
    moreover from this have "b = base" unfolding "1.prems"(6) by (subst binary_search_loop.simps) simp
    ultimately show ?thesis using "1.prems"(4,5) by simp
  qed
qed

lemma binary_search_by_correct:
  assumes "search_sorted f xs"
  shows "binary_search_by f xs = Inr i \<Longrightarrow> i < length xs \<and> f (xs ! i) = Equal"
    and "binary_search_by f xs = Inl i \<Longrightarrow> i \<le> length xs \<and> (\<forall>j < i. f (xs ! j) = Less) \<and>
           (\<forall>j. i \<le> j \<longrightarrow> j < length xs \<longrightarrow> f (xs ! j) = Greater)"
proof -
  let ?b = "binary_search_loop f xs 0 (length xs)"
  have range: "xs \<noteq> [] \<Longrightarrow> ?b < length xs" using binary_search_loop_range [of "length xs" 0 xs f] by simp
  have inv: "xs \<noteq> [] \<Longrightarrow> (0 < ?b \<longrightarrow> f (xs ! ?b) \<noteq> Greater) \<and> (\<forall>i. ?b < i \<longrightarrow> i < length xs \<longrightarrow> f (xs ! i) = Greater)"
    by (rule binary_search_loop_inv [OF assms, of "length xs" 0]) auto
  show "binary_search_by f xs = Inr i \<Longrightarrow> i < length xs \<and> f (xs ! i) = Equal"
    using range by (auto simp: binary_search_by_def Let_def split: if_splits ordering.splits)
  assume r: "binary_search_by f xs = Inl i"
  show "i \<le> length xs \<and> (\<forall>j < i. f (xs ! j) = Less) \<and> (\<forall>j. i \<le> j \<longrightarrow> j < length xs \<longrightarrow> f (xs ! j) = Greater)"
  proof (cases "xs = []")
    case True
    then show ?thesis using r by (simp add: binary_search_by_def)
  next
    case False
    show ?thesis
    proof (cases "f (xs ! ?b)")
      case Less
      then have i: "i = ?b + 1" using r False by (simp add: binary_search_by_def Let_def)
      have "f (xs ! j) = Less" if "j < i" for j
      proof (cases "j = ?b")
        case False
        then have "j < ?b" using that i by simp
        then show ?thesis using Less assms range [OF \<open>xs \<noteq> []\<close>] unfolding search_sorted_def by blast
      qed (simp add: Less)
      then show ?thesis using i range [OF False] inv [OF False] by auto
    next
      case Equal
      then show ?thesis using r False by (simp add: binary_search_by_def Let_def)
    next
      case Greater
      then have "i = ?b" "?b = 0" using r False inv [OF False] by (auto simp: binary_search_by_def Let_def)
      moreover have "f (xs ! j) = Greater" if "j < length xs" for j
        using that Greater inv [OF False] \<open>?b = 0\<close> by (cases "j = 0") simp_all
      ultimately show ?thesis by simp
    qed
  qed
qed

section \<open>Children\<close>

definition children_sorted :: "TrieNode \<Rightarrow> bool" where
  "children_sorted node \<longleftrightarrow> sorted_wrt (\<lambda>a b. fst a < fst b) (tn_children node)"

lemma search_sorted_children:
  "children_sorted node \<Longrightarrow> search_sorted (\<lambda>child. cmp (fst child) c) (tn_children node)"
  unfolding search_sorted_def children_sorted_def
  by (auto dest: sorted_wrt_nth_less intro: less_trans)

lemma children_sorted_distinct: "children_sorted node \<Longrightarrow> distinct (map fst (tn_children node))"
  using strict_sorted_iff [of "map fst (tn_children node)"]
  by (simp add: children_sorted_def sorted_wrt_map)

lemma get_child_idx_cases:
  assumes "children_sorted node"
  obtains (found) w where "get_child_idx c node = Some (Inr (unat w))" "map_of (tn_children node) c = Some w"
    | (absent) pos where "get_child_idx c node = Some (Inl pos)" "map_of (tn_children node) c = None"
      "pos \<le> length (tn_children node)" "\<forall>x \<in> set (take pos (tn_children node)). fst x < c"
      "\<forall>x \<in> set (drop pos (tn_children node)). c < fst x"
proof (cases "binary_search_by (\<lambda>child. cmp (fst child) c) (tn_children node)")
  case (Inr i)
  let ?xs = "tn_children node"
  have i: "i < length ?xs" "fst (?xs ! i) = c"
    using binary_search_by_correct(1) [OF search_sorted_children [OF assms] Inr] by simp_all
  then have "(c, snd (?xs ! i)) \<in> set ?xs" using nth_mem [OF i(1)] by (cases "?xs ! i") simp
  then have "map_of ?xs c = Some (snd (?xs ! i))" using children_sorted_distinct [OF assms] by simp
  moreover have "get_child_idx c node = Some (Inr (unat (snd (?xs ! i))))"
    using Inr i by (simp add: get_child_idx_def)
  ultimately show thesis using found by blast
next
  case (Inl pos)
  let ?xs = "tn_children node"
  have p: "pos \<le> length ?xs" "\<forall>j < pos. fst (?xs ! j) < c" "\<forall>j. pos \<le> j \<longrightarrow> j < length ?xs \<longrightarrow> c < fst (?xs ! j)"
    using binary_search_by_correct(2) [OF search_sorted_children [OF assms] Inl] by simp_all
  have t: "\<forall>x \<in> set (take pos ?xs). fst x < c" using p(1,2) by (fastforce simp: in_set_conv_nth)
  have d: "\<forall>x \<in> set (drop pos ?xs). c < fst x"
  proof
    fix x assume "x \<in> set (drop pos ?xs)"
    then obtain i where "i < length ?xs - pos" "x = ?xs ! (pos + i)" by (auto simp: in_set_conv_nth)
    then show "c < fst x" using p(3) by simp
  qed
  have "c \<notin> fst ` set (take pos ?xs @ drop pos ?xs)"
    unfolding set_append image_Un using t d by (auto simp del: append_take_drop_id)
  then have "map_of ?xs c = None" by (simp add: map_of_eq_None_iff)
  moreover have "get_child_idx c node = Some (Inl pos)" using Inl by (simp add: get_child_idx_def)
  ultimately show thesis using absent p(1) t d by blast
qed

lemma insert_child_correct:
  assumes "children_sorted node" "pos \<le> length (tn_children node)"
    "\<forall>x \<in> set (take pos (tn_children node)). fst x < c" "\<forall>x \<in> set (drop pos (tn_children node)). c < fst x"
  obtains node' where "insert_child pos c w node = Some node'" "children_sorted node'"
    "tn_offset node' = tn_offset node" "map_of (tn_children node') = (map_of (tn_children node))(c \<mapsto> w)"
    "set (tn_children node') = insert (c, w) (set (tn_children node))"
proof -
  let ?xs = "tn_children node"
  let ?n = "node\<lparr>tn_children := take pos ?xs @ (c, w) # drop pos ?xs\<rparr>"
  have xs: "?xs = take pos ?xs @ drop pos ?xs" by simp
  have "sorted_wrt (\<lambda>a b. fst a < fst b) (take pos ?xs @ drop pos ?xs)"
    using assms(1) by (simp add: children_sorted_def)
  then have "children_sorted ?n"
    using assms(3,4) by (auto simp: children_sorted_def sorted_wrt_append simp del: append_take_drop_id)
  moreover have "map_of (take pos ?xs @ (c, w) # drop pos ?xs) = (map_of (take pos ?xs @ drop pos ?xs))(c \<mapsto> w)"
  proof -
    have "map_of (take pos ?xs) c = None" using assms(3) by (auto simp: map_of_eq_None_iff)
    then show ?thesis by (auto simp: fun_eq_iff map_add_def simp del: append_take_drop_id split: option.split)
  qed
  moreover have "set (take pos ?xs @ (c, w) # drop pos ?xs) = insert (c, w) (set (take pos ?xs @ drop pos ?xs))"
    by (simp del: append_take_drop_id)
  ultimately show thesis
    using that [of ?n] assms(2) by (simp add: insert_child_def)
qed

section \<open>The trie as a tree of paths\<close>

text \<open>\<open>edge A i c\<close> is the child of node \<open>i\<close> for byte \<open>c\<close>, \<open>walk A i k\<close> the node reached by key \<open>k\<close>.\<close>

definition edge :: "TrieNode list \<Rightarrow> nat \<Rightarrow> u8 \<Rightarrow> nat option" where
  "edge A i c = (if i < length A then map_option unat (map_of (tn_children (A ! i)) c) else None)"

primrec walk :: "TrieNode list \<Rightarrow> nat \<Rightarrow> bytes \<Rightarrow> nat option" where
  "walk A i [] = Some i"
| "walk A i (c # cs) = (case edge A i c of None \<Rightarrow> None | Some j \<Rightarrow> walk A j cs)"

text \<open>
  The invariant: sorted children, edges lead to later nodes (so there are no cycles and nothing leads
  to the root), and every node has at most one incoming edge.
\<close>

definition trie_inv :: "TrieNode list \<Rightarrow> bool" where
  "trie_inv A \<longleftrightarrow> (\<forall>node \<in> set A. children_sorted node) \<and>
     (\<forall>i c j. edge A i c = Some j \<longrightarrow> i < j \<and> j < length A) \<and>
     (\<forall>i c i' c' j. edge A i c = Some j \<longrightarrow> edge A i' c' = Some j \<longrightarrow> i = i' \<and> c = c')"

definition trie_view :: "TrieNode list \<Rightarrow> bytes \<rightharpoonup> u64" where
  "trie_view A k = (if A = [] then None else case walk A 0 k of None \<Rightarrow> None | Some j \<Rightarrow> get_offset (A ! j))"

lemma trie_inv_sorted: "trie_inv A \<Longrightarrow> i < length A \<Longrightarrow> children_sorted (A ! i)"
  by (simp add: trie_inv_def)

lemma trie_inv_edge: "trie_inv A \<Longrightarrow> edge A i c = Some j \<Longrightarrow> i < j \<and> j < length A"
  by (simp add: trie_inv_def)

lemma trie_inv_unique: "trie_inv A \<Longrightarrow> edge A i c = Some j \<Longrightarrow> edge A i' c' = Some j \<Longrightarrow> i = i' \<and> c = c'"
  unfolding trie_inv_def by blast

lemma walk_append: "walk A i (xs @ ys) = (case walk A i xs of None \<Rightarrow> None | Some j \<Rightarrow> walk A j ys)"
  by (induction xs arbitrary: i) (auto split: option.split)

lemma walk_bound: "trie_inv A \<Longrightarrow> i < length A \<Longrightarrow> walk A i k = Some j \<Longrightarrow> i \<le> j \<and> j < length A"
proof (induction k arbitrary: i)
  case Nil
  then show ?case by simp
next
  case (Cons c k)
  then obtain m where m: "edge A i c = Some m" "walk A m k = Some j" by (auto split: option.splits)
  from trie_inv_edge [OF Cons.prems(1) m(1)] Cons.IH [OF Cons.prems(1) _ m(2)] show ?case by simp
qed

text \<open>Different keys lead to different nodes.\<close>

lemma walk_inj:
  "trie_inv A \<Longrightarrow> A \<noteq> [] \<Longrightarrow> walk A 0 k = Some j \<Longrightarrow> walk A 0 k' = Some j \<Longrightarrow> k = k'"
proof (induction k arbitrary: k' j rule: rev_induct)
  case Nil
  then have j: "j = 0" by simp
  show ?case
  proof (cases k' rule: rev_cases)
    case (snoc ys y)
    then obtain m where "edge A m y = Some 0" using Nil.prems(4) j by (auto simp: walk_append split: option.splits)
    then show ?thesis using trie_inv_edge [OF Nil.prems(1)] by blast
  qed simp
next
  case (snoc c k)
  then obtain m where m: "walk A 0 k = Some m" "edge A m c = Some j" by (auto simp: walk_append split: option.splits)
  show ?case
  proof (cases k' rule: rev_cases)
    case Nil
    then have "j = 0" using snoc.prems(4) by simp
    then show ?thesis using m(2) trie_inv_edge [OF snoc.prems(1)] by blast
  next
    case k': (snoc ys y)
    then obtain m' where m': "walk A 0 ys = Some m'" "edge A m' y = Some j"
      using snoc.prems(4) by (auto simp: walk_append split: option.splits)
    from trie_inv_unique [OF snoc.prems(1) m(2) m'(2)] snoc.IH [OF snoc.prems(1,2) m(1)] m' k' show ?thesis by auto
  qed
qed

section \<open>Lookup\<close>

lemma trie_get_loop_walk:
  "trie_inv (tr_arena t) \<Longrightarrow> i < length (tr_arena t) \<Longrightarrow> trie_get_loop k i t = Some (walk (tr_arena t) i k)"
proof (induction k arbitrary: i)
  case Nil
  then show ?case by simp
next
  case (Cons c k)
  from trie_inv_sorted [OF Cons.prems] show ?case
  proof (cases rule: get_child_idx_cases [where c = c])
    case (found w)
    then have e: "edge (tr_arena t) i c = Some (unat w)" using Cons.prems(2) by (simp add: edge_def)
    then show ?thesis using found Cons.prems Cons.IH trie_inv_edge [OF Cons.prems(1) e] by simp
  next
    case (absent pos)
    then show ?thesis using Cons.prems(2) by (simp add: edge_def)
  qed
qed

lemma trie_get_view:
  assumes "trie_inv (tr_arena t)"
  shows "trie_get k t = Some (trie_view (tr_arena t) k)"
proof (cases "tr_arena t = []")
  case True
  then show ?thesis by (simp add: trie_get_def trie_view_def)
next
  case False
  then have "0 < length (tr_arena t)" by simp
  then show ?thesis
    using trie_get_loop_walk [OF assms] walk_bound [OF assms, of 0 k] False
    by (cases "walk (tr_arena t) 0 k") (auto simp: trie_get_def trie_view_def)
qed

section \<open>Insertion\<close>

text \<open>\<open>extends A A' i c\<close>: \<open>A'\<close> is \<open>A\<close> with one fresh, empty node at the end of a new edge from \<open>i\<close> for \<open>c\<close>.\<close>

definition extends :: "TrieNode list \<Rightarrow> TrieNode list \<Rightarrow> nat \<Rightarrow> u8 \<Rightarrow> bool" where
  "extends A A' i c \<longleftrightarrow> length A' = Suc (length A) \<and> i < length A \<and> edge A i c = None \<and>
     A' ! length A = trie_node_default \<and> (\<forall>m < length A. tn_offset (A' ! m) = tn_offset (A ! m)) \<and>
     (\<forall>m d. edge A' m d = (if m = i \<and> d = c then Some (length A) else edge A m d))"

lemma extends_walk:
  assumes "extends A A' i c" and inv: "trie_inv A"
  shows "m < length A \<Longrightarrow> walk A' m k = walk A m k \<or> (walk A m k = None \<and> walk A' m k = Some (length A))"
proof (induction k arbitrary: m)
  case Nil
  then show ?case by simp
next
  case (Cons d k)
  have e: "edge A' m d = (if m = i \<and> d = c then Some (length A) else edge A m d)"
    and none: "edge A i c = None" using assms(1) by (auto simp: extends_def)
  show ?case
  proof (cases "m = i \<and> d = c")
    case True
    have "walk A' (length A) k = (if k = [] then Some (length A) else None)"
      using assms(1) by (cases k) (auto simp: extends_def edge_def trie_node_default_def)
    then show ?thesis using True e none by simp
  next
    case False
    show ?thesis
    proof (cases "edge A m d")
      case None
      then show ?thesis using False e by auto
    next
      case (Some j)
      then show ?thesis using False e Cons.IH [of j] trie_inv_edge [OF inv Some] by auto
    qed
  qed
qed

lemma extends_view:
  assumes ext: "extends A A' i c" and inv: "trie_inv A"
  shows "trie_view A' k = trie_view A k"
proof -
  have ne: "A \<noteq> []" "A' \<noteq> []" "0 < length A" using ext by (auto simp: extends_def)
  have fresh: "get_offset (A' ! length A) = None"
    using ext by (simp add: extends_def get_offset_def trie_node_default_def)
  have old: "m < length A \<Longrightarrow> get_offset (A' ! m) = get_offset (A ! m)" for m
    using ext by (simp add: extends_def get_offset_def)
  from extends_walk [OF ext inv ne(3), of k] show ?thesis
    using ne fresh old walk_bound [OF inv ne(3), of k]
    by (auto simp: trie_view_def split: option.split)
qed

lemma extends_inv:
  assumes ext: "extends A A' i c" and inv: "trie_inv A" and sorted: "\<forall>node \<in> set A'. children_sorted node"
  shows "trie_inv A'"
proof -
  have e: "edge A' m d = (if m = i \<and> d = c then Some (length A) else edge A m d)" for m d
    using ext by (simp add: extends_def)
  have len: "length A' = Suc (length A)" "i < length A" using ext by (simp_all add: extends_def)
  have old: "edge A m d = Some j \<Longrightarrow> m < j \<and> j < length A" for m d j using trie_inv_edge [OF inv] .
  have "m < j \<and> j < length A'" if "edge A' m d = Some j" for m d j
    using that old [of m d j] len by (auto simp: e split: if_splits)
  moreover have "m = m' \<and> d = d'" if "edge A' m d = Some j" "edge A' m' d' = Some j" for m d m' d' j
    using that old [of m d j] old [of m' d' j] trie_inv_unique [OF inv, of m d j m' d']
    by (auto simp: e split: if_splits)
  ultimately show ?thesis using sorted unfolding trie_inv_def by blast
qed

lemma get_or_insert_node_cases:
  assumes inv: "trie_inv (tr_arena t)" and i: "i < length (tr_arena t)" and small: "length (tr_arena t) < 2 ^ 32"
  obtains (old) j where "get_or_insert_node i c t = Some (j, t)" "edge (tr_arena t) i c = Some j"
    | (new) t' where "get_or_insert_node i c t = Some (length (tr_arena t), t')"
      "extends (tr_arena t) (tr_arena t') i c" "trie_inv (tr_arena t')"
      "edge (tr_arena t') i c = Some (length (tr_arena t))"
  using trie_inv_sorted [OF inv i]
proof (cases rule: get_child_idx_cases [where c = c])
  case (found w)
  then show thesis using old i by (simp add: get_or_insert_node_def edge_def)
next
  case (absent pos)
  let ?A = "tr_arena t" and ?n = "length (tr_arena t)"
  obtain node' where n': "insert_child pos c (of_nat ?n) (?A ! i) = Some node'" "children_sorted node'"
    "tn_offset node' = tn_offset (?A ! i)"
    "map_of (tn_children node') = (map_of (tn_children (?A ! i)))(c \<mapsto> of_nat ?n)"
    by (rule insert_child_correct [OF trie_inv_sorted [OF inv i] absent(3-5)])
  let ?t' = "t\<lparr>tr_arena := (?A @ [trie_node_default])[i := node']\<rparr>"
  have step: "get_or_insert_node i c t = Some (?n, ?t')"
    using i n'(1) absent(1) by (simp add: get_or_insert_node_def Let_def nth_append)
  have w: "unat (of_nat ?n :: u32) = ?n" using small by (simp add: unat_of_nat_small)
  have ext: "extends ?A (tr_arena ?t') i c"
    using i n' absent(2) w
    by (auto simp: extends_def edge_def nth_append nth_list_update trie_node_default_def less_Suc_eq)
  have "children_sorted trie_node_default" by (simp add: children_sorted_def trie_node_default_def)
  then have "\<forall>node \<in> set (tr_arena ?t'). children_sorted node"
    using inv n'(2) set_update_subset_insert [of "?A @ [trie_node_default]" i node']
    by (auto simp: trie_inv_def)
  from extends_inv [OF ext inv this] show thesis
    using new [OF step ext] ext by (simp add: extends_def)
qed

text \<open>Walking down a key, creating what is missing.\<close>

lemma trie_insert_loop_correct:
  "trie_inv (tr_arena t) \<Longrightarrow> walk (tr_arena t) 0 pre = Some i \<Longrightarrow> tr_arena t \<noteq> [] \<Longrightarrow>
   length (tr_arena t) + length k \<le> 2 ^ 32 \<Longrightarrow>
   \<exists>j t'. trie_insert_loop k i t = Some (j, t') \<and> trie_inv (tr_arena t') \<and> walk (tr_arena t') 0 (pre @ k) = Some j \<and>
     trie_view (tr_arena t') = trie_view (tr_arena t) \<and> tr_arena t' \<noteq> [] \<and>
     length (tr_arena t') \<le> length (tr_arena t) + length k"
proof (induction k arbitrary: t i pre)
  case Nil
  then show ?case by simp
next
  case (Cons c k)
  note inv = Cons.prems(1)
  have i: "i < length (tr_arena t)" using walk_bound [OF inv _ Cons.prems(2)] Cons.prems(3) by simp
  have small: "length (tr_arena t) < 2 ^ 32" using Cons.prems(4) by simp
  from inv i small show ?case
  proof (cases rule: get_or_insert_node_cases [where c = c])
    case (old j)
    have w: "walk (tr_arena t) 0 (pre @ [c]) = Some j" using Cons.prems(2) old by (simp add: walk_append)
    have "length (tr_arena t) + length k \<le> 2 ^ 32" using Cons.prems(4) by simp
    from Cons.IH [OF inv w Cons.prems(3) this] show ?thesis using old by (auto intro: le_SucI)
  next
    case (new t1)
    let ?n = "length (tr_arena t)"
    have len: "length (tr_arena t1) = Suc ?n" using new(2) by (simp add: extends_def)
    have "walk (tr_arena t1) 0 pre = Some i"
      using extends_walk [OF new(2) inv, of 0 pre] Cons.prems(2,3) by auto
    then have w: "walk (tr_arena t1) 0 (pre @ [c]) = Some ?n" using new(4) by (simp add: walk_append)
    have "length (tr_arena t1) + length k \<le> 2 ^ 32" "tr_arena t1 \<noteq> []" using Cons.prems(4) len by auto
    from Cons.IH [OF new(3) w this(2,1)] obtain j t' where
      r: "trie_insert_loop k ?n t1 = Some (j, t')" "trie_inv (tr_arena t')"
        "walk (tr_arena t') 0 ((pre @ [c]) @ k) = Some j" "trie_view (tr_arena t') = trie_view (tr_arena t1)"
        "tr_arena t' \<noteq> []" "length (tr_arena t') \<le> length (tr_arena t1) + length k" by blast
    have "trie_view (tr_arena t1) = trie_view (tr_arena t)" using extends_view [OF new(2) inv] by auto
    then show ?thesis using r new(1) len by auto
  qed
qed

lemma trie_new_edge: "edge [trie_node_default] i c = None"
  by (simp add: edge_def trie_node_default_def)

lemma trie_inv_new [simp]: "trie_inv []" "trie_inv [trie_node_default]"
  by (simp_all add: trie_inv_def trie_new_edge children_sorted_def trie_node_default_def)
    (simp_all add: edge_def)

lemma trie_new_view: "trie_view [trie_node_default] = trie_view []"
proof
  fix k
  show "trie_view [trie_node_default] k = trie_view [] k"
    by (cases k) (simp_all add: trie_view_def trie_new_edge, simp add: get_offset_def trie_node_default_def)
qed

lemma walk_newE: "walk [trie_node_default] 0 q = Some j \<Longrightarrow> (q = [] \<Longrightarrow> P) \<Longrightarrow> P"
  by (cases q) (simp_all add: trie_new_edge)

text \<open>Marking the end of a key.\<close>

lemma bit_WORD_END_FLAG: "bit WORD_END_FLAG n \<longleftrightarrow> n = 63"
  unfolding WORD_END_FLAG_def bit_push_bit_iff bit_1_iff by auto

lemma bit_OFFSET_MASK: "bit OFFSET_MASK n \<longleftrightarrow> n < 64 \<and> n \<noteq> 63"
proof -
  have "OFFSET_MASK = NOT WORD_END_FLAG" by (simp add: OFFSET_MASK_def WORD_END_FLAG_def)
  show ?thesis unfolding \<open>OFFSET_MASK = NOT WORD_END_FLAG\<close> bit_not_iff bit_WORD_END_FLAG by auto
qed

lemma get_set_offset:
  assumes "unat off < 2 ^ 63"
  shows "get_offset (set_offset off node) = Some off"
proof -
  have top: "\<not> bit off 63"
  proof -
    have "\<not> bit (unat off) 63" using assms by (simp add: bit_iff_odd)
    then show ?thesis by (simp add: bit_unsigned_iff)
  qed
  have "bit (off OR WORD_END_FLAG) 63" by (simp add: bit_or_iff bit_WORD_END_FLAG)
  then have "off OR WORD_END_FLAG \<noteq> 0" by (metis bit_0_eq bot_apply bot_bool_def)
  moreover have "(off OR WORD_END_FLAG) AND OFFSET_MASK = off"
    by (rule bit_word_eqI) (use top in \<open>auto simp: bit_and_iff bit_or_iff bit_WORD_END_FLAG bit_OFFSET_MASK\<close>)
  ultimately show ?thesis by (simp add: get_offset_def set_offset_def UNMARKED_FLAG_def)
qed

lemma mark_edges:
  "j < length A \<Longrightarrow> edge (A[j := set_offset off (A ! j)]) = edge A"
  by (auto simp: edge_def fun_eq_iff set_offset_def nth_list_update)

lemma mark_walk: "j < length A \<Longrightarrow> walk (A[j := set_offset off (A ! j)]) i k = walk A i k"
  by (induction k arbitrary: i) (simp_all add: mark_edges cong: option.case_cong)

lemma trie_insert_correct:
  assumes inv: "trie_inv (tr_arena t)" and off: "unat off < 2 ^ 63"
    and small: "length (tr_arena t) + length k < 2 ^ 32"
  shows "\<exists>t'. trie_insert k off t = Some t' \<and> trie_inv (tr_arena t') \<and>
    trie_view (tr_arena t') = (trie_view (tr_arena t))(k \<mapsto> off) \<and>
    length (tr_arena t') \<le> Suc (length (tr_arena t) + length k)"
proof -
  let ?t0 = "if tr_arena t = [] then t\<lparr>tr_arena := [trie_node_default]\<rparr> else t"
  have t0: "trie_inv (tr_arena ?t0)" "trie_view (tr_arena ?t0) = trie_view (tr_arena t)" "tr_arena ?t0 \<noteq> []"
    "length (tr_arena ?t0) \<le> Suc (length (tr_arena t))" "length (tr_arena ?t0) + length k \<le> 2 ^ 32"
    using inv small trie_new_view by (auto simp: trie_inv_new)
  from trie_insert_loop_correct [OF t0(1) _ t0(3,5), of "[]" 0] obtain j t' where
    r: "trie_insert_loop k 0 ?t0 = Some (j, t')" "trie_inv (tr_arena t')" "walk (tr_arena t') 0 k = Some j"
      "trie_view (tr_arena t') = trie_view (tr_arena ?t0)" "tr_arena t' \<noteq> []"
      "length (tr_arena t') \<le> length (tr_arena ?t0) + length k" by auto
  let ?A = "tr_arena t'"
  let ?B = "?A[j := set_offset off (?A ! j)]"
  have j: "j < length ?A" using walk_bound [OF r(2) _ r(3)] r(5) by simp
  have ins: "trie_insert k off t = Some (t'\<lparr>tr_arena := ?B\<rparr>)"
    using r(1) j by (simp add: trie_insert_def Let_def)
  have "children_sorted node" if "node \<in> set ?B" for node
  proof -
    have "node = set_offset off (?A ! j) \<or> node \<in> set ?A"
      using that set_update_subset_insert [of ?A j "set_offset off (?A ! j)"] by auto
    then show ?thesis using r(2) j trie_inv_sorted [OF r(2) j]
      by (auto simp: trie_inv_def set_offset_def children_sorted_def)
  qed
  then have invB: "trie_inv ?B"
    using r(2) unfolding trie_inv_def mark_edges [OF j] by simp
  have "trie_view ?B k' = ((trie_view ?A)(k \<mapsto> off)) k'" for k'
  proof (cases "k' = k")
    case True
    then show ?thesis using r(3,5) j get_set_offset [OF off] by (simp add: trie_view_def mark_walk)
  next
    case False
    then have "walk ?A 0 k' \<noteq> Some j" using walk_inj [OF r(2,5) r(3)] by blast
    then show ?thesis using False r(5) j
      by (auto simp: trie_view_def mark_walk nth_list_update split: option.split)
  qed
  then have "trie_view ?B = (trie_view (tr_arena t))(k \<mapsto> off)" using r(4) t0(2) by (auto simp: fun_eq_iff)
  then show ?thesis using ins invB r(6) t0(4) by simp
qed

section \<open>Which nodes a trie has\<close>

text \<open>
  The paths of a trie are the prefixes of its keys, and every node lies on one; this bounds the number
  of children of a node by the branching of the key set.
\<close>

definition trie_paths :: "TrieNode list \<Rightarrow> bytes set" where
  "trie_paths A = {q. A \<noteq> [] \<and> walk A 0 q \<noteq> None}"

definition all_reached :: "TrieNode list \<Rightarrow> bool" where
  "all_reached A \<longleftrightarrow> (\<forall>i < length A. \<exists>q. walk A 0 q = Some i)"

lemma extends_paths:
  assumes ext: "extends A A' i c" and inv: "trie_inv A" "trie_inv A'" and pre: "walk A 0 pre = Some i"
  shows "trie_paths A' = insert (pre @ [c]) (trie_paths A)" and "all_reached A \<Longrightarrow> all_reached A'"
proof -
  have ne: "A \<noteq> []" "A' \<noteq> []" "0 < length A" using ext by (auto simp: extends_def)
  note w = extends_walk [OF ext inv(1) ne(3)]
  have up: "walk A 0 q = Some j \<Longrightarrow> walk A' 0 q = Some j" for q j using w [of q] by auto
  have new: "walk A' 0 (pre @ [c]) = Some (length A)"
    using up [OF pre] ext by (simp add: walk_append extends_def)
  have "walk A' 0 q \<noteq> None \<longleftrightarrow> q = pre @ [c] \<or> walk A 0 q \<noteq> None" for q
    using w [of q] new walk_inj [OF inv(2) ne(2) new, of q] by auto
  then show "trie_paths A' = insert (pre @ [c]) (trie_paths A)" using ne by (auto simp: trie_paths_def)
  show "all_reached A'" if "all_reached A"
    unfolding all_reached_def
  proof (intro allI impI)
    fix m assume "m < length A'"
    moreover have "length A' = Suc (length A)" using ext by (simp add: extends_def)
    ultimately consider "m < length A" | "m = length A" by linarith
    then show "\<exists>q. walk A' 0 q = Some m" using that new up unfolding all_reached_def by cases blast+
  qed
qed

lemma trie_insert_loop_paths:
  "trie_inv (tr_arena t) \<Longrightarrow> walk (tr_arena t) 0 pre = Some i \<Longrightarrow> tr_arena t \<noteq> [] \<Longrightarrow>
   length (tr_arena t) + length k \<le> 2 ^ 32 \<Longrightarrow> trie_insert_loop k i t = Some (j, t') \<Longrightarrow>
   trie_paths (tr_arena t') = trie_paths (tr_arena t) \<union> {pre @ q | q. prefix q k} \<and>
   (all_reached (tr_arena t) \<longrightarrow> all_reached (tr_arena t'))"
proof (induction k arbitrary: t i pre)
  case Nil
  then show ?case by (auto simp: trie_paths_def)
next
  case (Cons c k)
  note inv = Cons.prems(1)
  have i: "i < length (tr_arena t)" using walk_bound [OF inv _ Cons.prems(2)] Cons.prems(3) by simp
  have small: "length (tr_arena t) < 2 ^ 32" using Cons.prems(4) by simp
  have pfx: "{pre @ q | q. prefix q (c # k)} = insert pre {(pre @ [c]) @ q | q. prefix q k}"
    by (auto simp: prefix_Cons)
  have pre: "pre \<in> trie_paths (tr_arena t)" using Cons.prems(2,3) by (simp add: trie_paths_def)
  from inv i small show ?case
  proof (cases rule: get_or_insert_node_cases [where c = c])
    case (old m)
    have w: "walk (tr_arena t) 0 (pre @ [c]) = Some m" using Cons.prems(2) old by (simp add: walk_append)
    have "length (tr_arena t) + length k \<le> 2 ^ 32" "trie_insert_loop k m t = Some (j, t')"
      using Cons.prems(4,5) old by simp_all
    from Cons.IH [OF inv w Cons.prems(3) this] show ?thesis using pre unfolding pfx by auto
  next
    case (new t1)
    let ?n = "length (tr_arena t)"
    have len: "length (tr_arena t1) = Suc ?n" using new(2) by (simp add: extends_def)
    have "walk (tr_arena t1) 0 pre = Some i"
      using extends_walk [OF new(2) inv, of 0 pre] Cons.prems(2,3) by auto
    then have w: "walk (tr_arena t1) 0 (pre @ [c]) = Some ?n" using new(4) by (simp add: walk_append)
    have l: "length (tr_arena t1) + length k \<le> 2 ^ 32" "tr_arena t1 \<noteq> []" "trie_insert_loop k ?n t1 = Some (j, t')"
      using Cons.prems(4,5) len new(1) by auto
    note e = extends_paths [OF new(2) inv new(3) Cons.prems(2)]
    from Cons.IH [OF new(3) w l(2,1,3)] show ?thesis
      using pre e unfolding pfx by (auto intro: exI [of _ "[]"])
  qed
qed

lemma trie_insert_paths:
  assumes inv: "trie_inv (tr_arena t)" and small: "length (tr_arena t) + length k < 2 ^ 32"
    and ins: "trie_insert k off t = Some t'" and reach: "all_reached (tr_arena t)"
  shows "trie_paths (tr_arena t') = trie_paths (tr_arena t) \<union> {q. prefix q k}" and "all_reached (tr_arena t')"
proof -
  let ?t0 = "if tr_arena t = [] then t\<lparr>tr_arena := [trie_node_default]\<rparr> else t"
  have t0: "trie_inv (tr_arena ?t0)" "tr_arena ?t0 \<noteq> []" "length (tr_arena ?t0) + length k \<le> 2 ^ 32"
    "trie_paths (tr_arena ?t0) = trie_paths (tr_arena t) \<union> {[]}"
    using inv small by (auto simp: trie_paths_def trie_new_edge elim: walk_newE)
  have r0: "all_reached (tr_arena ?t0)" using reach by (auto simp: all_reached_def intro: exI [of _ "[]"])
  from ins obtain j t1 where loop: "trie_insert_loop k 0 ?t0 = Some (j, t1)" "j < length (tr_arena t1)"
    and t': "t' = t1\<lparr>tr_arena := (tr_arena t1)[j := set_offset off (tr_arena t1 ! j)]\<rparr>"
    by (auto simp: trie_insert_def Let_def bind_eq_Some_conv)
  have "walk (tr_arena t') i q = walk (tr_arena t1) i q" for i q
    using mark_walk [OF loop(2)] by (simp add: t')
  then have same: "trie_paths (tr_arena t') = trie_paths (tr_arena t1)" "all_reached (tr_arena t') = all_reached (tr_arena t1)"
    using loop(2) by (auto simp: trie_paths_def all_reached_def t')
  from trie_insert_loop_paths [OF t0(1) _ t0(2,3) loop(1), of "[]"] r0
  show "trie_paths (tr_arena t') = trie_paths (tr_arena t) \<union> {q. prefix q k}" "all_reached (tr_arena t')"
    unfolding same t0(4) by auto
qed

text \<open>A node has fewer than 256 children when some byte never follows the prefix it stands for.\<close>

lemma children_bound:
  assumes inv: "trie_inv A" and reach: "all_reached A" and free: "\<And>q. \<exists>c. q @ [c] \<notin> trie_paths A"
    and n: "n \<in> set A"
  shows "length (tn_children n) < 256"
proof -
  obtain i where i: "i < length A" "n = A ! i" using n by (auto simp: in_set_conv_nth)
  obtain q where q: "walk A 0 q = Some i" using reach i(1) by (auto simp: all_reached_def)
  obtain c where c: "q @ [c] \<notin> trie_paths A" using free by blast
  have "map_of (tn_children n) c = None"
    using c q i by (auto simp: trie_paths_def walk_append edge_def split: option.splits)
  then have "set (map fst (tn_children n)) \<subseteq> UNIV - {c}" by (auto simp: map_of_eq_None_iff)
  then have "card (set (map fst (tn_children n))) \<le> card (UNIV - {c} :: u8 set)" by (intro card_mono) auto
  moreover have "card (set (map fst (tn_children n))) = length (tn_children n)"
    using children_sorted_distinct [OF trie_inv_sorted [OF inv i(1)]] i(2) distinct_card by fastforce
  moreover have "card (UNIV - {c} :: u8 set) = 255" by (simp add: card_Diff_singleton card_word)
  ultimately show ?thesis by simp
qed

end
