(* ===== verification/Trie_Codec.thy ===== *)
theory Trie_Codec
  imports Trie
begin

text \<open>
  The index block: serialisation of the trie arena and its inverse (\<^verbatim>\<open>src/ssindex/trie.rs\<close>).  The
  encoder fills a buffer whose initial contents are unspecified, from left to right.
\<close>

section \<open>Definitions\<close>

definition node_serialized_size :: "TrieNode \<Rightarrow> nat" where
  "node_serialized_size self = TRIE_NODE_HEADER_SIZE + SIZE_PER_CHILD_NODE * length (tn_children self)"

primrec serialize_children :: "TriePointer list \<Rightarrow> bytes \<Rightarrow> nat \<Rightarrow> (bytes \<times> nat) option" where
  "serialize_children [] buffer offset = Some (buffer, offset)"
| "serialize_children (child # cs) buffer offset = do {
     buffer \<leftarrow> vec_set buffer offset (fst child);
     let offset = offset + 1;
     buffer \<leftarrow> copy_from_slice buffer offset (offset + 4) (to_be_bytes32 (snd child));
     let offset = offset + 4;
     serialize_children cs buffer offset
   }"

text \<open>\<^verbatim>\<open>self.children.len() as u8\<close> truncates.\<close>

definition serialize_into_buffer :: "TrieNode \<Rightarrow> bytes \<Rightarrow> nat \<Rightarrow> (bytes \<times> nat) option" where
  "serialize_into_buffer self buffer offset = do {
     buffer \<leftarrow> vec_set buffer offset (of_nat (length (tn_children self)));
     let offset = offset + 1;
     buffer \<leftarrow> copy_from_slice buffer offset (offset + 8) (to_be_bytes64 (tn_offset self));
     let offset = offset + 8;
     serialize_children (tn_children self) buffer offset
   }"

definition trie_serialized_size :: "Trie \<Rightarrow> nat" where
  "trie_serialized_size self = TRIE_HEADER_SIZE + sum_list (map node_serialized_size (tr_arena self))"

primrec serialize_nodes :: "TrieNode list \<Rightarrow> bytes \<Rightarrow> nat \<Rightarrow> (bytes \<times> nat) option" where
  "serialize_nodes [] buffer offset = Some (buffer, offset)"
| "serialize_nodes (node # ns) buffer offset = do {
     (buffer, offset) \<leftarrow> serialize_into_buffer node buffer offset;
     serialize_nodes ns buffer offset
   }"

definition trie_serialize_in :: "(nat \<Rightarrow> bytes) \<Rightarrow> Trie \<Rightarrow> bytes option" where
  "trie_serialize_in alloc self = do {
     let total_size = trie_serialized_size self;
     let buffer = alloc total_size;
     let offset = 0;
     buffer \<leftarrow> copy_from_slice buffer offset (offset + 4) (to_be_bytes32 (of_nat (length (tr_arena self))));
     let offset = offset + 4;
     (buffer, offset) \<leftarrow> serialize_nodes (tr_arena self) buffer offset;
     Some buffer
   }"

definition trie_serialize :: "Trie \<Rightarrow> bytes option" where
  "trie_serialize = trie_serialize_in make_blob_buffer"

primrec deserialize_children :: "nat \<Rightarrow> bytes \<Rightarrow> nat \<Rightarrow> (TriePointer list \<times> nat) option" where
  "deserialize_children 0 buffer buffer_offset = Some ([], buffer_offset)"
| "deserialize_children (Suc n) buffer buffer_offset = do {
     c \<leftarrow> vec_get buffer buffer_offset;
     let buffer_offset = buffer_offset + 1;
     arr \<leftarrow> get_be_array4 buffer buffer_offset;
     let arena_idx = from_be_bytes32 arr;
     let buffer_offset = buffer_offset + 4;
     (children, buffer_offset) \<leftarrow> deserialize_children n buffer buffer_offset;
     Some ((c, arena_idx) # children, buffer_offset)
   }"

definition node_deserialize_from_disk :: "bytes \<Rightarrow> nat \<Rightarrow> (TrieNode \<times> nat) option" where
  "node_deserialize_from_disk buffer buffer_offset = do {
     num_children \<leftarrow> vec_get buffer buffer_offset;
     let buffer_offset = buffer_offset + 1;
     arr \<leftarrow> get_be_array8 buffer buffer_offset;
     let offset = from_be_bytes64 arr;
     let buffer_offset = buffer_offset + 8;
     (children, buffer_offset) \<leftarrow> deserialize_children (unat num_children) buffer buffer_offset;
     Some (\<lparr>tn_offset = offset, tn_children = children\<rparr>, buffer_offset)
   }"

primrec deserialize_nodes :: "nat \<Rightarrow> bytes \<Rightarrow> nat \<Rightarrow> (TrieNode list \<times> nat) option" where
  "deserialize_nodes 0 buffer buffer_offset = Some ([], buffer_offset)"
| "deserialize_nodes (Suc n) buffer buffer_offset = do {
     (node, buffer_offset) \<leftarrow> node_deserialize_from_disk buffer buffer_offset;
     (ns, buffer_offset) \<leftarrow> deserialize_nodes n buffer buffer_offset;
     Some (node # ns, buffer_offset)
   }"

definition trie_deserialize_from_disk :: "bytes \<Rightarrow> Trie option" where
  "trie_deserialize_from_disk buffer = do {
     arr \<leftarrow> get_be_array4 buffer 0;
     let arena_size = unat (from_be_bytes32 arr);
     (arena, off) \<leftarrow> deserialize_nodes arena_size buffer 4;
     Some \<lparr>tr_arena = arena\<rparr>
   }"

section \<open>The format\<close>

definition child_bytes :: "TriePointer \<Rightarrow> bytes" where
  "child_bytes child = fst child # to_be_bytes32 (snd child)"

definition children_bytes :: "TriePointer list \<Rightarrow> bytes" where
  "children_bytes cs = concat (map child_bytes cs)"

definition node_bytes :: "TrieNode \<Rightarrow> bytes" where
  "node_bytes n = of_nat (length (tn_children n)) # to_be_bytes64 (tn_offset n) @ children_bytes (tn_children n)"

definition nodes_bytes :: "TrieNode list \<Rightarrow> bytes" where
  "nodes_bytes ns = concat (map node_bytes ns)"

definition trie_bytes :: "TrieNode list \<Rightarrow> bytes" where
  "trie_bytes A = to_be_bytes32 (of_nat (length A)) @ nodes_bytes A"

lemma bytes_simps [simp]:
  "children_bytes [] = []" "children_bytes (c # cs) = fst c # to_be_bytes32 (snd c) @ children_bytes cs"
  "nodes_bytes [] = []" "nodes_bytes (n # ns) = node_bytes n @ nodes_bytes ns"
  by (simp_all add: children_bytes_def child_bytes_def nodes_bytes_def)

lemma length_children_bytes [simp]: "length (children_bytes cs) = 5 * length cs"
  by (induction cs) simp_all

lemma length_node_bytes [simp]: "length (node_bytes n) = node_serialized_size n"
  by (simp add: node_bytes_def node_serialized_size_def TRIE_NODE_HEADER_SIZE_def SIZE_PER_CHILD_NODE_def)

lemma length_nodes_bytes [simp]: "length (nodes_bytes ns) = sum_list (map node_serialized_size ns)"
  by (induction ns) simp_all

section \<open>Encoding\<close>

lemma vec_set_fill [slice_simps]:
  "a = length xs \<Longrightarrow> junk \<noteq> [] \<Longrightarrow> vec_set (xs @ junk) a v = Some ((xs @ [v]) @ drop 1 junk)"
  by (cases junk) simp_all

lemma serialize_children_fill:
  "5 * length cs \<le> length junk \<Longrightarrow>
   serialize_children cs (pre @ junk) (length pre) =
     Some ((pre @ children_bytes cs) @ drop (5 * length cs) junk, length pre + 5 * length cs)"
proof (induction cs arbitrary: pre junk)
  case Nil
  then show ?case by simp
next
  case (Cons c cs)
  let ?pre = "(pre @ [fst c]) @ to_be_bytes32 (snd c)" and ?junk = "drop 4 (drop 1 junk)"
  have junk: "junk \<noteq> []" "4 \<le> length (drop 1 junk)" using Cons.prems by (auto simp: Suc_le_eq)
  have a: "vec_set (pre @ junk) (length pre) (fst c) = Some ((pre @ [fst c]) @ drop 1 junk)"
    by (rule vec_set_fill) (use junk in simp_all)
  have b: "copy_from_slice ((pre @ [fst c]) @ drop 1 junk) (length pre + 1) (length pre + 1 + 4) (to_be_bytes32 (snd c)) =
      Some (?pre @ ?junk)"
    using copy_from_slice_fill [of "length pre + 1" "pre @ [fst c]" "length pre + 5" "to_be_bytes32 (snd c)" "drop 1 junk"] junk(2)
    by (simp add: add.commute)
  have "5 * length cs \<le> length ?junk" using Cons.prems by simp
  from Cons.IH [OF this, of ?pre] show ?case
    using a b by (simp add: Let_def add.commute)
qed

lemma serialize_into_buffer_fill:
  assumes "node_serialized_size n \<le> length junk"
  shows "serialize_into_buffer n (pre @ junk) (length pre) =
     Some ((pre @ node_bytes n) @ drop (node_serialized_size n) junk, length pre + node_serialized_size n)"
proof -
  let ?k = "of_nat (length (tn_children n)) :: u8"
  let ?pre = "(pre @ [?k]) @ to_be_bytes64 (tn_offset n)" and ?junk = "drop 8 (drop 1 junk)"
  have size: "node_serialized_size n = 9 + 5 * length (tn_children n)"
    by (simp add: node_serialized_size_def TRIE_NODE_HEADER_SIZE_def SIZE_PER_CHILD_NODE_def)
  have junk: "junk \<noteq> []" "8 \<le> length (drop 1 junk)" using assms size by auto
  have a: "vec_set (pre @ junk) (length pre) ?k = Some ((pre @ [?k]) @ drop 1 junk)"
    by (rule vec_set_fill) (use junk in simp_all)
  have b: "copy_from_slice ((pre @ [?k]) @ drop 1 junk) (length pre + 1) (length pre + 1 + 8) (to_be_bytes64 (tn_offset n)) =
      Some (?pre @ ?junk)"
    using copy_from_slice_fill [of "length pre + 1" "pre @ [?k]" "length pre + 9" "to_be_bytes64 (tn_offset n)" "drop 1 junk"] junk(2)
    by (simp add: add.commute)
  have "5 * length (tn_children n) \<le> length ?junk" using assms size by simp
  from serialize_children_fill [OF this, of ?pre] show ?thesis
    using a b by (simp add: serialize_into_buffer_def Let_def node_bytes_def size add.commute)
qed

lemma serialize_nodes_fill:
  "sum_list (map node_serialized_size ns) \<le> length junk \<Longrightarrow>
   serialize_nodes ns (pre @ junk) (length pre) =
     Some ((pre @ nodes_bytes ns) @ drop (sum_list (map node_serialized_size ns)) junk,
       length pre + sum_list (map node_serialized_size ns))"
proof (induction ns arbitrary: pre junk)
  case Nil
  then show ?case by simp
next
  case (Cons n ns)
  have le: "node_serialized_size n \<le> length junk"
    "sum_list (map node_serialized_size ns) \<le> length (drop (node_serialized_size n) junk)"
    using Cons.prems by simp_all
  show ?case
    using serialize_into_buffer_fill [OF le(1), of pre] Cons.IH [OF le(2), of "pre @ node_bytes n"]
    by (simp add: add.commute add.left_commute)
qed

lemma trie_serialize_in_bytes:
  assumes "\<And>n. length (alloc n) = n"
  shows "trie_serialize_in alloc t = Some (trie_bytes (tr_arena t))"
proof -
  let ?A = "tr_arena t" and ?buf = "alloc (trie_serialized_size t)"
  let ?h = "to_be_bytes32 (of_nat (length ?A))"
  have len: "length ?buf = 4 + sum_list (map node_serialized_size ?A)"
    by (simp add: assms trie_serialized_size_def TRIE_HEADER_SIZE_def)
  have a: "copy_from_slice ?buf 0 (0 + 4) ?h = Some (?h @ drop 4 ?buf)"
    using copy_from_slice_fill [of 0 "[]" 4 ?h ?buf] len by simp
  have "sum_list (map node_serialized_size ?A) \<le> length (drop 4 ?buf)" using len by simp
  from serialize_nodes_fill [OF this, of ?h] show ?thesis
    using a len by (simp add: trie_serialize_in_def Let_def trie_bytes_def)
qed

section \<open>Decoding\<close>

lemma vec_get_append_mid [slice_simps]: "a = length xs \<Longrightarrow> vec_get (xs @ v # ys) a = Some v"
  by simp

lemma deserialize_children_bytes:
  "deserialize_children (length cs) (pre @ children_bytes cs @ post) (length pre) = Some (cs, length pre + 5 * length cs)"
proof (induction cs arbitrary: pre)
  case Nil
  then show ?case by simp
next
  case (Cons c cs)
  let ?pre = "pre @ fst c # to_be_bytes32 (snd c)"
  have a: "get_be_array4 (pre @ fst c # to_be_bytes32 (snd c) @ children_bytes cs @ post) (length pre + 1) =
      Some (to_be_bytes32 (snd c))"
    using slice_append_mid [of "length pre + 1" "pre @ [fst c]" "length pre + 5" "to_be_bytes32 (snd c)" "children_bytes cs @ post"]
    by (simp add: get_be_array4_def add.commute)
  show ?case
    using a Cons.IH [of ?pre] by (simp add: Let_def add.commute)
qed

lemma node_deserialize_bytes:
  assumes "length (tn_children n) < 256"
  shows "node_deserialize_from_disk (pre @ node_bytes n @ post) (length pre) = Some (n, length pre + node_serialized_size n)"
proof -
  let ?k = "of_nat (length (tn_children n)) :: u8"
  let ?buf = "pre @ ?k # to_be_bytes64 (tn_offset n) @ children_bytes (tn_children n) @ post"
  have k: "unat ?k = length (tn_children n)" using assms by (simp add: unat_of_nat_small)
  have a: "get_be_array8 ?buf (length pre + 1) = Some (to_be_bytes64 (tn_offset n))"
    using slice_append_mid [of "length pre + 1" "pre @ [?k]" "length pre + 9" "to_be_bytes64 (tn_offset n)"
        "children_bytes (tn_children n) @ post"] by (simp add: get_be_array8_def add.commute)
  show ?thesis
    using a k deserialize_children_bytes [of "tn_children n" "pre @ ?k # to_be_bytes64 (tn_offset n)" post]
    by (simp add: node_deserialize_from_disk_def node_bytes_def Let_def node_serialized_size_def
        TRIE_NODE_HEADER_SIZE_def SIZE_PER_CHILD_NODE_def add.commute)
qed

lemma deserialize_nodes_bytes:
  "\<forall>n \<in> set ns. length (tn_children n) < 256 \<Longrightarrow>
   deserialize_nodes (length ns) (pre @ nodes_bytes ns @ post) (length pre) =
     Some (ns, length pre + sum_list (map node_serialized_size ns))"
proof (induction ns arbitrary: pre)
  case Nil
  then show ?case by simp
next
  case (Cons n ns)
  then show ?case
    using node_deserialize_bytes [of n pre "nodes_bytes ns @ post"] Cons.IH [of "pre @ node_bytes n"]
    by (simp add: add.commute add.left_commute)
qed

lemma trie_deserialize_bytes:
  assumes "\<forall>n \<in> set A. length (tn_children n) < 256" and "length A < 2 ^ 32"
  shows "trie_deserialize_from_disk (trie_bytes A) = Some \<lparr>tr_arena = A\<rparr>"
proof -
  let ?h = "to_be_bytes32 (of_nat (length A))"
  have "get_be_array4 (?h @ nodes_bytes A) 0 = Some ?h"
    by (simp add: get_be_array4_def slice_prefix)
  then show ?thesis
    using deserialize_nodes_bytes [OF assms(1), of ?h "[]"] assms(2)
    by (simp add: trie_deserialize_from_disk_def trie_bytes_def unat_of_nat_small)
qed

end
