(* ===== verification/Bloom.thy ===== *)
theory Bloom
  imports Varint
begin

text \<open>
  The Bloom filter of \<^verbatim>\<open>src/sstable/bloom_filter.rs\<close>.  Two things are parameters: the hash function
  \<open>H seed key\<close> behind \<^verbatim>\<open>hash1\<close> (seed 0) and \<^verbatim>\<open>hash2\<close> (seed 1), which the standard library leaves
  unspecified, and \<open>ln2_hashes num_bits size\<close>, the floating-point expression
  \<^verbatim>\<open>((num_bits as f64 / size as f64) * LN_2).round() as u64\<close>.  Every result holds for all of them.
\<close>

section \<open>Definitions\<close>

type_synonym hasher = "u64 \<Rightarrow> bytes \<Rightarrow> u64"

definition hash1 :: "hasher \<Rightarrow> bytes \<Rightarrow> u64" where "hash1 H key = H 0 key"
definition hash2 :: "hasher \<Rightarrow> bytes \<Rightarrow> u64" where "hash2 H key = H 1 key"

record BloomFilter =
  bf_bits :: "u64 list"
  bf_num_bits :: u64
  bf_num_hashes :: u64

definition bloom_new :: "(u64 \<Rightarrow> nat \<Rightarrow> u64) \<Rightarrow> nat \<Rightarrow> BloomFilter" where
  "bloom_new ln2_hashes sz =
     (let num_bits = sz * 10;
          num_words = ((num_bits + 63) + 63) div 64;
          bits = replicate num_words 0;
          num_bits = 64 * of_nat (length bits) :: u64;
          num_hashes = max (ln2_hashes num_bits sz) 1
      in \<lparr>bf_bits = bits, bf_num_bits = num_bits, bf_num_hashes = num_hashes\<rparr>)"

primrec read_words :: "nat \<Rightarrow> bytes \<Rightarrow> nat \<Rightarrow> (u64 list \<times> nat) option" where
  "read_words 0 buffer offset = Some ([], offset)"
| "read_words (Suc n) buffer offset = do {
     arr \<leftarrow> get_be_array8 buffer offset;
     (ws, offset) \<leftarrow> read_words n buffer (offset + 8);
     Some (from_be_bytes64 arr # ws, offset)
   }"

definition bloom_from_bytes :: "bytes \<Rightarrow> BloomFilter option" where
  "bloom_from_bytes buffer = do {
     (num_words, bytes_walked) \<leftarrow> decode_varint buffer 0;
     let offset = bytes_walked;
     (bits, offset) \<leftarrow> read_words (unat num_words) buffer offset;
     let num_bits = 64 * of_nat (length bits);
     arr \<leftarrow> get_be_array8 buffer offset;
     let num_hashes = from_be_bytes64 arr;
     Some \<lparr>bf_bits = bits, bf_num_bits = num_bits, bf_num_hashes = num_hashes\<rparr>
   }"

text \<open>\<^verbatim>\<open>h1.wrapping_add(i.wrapping_mul(h2)) % self.num_bits\<close>; the remainder panics on zero.\<close>

definition bit_index :: "u64 \<Rightarrow> u64 \<Rightarrow> nat \<Rightarrow> u64 \<Rightarrow> nat option" where
  "bit_index h1 h2 i num_bits =
     (if num_bits = 0 then None else Some (unat ((h1 + of_nat i * h2) mod num_bits)))"

text \<open>\<^verbatim>\<open>for i in 0..num_hashes\<close>, with \<open>n\<close> rounds left.\<close>

primrec bloom_insert_loop :: "nat \<Rightarrow> nat \<Rightarrow> u64 \<Rightarrow> u64 \<Rightarrow> BloomFilter \<Rightarrow> BloomFilter option" where
  "bloom_insert_loop 0 i h1 h2 self = Some self"
| "bloom_insert_loop (Suc n) i h1 h2 self = do {
     bit_idx \<leftarrow> bit_index h1 h2 i (bf_num_bits self);
     let word_idx = bit_idx div 64;
     let bit_offset = bit_idx mod 64;
     w \<leftarrow> vec_get (bf_bits self) word_idx;
     bloom_insert_loop n (i + 1) h1 h2
       (self\<lparr>bf_bits := (bf_bits self)[word_idx := w OR push_bit bit_offset 1]\<rparr>)
   }"

definition bloom_insert :: "hasher \<Rightarrow> bytes \<Rightarrow> BloomFilter \<Rightarrow> BloomFilter option" where
  "bloom_insert H key self =
     bloom_insert_loop (unat (bf_num_hashes self)) 0 (hash1 H key) (hash2 H key) self"

primrec bloom_contains_loop :: "nat \<Rightarrow> nat \<Rightarrow> u64 \<Rightarrow> u64 \<Rightarrow> BloomFilter \<Rightarrow> bool option" where
  "bloom_contains_loop 0 i h1 h2 self = Some True"
| "bloom_contains_loop (Suc n) i h1 h2 self = do {
     bit_idx \<leftarrow> bit_index h1 h2 i (bf_num_bits self);
     let word_idx = bit_idx div 64;
     let bit_offset = bit_idx mod 64;
     w \<leftarrow> vec_get (bf_bits self) word_idx;
     if w AND push_bit bit_offset 1 = 0 then Some False
     else bloom_contains_loop n (i + 1) h1 h2 self
   }"

definition bloom_contains :: "hasher \<Rightarrow> bytes \<Rightarrow> BloomFilter \<Rightarrow> bool option" where
  "bloom_contains H key self =
     bloom_contains_loop (unat (bf_num_hashes self)) 0 (hash1 H key) (hash2 H key) self"

primrec write_words :: "u64 list \<Rightarrow> bytes \<Rightarrow> nat \<Rightarrow> (bytes \<times> nat) option" where
  "write_words [] buffer offset = Some (buffer, offset)"
| "write_words (w # ws) buffer offset = do {
     buffer \<leftarrow> copy_from_slice buffer offset (offset + 8) (to_be_bytes64 w);
     write_words ws buffer (offset + 8)
   }"

definition bloom_serialize :: "BloomFilter \<Rightarrow> bytes option" where
  "bloom_serialize self = do {
     (bit_len_varint, varint_size) \<leftarrow> encode_varint (of_nat (length (bf_bits self)));
     let buffer_size = varint_size + 8 * (length (bf_bits self) + 1);
     let buffer = replicate buffer_size 0;
     src \<leftarrow> slice bit_len_varint 0 varint_size;
     buffer \<leftarrow> copy_from_slice buffer 0 varint_size src;
     let offset = varint_size;
     (buffer, offset) \<leftarrow> write_words (bf_bits self) buffer offset;
     copy_from_slice buffer offset (offset + 8) (to_be_bytes64 (bf_num_hashes self))
   }"

section \<open>Membership\<close>

definition bloom_ok :: "BloomFilter \<Rightarrow> bool" where
  "bloom_ok self \<longleftrightarrow> bf_bits self \<noteq> [] \<and> length (bf_bits self) < 2 ^ 58 \<and>
     bf_num_bits self = 64 * of_nat (length (bf_bits self))"

text \<open>Whether position \<open>b\<close> of the bit vector is set, and the positions a key is hashed to.\<close>

definition bit_set :: "BloomFilter \<Rightarrow> nat \<Rightarrow> bool" where
  "bit_set self b \<longleftrightarrow> b div 64 < length (bf_bits self) \<and> bit (bf_bits self ! (b div 64)) (b mod 64)"

definition probe :: "hasher \<Rightarrow> bytes \<Rightarrow> BloomFilter \<Rightarrow> nat \<Rightarrow> nat" where
  "probe H key self i = unat ((hash1 H key + of_nat i * hash2 H key) mod bf_num_bits self)"

lemma bloom_ok_num_bits:
  assumes "bloom_ok self"
  shows "unat (bf_num_bits self) = 64 * length (bf_bits self)" "bf_num_bits self \<noteq> 0"
proof -
  have "64 * length (bf_bits self) < 2 ^ 64" using assms by (simp add: bloom_ok_def)
  then have "unat (of_nat (64 * length (bf_bits self)) :: u64) = 64 * length (bf_bits self)"
    by (intro unat_of_nat_small) simp
  then show u: "unat (bf_num_bits self) = 64 * length (bf_bits self)" using assms by (simp add: bloom_ok_def)
  show "bf_num_bits self \<noteq> 0"
  proof
    assume "bf_num_bits self = 0"
    then show False using u assms by (simp add: bloom_ok_def)
  qed
qed

lemma probe_in_range: "bloom_ok self \<Longrightarrow> probe H key self i div 64 < length (bf_bits self)"
proof -
  assume ok: "bloom_ok self"
  have "probe H key self i < 64 * length (bf_bits self)"
    using bloom_ok_num_bits [OF ok] unfolding probe_def unat_mod by (metis mod_less_divisor unsigned_eq_0_iff neq0_conv)
  then show ?thesis by (simp add: less_mult_imp_div_less mult.commute)
qed

lemma set_bit_word: "n < 64 \<Longrightarrow> bit ((w :: u64) OR 2 ^ n) m \<longleftrightarrow> bit w m \<or> m = n"
  by (auto simp: bit_or_iff bit_exp_iff)

lemma bloom_contains_loop_probes:
  assumes ok: "bloom_ok self"
  shows "bloom_contains_loop n i (hash1 H key) (hash2 H key) self =
    Some (\<forall>j < n. bit_set self (probe H key self (i + j)))"
proof (induction n arbitrary: i)
  case 0
  then show ?case by simp
next
  case (Suc n)
  note r = probe_in_range [OF ok, of H key i]
  have idx: "bit_index (hash1 H key) (hash2 H key) i (bf_num_bits self) = Some (probe H key self i)"
    using bloom_ok_num_bits(2) [OF ok] by (simp add: bit_index_def probe_def)
  have "(\<forall>j < Suc n. bit_set self (probe H key self (i + j))) \<longleftrightarrow>
      bit_set self (probe H key self i) \<and> (\<forall>j < n. bit_set self (probe H key self (Suc i + j)))"
    by (simp add: All_less_Suc2)
  moreover have "bloom_contains_loop (Suc n) i (hash1 H key) (hash2 H key) self =
      (if bit_set self (probe H key self i) then bloom_contains_loop n (Suc i) (hash1 H key) (hash2 H key) self
       else Some False)"
    using r by (simp add: idx Let_def and_exp_eq_0_iff_not_bit bit_set_def)
  ultimately show ?case using Suc.IH [of "Suc i"] by simp
qed

lemma bloom_contains_probes:
  "bloom_ok self \<Longrightarrow> bloom_contains H key self =
     Some (\<forall>j < unat (bf_num_hashes self). bit_set self (probe H key self j))"
  by (simp add: bloom_contains_def bloom_contains_loop_probes)

text \<open>Insertion sets the probed positions and clears nothing.\<close>

lemma bloom_insert_loop_sets:
  "bloom_ok self \<Longrightarrow> \<exists>self'. bloom_insert_loop n i (hash1 H key) (hash2 H key) self = Some self' \<and>
     bf_num_bits self' = bf_num_bits self \<and> bf_num_hashes self' = bf_num_hashes self \<and> bloom_ok self' \<and>
     (\<forall>b. bit_set self' b \<longleftrightarrow> bit_set self b \<or> (\<exists>j < n. b = probe H key self (i + j)))"
proof (induction n arbitrary: i self)
  case 0
  then show ?case by simp
next
  case (Suc n)
  let ?p = "probe H key self i"
  let ?s = "self\<lparr>bf_bits := (bf_bits self)[?p div 64 := bf_bits self ! (?p div 64) OR push_bit (?p mod 64) 1]\<rparr>"
  note r = probe_in_range [OF Suc.prems, of H key i]
  have idx: "bit_index (hash1 H key) (hash2 H key) i (bf_num_bits self) = Some ?p"
    using bloom_ok_num_bits(2) [OF Suc.prems] by (simp add: bit_index_def probe_def)
  have ok: "bloom_ok ?s" using Suc.prems by (simp add: bloom_ok_def)
  have set: "bit_set ?s b \<longleftrightarrow> bit_set self b \<or> b = ?p" for b
  proof (cases "b div 64 = ?p div 64")
    case True
    then have "b = ?p \<longleftrightarrow> b mod 64 = ?p mod 64" by (metis div_mult_mod_eq)
    then show ?thesis using True r by (simp add: bit_set_def set_bit_word)
  next
    case False
    then show ?thesis by (auto simp: bit_set_def)
  qed
  from Suc.IH [OF ok, of "Suc i"] obtain self' where
    s': "bloom_insert_loop n (Suc i) (hash1 H key) (hash2 H key) ?s = Some self'"
      "bf_num_bits self' = bf_num_bits self" "bf_num_hashes self' = bf_num_hashes self" "bloom_ok self'"
      "\<forall>b. bit_set self' b \<longleftrightarrow> bit_set ?s b \<or> (\<exists>j < n. b = probe H key self (Suc i + j))"
    by (auto simp: probe_def)
  have "bit_set self' b \<longleftrightarrow> bit_set self b \<or> (\<exists>j < Suc n. b = probe H key self (i + j))" for b
    using s'(5) set [of b] by (auto simp: Ex_less_Suc2)
  then show ?case using s' r by (simp add: idx Let_def)
qed

lemma bloom_insert_sets:
  "bloom_ok self \<Longrightarrow> \<exists>self'. bloom_insert H key self = Some self' \<and>
     bf_num_bits self' = bf_num_bits self \<and> bf_num_hashes self' = bf_num_hashes self \<and> bloom_ok self' \<and>
     (\<forall>b. bit_set self' b \<longleftrightarrow> bit_set self b \<or> (\<exists>j < unat (bf_num_hashes self). b = probe H key self j))"
  using bloom_insert_loop_sets [of self "unat (bf_num_hashes self)" 0 H key] by (simp add: bloom_insert_def)

lemma bloom_insert_contains:
  assumes ok: "bloom_ok self"
  obtains self' where "bloom_insert H key self = Some self'" "bloom_ok self'"
    "bloom_contains H key self' = Some True"
    "\<And>k. bloom_contains H k self = Some True \<Longrightarrow> bloom_contains H k self' = Some True"
proof -
  obtain self' where s': "bloom_insert H key self = Some self'"
    "bf_num_bits self' = bf_num_bits self" "bf_num_hashes self' = bf_num_hashes self" "bloom_ok self'"
    "\<forall>b. bit_set self' b \<longleftrightarrow> bit_set self b \<or> (\<exists>j < unat (bf_num_hashes self). b = probe H key self j)"
    using bloom_insert_sets [OF ok] by blast
  have p: "probe H k self' j = probe H k self j" for k j using s'(2) by (simp add: probe_def)
  show thesis
    by (rule that [OF s'(1,4)]) (use s'(3,5) ok s'(4) in \<open>auto simp: bloom_contains_probes p\<close>)
qed

lemma bloom_new_ok: "sz < 2 ^ 58 \<Longrightarrow> bloom_ok (bloom_new f sz)"
  by (auto simp: bloom_new_def bloom_ok_def Let_def)

section \<open>The Bloom filter block\<close>

definition words_bytes :: "u64 list \<Rightarrow> bytes" where
  "words_bytes ws = concat (map to_be_bytes64 ws)"

definition bloom_bytes :: "BloomFilter \<Rightarrow> bytes" where
  "bloom_bytes self = leb128 (length (bf_bits self)) @ words_bytes (bf_bits self) @ to_be_bytes64 (bf_num_hashes self)"

lemma words_bytes_simps [simp]:
  "words_bytes [] = []" "words_bytes (w # ws) = to_be_bytes64 w @ words_bytes ws"
  by (simp_all add: words_bytes_def)

lemma length_words_bytes [simp]: "length (words_bytes ws) = 8 * length ws"
  by (induction ws) simp_all

lemma write_words_fill:
  "8 * length ws \<le> length junk \<Longrightarrow>
   write_words ws (pre @ junk) (length pre) =
     Some ((pre @ words_bytes ws) @ drop (8 * length ws) junk, length pre + 8 * length ws)"
proof (induction ws arbitrary: pre junk)
  case Nil
  then show ?case by simp
next
  case (Cons w ws)
  have a: "copy_from_slice (pre @ junk) (length pre) (length pre + 8) (to_be_bytes64 w) =
      Some ((pre @ to_be_bytes64 w) @ drop 8 junk)"
    using Cons.prems copy_from_slice_fill [of "length pre" pre "length pre + 8" "to_be_bytes64 w" junk] by simp
  have "8 * length ws \<le> length (drop 8 junk)" using Cons.prems by simp
  from Cons.IH [OF this, of "pre @ to_be_bytes64 w"] show ?case using a by (simp add: add.commute)
qed

lemma bloom_serialize_bytes:
  assumes "length (bf_bits self) < 2 ^ 63"
  shows "bloom_serialize self = Some (bloom_bytes self)"
proof -
  let ?n = "length (bf_bits self)" and ?v = "leb128 (length (bf_bits self))"
  let ?junk = "replicate (8 * ?n + 8) (0 :: u8)"
  have enc: "encode_varint (of_nat ?n) = Some (?v @ replicate (10 - length ?v) 0, length ?v)"
    using assms by (simp add: encode_varint_leb128 unat_of_nat_small)
  have a: "copy_from_slice (replicate (length ?v + 8 * (?n + 1)) 0) 0 (length ?v) ?v = Some (?v @ ?junk)"
    using copy_from_slice_fill [of 0 "[]" "length ?v" ?v "replicate (length ?v + 8 * (?n + 1)) 0"] by simp
  have b: "write_words (bf_bits self) (?v @ ?junk) (length ?v) =
      Some ((?v @ words_bytes (bf_bits self)) @ replicate 8 0, length ?v + 8 * ?n)"
    using write_words_fill [of "bf_bits self" ?junk ?v] by simp
  have c: "copy_from_slice ((?v @ words_bytes (bf_bits self)) @ replicate 8 0) (length ?v + 8 * ?n)
      (length ?v + 8 * ?n + 8) (to_be_bytes64 (bf_num_hashes self)) = Some (bloom_bytes self)"
    using copy_from_slice_fill [of "length ?v + 8 * ?n" "?v @ words_bytes (bf_bits self)" "length ?v + 8 * ?n + 8"
        "to_be_bytes64 (bf_num_hashes self)" "replicate 8 0"] by (simp add: bloom_bytes_def)
  show ?thesis using a b c by (simp add: bloom_serialize_def enc slice_prefix Let_def)
qed

lemma read_words_bytes:
  "read_words (length ws) (pre @ words_bytes ws @ post) (length pre) = Some (ws, length pre + 8 * length ws)"
proof (induction ws arbitrary: pre)
  case Nil
  then show ?case by simp
next
  case (Cons w ws)
  have "get_be_array8 (pre @ to_be_bytes64 w @ words_bytes ws @ post) (length pre) = Some (to_be_bytes64 w)"
    by (simp add: get_be_array8_def slice_append_mid)
  then show ?case using Cons.IH [of "pre @ to_be_bytes64 w"] by (simp add: add.commute)
qed

lemma bloom_from_bytes_bytes:
  assumes "length (bf_bits self) < 2 ^ 63" "bf_num_bits self = 64 * of_nat (length (bf_bits self))"
  shows "bloom_from_bytes (bloom_bytes self) = Some self"
proof -
  let ?n = "length (bf_bits self)" and ?v = "leb128 (length (bf_bits self))" and ?h = "to_be_bytes64 (bf_num_hashes self)"
  have v: "decode_varint (bloom_bytes self) 0 = Some (of_nat ?n, length ?v)"
    using decode_varint_leb128 [of ?n 0 "[]"] assms(1) by (simp add: bloom_bytes_def)
  have w: "read_words ?n (bloom_bytes self) (length ?v) = Some (bf_bits self, length ?v + 8 * ?n)"
    using read_words_bytes [of "bf_bits self" ?v ?h] by (simp add: bloom_bytes_def)
  have h: "get_be_array8 (bloom_bytes self) (length ?v + 8 * ?n) = Some ?h"
    using slice_append_end [of "length ?v + 8 * ?n" "?v @ words_bytes (bf_bits self)" "length ?v + 8 * ?n + 8" ?h]
    by (simp add: bloom_bytes_def get_be_array8_def)
  show ?thesis
    using v w h assms by (simp add: bloom_from_bytes_def unat_of_nat_small Let_def)
qed

end
