(* ===== verification/Data_Block.thy ===== *)
theory Data_Block
  imports Record_Iter Os_File
begin

text \<open>
  Point reads from the data block of an SSTable, \<^verbatim>\<open>src/disk/mod.rs\<close>.  A result is
  \<open>(SSTableError + value) \<times> File\<close> under an option for panics; the reader \<open>R\<close> decides how many bytes
  a plain \<^verbatim>\<open>read\<close> delivers.
\<close>

section \<open>Definitions\<close>

datatype SSTableError = DiskRecordNotFound | IOError io_error | TombstoneFound | InvalidSSTableFile

text \<open>\<^verbatim>\<open>impl From<std::io::Error> for SSTableError\<close>, what \<^verbatim>\<open>?\<close> applies.\<close>

definition sstable_error_from :: "io_error \<Rightarrow> SSTableError" where
  [simp]: "sstable_error_from err = IOError err"

definition is_tombstone :: "u8 \<Rightarrow> bool" where
  "is_tombstone header \<longleftrightarrow> header = TOMBSTONE_LOG_HEADER"

text \<open>The scanning search: \<^verbatim>\<open>while offset < block_size\<close>.\<close>

function search_block_loop :: "bytes \<Rightarrow> bytes \<Rightarrow> nat \<Rightarrow> (SSTableError + bytes) option" where
  "search_block_loop block_buffer search_key offset =
     (if offset < length block_buffer
      then
        let header = block_buffer ! offset; offset1 = offset + 1 in
        (case decode_varint block_buffer offset1 of
           None \<Rightarrow> None
         | Some (log_size, bytes_walked) \<Rightarrow>
             let offset2 = offset1 + bytes_walked in
             (case usize_add offset2 (unat log_size) of
                None \<Rightarrow> None
              | Some log_end \<Rightarrow>
                  (case decode_varint block_buffer offset2 of
                     None \<Rightarrow> None
                   | Some (key_size, bytes_walked) \<Rightarrow>
                       let offset3 = offset2 + bytes_walked in
                       (case slice block_buffer offset3 (offset3 + unat key_size) of
                          None \<Rightarrow> None
                        | Some key \<Rightarrow>
                            if key \<noteq> search_key then search_block_loop block_buffer search_key log_end
                            else if is_tombstone header then Some (Inl TombstoneFound)
                            else do {
                              let offset4 = offset3 + unat key_size;
                              (data_size, bytes_walked) \<leftarrow> decode_varint block_buffer offset4;
                              let offset5 = offset4 + bytes_walked;
                              data \<leftarrow> slice block_buffer offset5 (offset5 + unat data_size);
                              Some (Inr data)
                            }))))
      else Some (Inl DiskRecordNotFound))"
  by pat_completeness auto
termination
  by (relation "measure (\<lambda>(b, k, off). length b - off)") (auto simp: usize_add_def split: if_splits)

declare search_block_loop.simps [simp del]

definition search_data_block ::
  "File \<Rightarrow> nat \<Rightarrow> nat \<Rightarrow> bytes \<Rightarrow> ((SSTableError + bytes) \<times> File) option" where
  "search_data_block fd block_start block_end search_key = do {
     block_size \<leftarrow> checked_sub block_end block_start;
     let fd = file_seek fd block_start;
     case file_read_exact fd block_size of
       (Inl e, fd) \<Rightarrow> Some (Inl (sstable_error_from e), fd)
     | (Inr block_buffer, fd) \<Rightarrow> do {
         r \<leftarrow> search_block_loop block_buffer search_key 0;
         Some (r, fd)
       }
   }"

text \<open>
  \<^verbatim>\<open>read_oversized_record_from_disk\<close>: the part of the value that the first read did not deliver is
  read into the tail of the result.
\<close>

definition read_oversized_record_from_disk ::
  "File \<Rightarrow> nat \<Rightarrow> bytes \<Rightarrow> ((SSTableError + bytes) \<times> File) option" where
  "read_oversized_record_from_disk fd offset buffer = do {
     (blob_size, bytes_walked) \<leftarrow> decode_varint buffer offset;
     let offset = offset + bytes_walked;
     first_part \<leftarrow> slice buffer offset (length buffer);
     assert_that (length first_part < unat blob_size);
     let result = vec_resize first_part (unat blob_size) 0;
     case file_read_exact fd (unat blob_size - length first_part) of
       (Inl e, fd) \<Rightarrow> Some (Inl (sstable_error_from e), fd)
     | (Inr rest, fd) \<Rightarrow> do {
         result \<leftarrow> copy_from_slice result (length first_part) (length result) rest;
         Some (Inr result, fd)
       }
   }"

text \<open>
  \<^verbatim>\<open>fd.read(&mut buffer)\<close> into the zeroed 4 KB buffer overwrites its first bytes; the number of bytes
  read is ignored by the code.  An error of \<^verbatim>\<open>seek\<close> or of \<^verbatim>\<open>read\<close> is returned as it is; the reader \<open>R\<close> stands for
  the outcome of both calls.
\<close>

definition read_data_block :: "reader \<Rightarrow> File \<Rightarrow> nat \<Rightarrow> bytes \<Rightarrow> ((SSTableError + bytes) \<times> File) option" where
  "read_data_block R fd offset key = do {
     let fd = file_seek fd offset;
     let buffer = replicate (unat RECORD_READ_BUFFER_SIZE) 0;
     case file_read R fd (length buffer) of
       (Inl e, fd) \<Rightarrow> Some (Inl (sstable_error_from e), fd)
     | (Inr got, fd) \<Rightarrow> do {
         let buffer = got @ drop (length got) buffer;
         let buffer_offset = 0;
         header \<leftarrow> vec_get buffer buffer_offset;
         let buffer_offset = buffer_offset + 1;
         if is_tombstone header then Some (Inl TombstoneFound, fd)
         else do {
           (log_size, log_bytes_walked) \<leftarrow> decode_varint buffer buffer_offset;
           let buffer_offset = buffer_offset + log_bytes_walked;
           key_varint_len \<leftarrow> varint_size_from_len (of_nat (length key));
           let key_start = buffer_offset + key_varint_len;
           stored_key \<leftarrow> slice buffer key_start (key_start + length key);
           assert_that (stored_key = key);
           let total_key_bytes = key_varint_len + length key;
           let buffer_offset = buffer_offset + total_key_bytes;
           rest_size \<leftarrow> checked_sub (unat log_size) total_key_bytes;
           record_end \<leftarrow> usize_add buffer_offset rest_size;
           if unat RECORD_READ_BUFFER_SIZE < record_end
           then read_oversized_record_from_disk fd buffer_offset buffer
           else do {
             (blob_size, bytes_walked) \<leftarrow> decode_varint buffer buffer_offset;
             let buffer_offset = buffer_offset + bytes_walked;
             blob \<leftarrow> slice buffer buffer_offset (buffer_offset + unat blob_size);
             Some (Inr blob, fd)
           }
         }
       }
   }"

section \<open>Reading one record\<close>

definition rec_head :: "bytes \<Rightarrow> bytes \<Rightarrow> bytes" where
  "rec_head k v = DATA_LOG_HEADER # leb128 (length (log_body k (Some v))) @ leb128 (length k) @ k @ leb128 (length v)"

lemma enc_blob_head: "enc_blob k (Some v) = rec_head k v @ v"
  by (simp add: enc_blob_def rec_head_def log_body_def)

lemma length_rec_head: "length (rec_head k v) = key_off k (Some v) + length k + length (leb128 (length v))"
  by (simp add: rec_head_def key_off_def log_varint_len_def)

text \<open>What the buffer holds after the first read: the head of the record, then as much as fits.\<close>

lemma first_read:
  assumes "full_reads R" and "f_data fd = pre @ head @ tail" and "length head \<le> n"
  shows "file_read R (file_seek fd (length pre)) n =
     (Inr (head @ take (n - length head) tail), fd\<lparr>f_pos := length pre + length (head @ take (n - length head) tail)\<rparr>)"
  using assms by (simp add: file_read_def file_seek_def full_reads_def Let_def)

lemma head_reads:
  assumes "rec_fits k (Some v)" and "buffer = rec_head k v @ rest"
  shows "vec_get buffer 0 = Some DATA_LOG_HEADER"
    and "decode_varint buffer 1 = Some (of_nat (length (log_body k (Some v))), log_varint_len k (Some v))"
    and "slice buffer (key_off k (Some v)) (key_off k (Some v) + length k) = Some k"
    and "decode_varint buffer (key_off k (Some v) + length k) = Some (of_nat (length v), length (leb128 (length v)))"
proof -
  note b = rec_fits_bounds [OF assms(1)]
  let ?l = "leb128 (length (log_body k (Some v)))" and ?kv = "leb128 (length k)" and ?vv = "leb128 (length v)"
  have buf: "buffer = DATA_LOG_HEADER # ?l @ ?kv @ k @ ?vv @ rest" using assms(2) by (simp add: rec_head_def)
  show "vec_get buffer 0 = Some DATA_LOG_HEADER" by (simp add: buf)
  show "decode_varint buffer 1 = Some (of_nat (length (log_body k (Some v))), log_varint_len k (Some v))"
    unfolding log_varint_len_def
    by (rule decode_varint_at [of _ _ "[DATA_LOG_HEADER]" "?kv @ k @ ?vv @ rest"]) (use b in \<open>simp_all add: buf\<close>)
  show "slice buffer (key_off k (Some v)) (key_off k (Some v) + length k) = Some k"
    using slice_append_mid [of "key_off k (Some v)" "DATA_LOG_HEADER # ?l @ ?kv" _ k "?vv @ rest"]
    by (simp add: buf key_off_def log_varint_len_def)
  show "decode_varint buffer (key_off k (Some v) + length k) = Some (of_nat (length v), length ?vv)"
    by (rule decode_varint_at [of _ _ "DATA_LOG_HEADER # ?l @ ?kv @ k" rest])
      (use b(3) [OF refl] in \<open>simp_all add: buf key_off_def log_varint_len_def\<close>)
qed

lemma read_oversized:
  assumes fits: "rec_fits k (Some v)" and buf: "buffer = rec_head k v @ take m v" and m: "m < length v"
    and fd: "f_data fd = pre @ enc_blob k (Some v) @ post" "f_pos fd = length pre + length buffer"
  shows "\<exists>fd'. read_oversized_record_from_disk fd (key_off k (Some v) + length k) buffer = Some (Inr v, fd') \<and>
    f_data fd' = f_data fd"
proof -
  let ?o = "length (rec_head k v)"
  have len: "length v < 2 ^ 64" using rec_fits_bounds(3) [OF fits refl] by simp
  have part: "slice buffer ?o (length buffer) = Some (take m v)" using m by (simp add: buf slice_def)
  have read: "file_read_exact fd (length v - m) = (Inr (drop m v), fd\<lparr>f_pos := f_pos fd + (length v - m)\<rparr>)"
    using fd m by (simp add: file_read_exact_def enc_blob_head buf)
  have "copy_from_slice (vec_resize (take m v) (length v) 0) m (length v) (drop m v) = Some v"
    using m by (simp add: copy_from_slice_def vec_resize_def)
  then show ?thesis
    using head_reads(4) [OF fits buf] part read m len
    by (simp add: read_oversized_record_from_disk_def Let_def length_rec_head unat_of_nat_small)
qed

lemma read_data_block_found:
  assumes fits: "rec_fits k (Some v)" and R: "full_reads R"
    and fd: "f_data fd = pre @ enc_blob k (Some v) @ post" and small: "length (rec_head k v) \<le> 4096"
  shows "\<exists>fd'. read_data_block R fd (length pre) k = Some (Inr v, fd') \<and> f_data fd' = f_data fd"
proof -
  let ?h = "rec_head k v" and ?m = "4096 - length (rec_head k v)"
  let ?got = "?h @ take ?m (v @ post)"
  let ?buf = "?got @ replicate (4096 - length ?got) 0"
  let ?fd = "fd\<lparr>f_pos := length pre + length ?got\<rparr>"
  note b = rec_fits_bounds [OF fits]
  have read: "file_read R (file_seek fd (length pre)) 4096 = (Inr ?got, ?fd)"
    by (rule first_read [OF R]) (use fd small in \<open>simp_all add: enc_blob_head\<close>)
  have buf: "?buf = ?h @ (take ?m (v @ post) @ replicate (4096 - length ?got) 0)" by simp
  note hd = head_reads [OF fits buf]
  have kv: "varint_size_from_len (of_nat (length k)) = Some (length (leb128 (length k)))"
    using b(1) by (rule varint_size_from_len_leb128)
  have ko: "1 + log_varint_len k (Some v) + length (leb128 (length k)) = key_off k (Some v)"
    by (simp add: key_off_def)
  have body: "length (log_body k (Some v)) = length (leb128 (length k)) + length k + (length (leb128 (length v)) + length v)"
    by (simp add: log_body_def)
  have bufsize: "unat RECORD_READ_BUFFER_SIZE = 4096" by (simp add: RECORD_READ_BUFFER_SIZE_def)
  have fit64: "key_off k (Some v) + length k + (length (leb128 (length v)) + length v) < 2 ^ 64"
    using fits by (simp add: rec_fits_def length_enc_blob)
  have core: "read_data_block R fd (length pre) k =
    (if 4096 < length ?h + length v
     then read_oversized_record_from_disk ?fd (key_off k (Some v) + length k) ?buf
     else do { blob \<leftarrow> slice ?buf (length ?h) (length ?h + length v); Some (Inr blob, ?fd) })"
  proof -
    define B where "B = ?buf"
    define G where "G = ?got"
    have d: "is_tombstone DATA_LOG_HEADER = False" by (simp add: is_tombstone_def)
    have u: "unat (of_nat (length (log_body k (Some v))) :: u64) = length (log_body k (Some v))"
      "unat (of_nat (length v) :: u64) = length v"
      using b(2) b(3) [OF refl] by (simp_all add: unat_of_nat_small)
    have pad: "G @ drop (length G) (replicate 4096 0) = B" by (simp add: B_def G_def)
    have read': "file_read R (file_seek fd (length pre)) 4096 = (Inr G, fd\<lparr>f_pos := length pre + length G\<rparr>)"
      using read by (simp add: G_def)
    have r: "checked_sub (length (log_body k (Some v))) (length (leb128 (length k)) + length k) =
        Some (length (leb128 (length v)) + length v)" by (simp add: checked_sub_def body)
    note hd' = hd [folded B_def]
    show ?thesis
      unfolding read_data_block_def Let_def bufsize length_replicate read' prod.case sum.case pad
        B_def [symmetric]
      unfolding G_def [symmetric] unfolding length_rec_head
      using hd' kv u r fit64 by (simp add: d key_off_def ac_simps)
  qed
  show ?thesis
  proof (cases "4096 < length ?h + length v")
    case True
    then have "take ?m (v @ post) = take ?m v" "length ?got = 4096" using small by simp_all
    then show ?thesis
      using core True read_oversized [OF fits, of ?buf ?m ?fd pre post] fd small by simp
  next
    case False
    then have "slice ?buf (length ?h) (length ?h + length v) = Some v"
      using small by (simp add: slice_def)
    then show ?thesis using core False by simp
  qed
qed

lemma read_data_block_tombstone:
  assumes "full_reads R" and fd: "f_data fd = pre @ enc_blob k None @ post"
  shows "\<exists>fd'. read_data_block R fd (length pre) key = Some (Inl TombstoneFound, fd') \<and> f_data fd' = f_data fd"
proof -
  obtain tail where blob: "enc_blob k None = TOMBSTONE_LOG_HEADER # tail" by (simp add: enc_blob_def)
  have "file_read R (file_seek fd (length pre)) 4096 =
      (Inr ([TOMBSTONE_LOG_HEADER] @ take 4095 (tail @ post)),
       fd\<lparr>f_pos := length pre + length ([TOMBSTONE_LOG_HEADER] @ take 4095 (tail @ post))\<rparr>)"
    using first_read [OF assms(1), of fd pre "[TOMBSTONE_LOG_HEADER]" "tail @ post" 4096] fd by (simp add: blob)
  moreover have "unat RECORD_READ_BUFFER_SIZE = 4096" by (simp add: RECORD_READ_BUFFER_SIZE_def)
  ultimately show ?thesis by (simp add: read_data_block_def Let_def is_tombstone_def)
qed

text \<open>The answer of a lookup in a list of entries.\<close>

definition block_answer :: "bytes option option \<Rightarrow> SSTableError + bytes" where
  "block_answer e = (case e of None \<Rightarrow> Inl DiskRecordNotFound | Some None \<Rightarrow> Inl TombstoneFound | Some (Some v) \<Rightarrow> Inr v)"

lemma block_answer_simps [simp]:
  "block_answer None = Inl DiskRecordNotFound" "block_answer (Some None) = Inl TombstoneFound"
  "block_answer (Some (Some v)) = Inr v"
  by (simp_all add: block_answer_def)

section \<open>Scanning a block\<close>

lemma search_block_step:
  assumes fits: "rec_fits k p" and buf: "buffer = pre @ enc_blob k p @ post" and small: "length buffer < 2 ^ 63"
  shows "search_block_loop buffer key (length pre) =
    (if k = key then Some (block_answer (Some p)) else search_block_loop buffer key (length pre + length (enc_blob k p)))"
proof -
  note d = enc_blob_varints [OF fits buf] and b = rec_fits_bounds [OF fits]
  have hd: "length pre < length buffer" "buffer ! length pre = header_of p"
    by (simp_all add: buf enc_blob_def)
  have u: "unat (of_nat (length (log_body k p)) :: u64) = length (log_body k p)"
    "unat (of_nat (length k) :: u64) = length k"
    using b by (simp_all add: unat_of_nat_small)
  have log_end: "usize_add (length pre + 1 + log_varint_len k p) (length (log_body k p)) =
      Some (length pre + length (enc_blob k p))"
    using small by (simp add: buf enc_blob_def log_varint_len_def)
  have key: "slice buffer (length pre + 1 + log_varint_len k p + length (leb128 (length k)))
      (length pre + 1 + log_varint_len k p + length (leb128 (length k)) + length k) = Some k"
    using slice_append_mid [of "length pre + 1 + log_varint_len k p + length (leb128 (length k))"
        "pre @ header_of p # leb128 (length (log_body k p)) @ leb128 (length k)" _ k "payload_bytes p @ post"]
    by (simp add: buf enc_blob_def log_body_def log_varint_len_def)
  show ?thesis
  proof (cases "k = key")
    case False
    then show ?thesis
      by (subst search_block_loop.simps) (use d(1,2) hd u log_end key in \<open>simp add: Let_def\<close>)
  next
    case True
    show ?thesis
    proof (cases p)
      case None
      then show ?thesis using True
        by (subst search_block_loop.simps)
          (use d(1,2) hd u log_end key in \<open>simp add: Let_def is_tombstone_def\<close>)
    next
      case (Some v)
      let ?off = "length pre + 1 + log_varint_len k p + length (leb128 (length k)) + length k"
      have off: "?off = length pre + key_off k p + length k" by (simp add: key_off_def)
      have v: "unat (of_nat (length v) :: u64) = length v" using b(3) [OF Some] by (simp add: unat_of_nat_small)
      have val: "slice buffer (?off + length (leb128 (length v))) (?off + length (leb128 (length v)) + length v) = Some v"
        using slice_append_mid [of "?off + length (leb128 (length v))"
            "pre @ header_of p # leb128 (length (log_body k p)) @ leb128 (length k) @ k @ leb128 (length v)" _ v post]
        by (simp add: buf enc_blob_def log_body_def log_varint_len_def Some)
      show ?thesis using True
        by (subst search_block_loop.simps)
          (use d(1,2) d(3) [OF Some, folded off] hd u v log_end key val Some in \<open>simp add: Let_def is_tombstone_def\<close>)
    qed
  qed
qed

lemma search_block_loop_enc_blobs:
  "buffer = pre @ enc_blobs kps \<Longrightarrow> length buffer < 2 ^ 63 \<Longrightarrow>
   search_block_loop buffer key (length pre) = Some (block_answer (map_of kps key))"
proof (induction kps arbitrary: pre)
  case Nil
  then show ?case by (subst search_block_loop.simps) simp
next
  case (Cons kp kps)
  obtain k p where kp: "kp = (k, p)" by (cases kp)
  have fits: "rec_fits k p" using Cons.prems by (simp add: kp rec_fits_def)
  have buf: "buffer = pre @ enc_blob k p @ enc_blobs kps" using Cons.prems by (simp add: kp)
  show ?case
    using search_block_step [OF fits buf Cons.prems(2), of key] Cons.IH [of "pre @ enc_blob k p"] Cons.prems
    by (auto simp: kp)
qed

end
