(* ===== verification/SSTable.thy ===== *)
theory SSTable
  imports Trie_Codec Bloom Data_Block Kv_Table
begin

text \<open>
  An SSTable on disk and in memory: \<^verbatim>\<open>src/sstable/footer.rs\<close>, \<^verbatim>\<open>src/ssindex/mod.rs\<close>,
  \<^verbatim>\<open>src/sstable/mod.rs\<close>, \<^verbatim>\<open>src/sstable/iterator.rs\<close> and \<^verbatim>\<open>encode_footer\<close> of
  \<^verbatim>\<open>src/sstable/encode.rs\<close>.  The file is

    header, version, data block, index block (trie), Bloom filter, footer.
\<close>

section \<open>Definitions\<close>

definition encode_footer :: "u64 \<Rightarrow> u64 \<Rightarrow> u64 \<Rightarrow> bytes option" where
  "encode_footer index_block_start index_block_count bloom_filter_start = do {
     let buffer = replicate (unat FOOTER_SIZE) 0;
     buffer \<leftarrow> copy_from_slice buffer 0 8 (to_be_bytes64 index_block_start);
     buffer \<leftarrow> copy_from_slice buffer 8 16 (to_be_bytes64 index_block_count);
     copy_from_slice buffer 16 24 (to_be_bytes64 bloom_filter_start)
   }"

record SSTableFooter =
  ft_index_block_start :: u64
  ft_index_block_len :: u64
  ft_bloom_filter_start :: u64

definition footer_from_disk :: "File \<Rightarrow> nat \<Rightarrow> ((io_error + SSTableFooter) \<times> File) option" where
  "footer_from_disk fd footer_offset =
     (let fd = file_seek fd footer_offset
      in case file_read_exact fd 24 of
           (Inl e, fd) \<Rightarrow> Some (Inl e, fd)
         | (Inr footer_buffer, fd) \<Rightarrow> do {
             a \<leftarrow> get_be_array8 footer_buffer 0;
             b \<leftarrow> get_be_array8 footer_buffer 8;
             c \<leftarrow> get_be_array8 footer_buffer 16;
             Some (Inr \<lparr>ft_index_block_start = from_be_bytes64 a, ft_index_block_len = from_be_bytes64 b,
                        ft_bloom_filter_start = from_be_bytes64 c\<rparr>, fd)
           })"

record SstIndex =
  si_trie :: Trie
  si_bloom_filter :: BloomFilter
  si_data_block_end :: u64

definition sst_index_from_disk :: "File \<Rightarrow> ((io_error + SstIndex) \<times> File) option" where
  "sst_index_from_disk fd = do {
     footer_offset \<leftarrow> checked_sub (length (f_data fd)) (unat FOOTER_SIZE);
     (r, fd) \<leftarrow> footer_from_disk fd footer_offset;
     case r of
       Inl e \<Rightarrow> Some (Inl e, fd)
     | Inr footer \<Rightarrow> do {
         index_len \<leftarrow> checked_sub (unat (ft_bloom_filter_start footer)) (unat (ft_index_block_start footer));
         let fd = file_seek fd (unat (ft_index_block_start footer));
         case file_read_exact fd index_len of
           (Inl e, fd) \<Rightarrow> Some (Inl e, fd)
         | (Inr index_table_buffer, fd) \<Rightarrow> do {
             trie \<leftarrow> trie_deserialize_from_disk index_table_buffer;
             bloom_filter_len \<leftarrow> checked_sub footer_offset (unat (ft_bloom_filter_start footer));
             case file_read_exact fd bloom_filter_len of
               (Inl e, fd) \<Rightarrow> Some (Inl e, fd)
             | (Inr bloom_filter_buffer, fd) \<Rightarrow> do {
                 bloom_filter \<leftarrow> bloom_from_bytes bloom_filter_buffer;
                 Some (Inr \<lparr>si_trie = trie, si_bloom_filter = bloom_filter,
                            si_data_block_end = ft_index_block_start footer\<rparr>, fd)
               }
           }
       }
   }"

definition get_offset_for_key :: "hasher \<Rightarrow> bytes \<Rightarrow> SstIndex \<Rightarrow> u64 option option" where
  "get_offset_for_key H key self = do {
     c \<leftarrow> bloom_contains H key (si_bloom_filter self);
     if \<not> c then Some None else trie_get key (si_trie self)
   }"

definition validate_buffer_and_get_version :: "File \<Rightarrow> ((SSTableError + u16) \<times> File) option" where
  "validate_buffer_and_get_version fd =
     (case file_read_exact fd 7 of
        (Inl e, fd) \<Rightarrow> Some (Inl (sstable_error_from e), fd)
      | (Inr header_buffer, fd) \<Rightarrow>
          if header_buffer \<noteq> LSMLITE_SSTABLE_HEADER then Some (Inl InvalidSSTableFile, fd)
          else (case file_read_exact fd 2 of
                  (Inl e, fd) \<Rightarrow> Some (Inl (sstable_error_from e), fd)
                | (Inr version_buffer, fd) \<Rightarrow> do {
                    version_arr \<leftarrow> get_be_array2 version_buffer;
                    Some (Inr (from_be_bytes16 version_arr), fd)
                  }))"

record SSTable =
  ss_index :: SstIndex
  ss_fd :: File
  ss_version :: u16

definition sstable_from_fd :: "File \<Rightarrow> (SSTableError + SSTable) option" where
  "sstable_from_fd fd = do {
     (r, fd) \<leftarrow> validate_buffer_and_get_version fd;
     case r of
       Inl e \<Rightarrow> Some (Inl e)
     | Inr version \<Rightarrow> do {
         (r, fd) \<leftarrow> sst_index_from_disk fd;
         case r of
           Inl e \<Rightarrow> Some (Inl (sstable_error_from e))
         | Inr index \<Rightarrow> Some (Inr \<lparr>ss_index = index, ss_fd = fd, ss_version = version\<rparr>)
       }
   }"

text \<open>\<^verbatim>\<open>from_path\<close>: \<open>contents\<close> is the outcome of opening the file.\<close>

definition sstable_from_path :: "io_error + bytes \<Rightarrow> (SSTableError + SSTable) option" where
  "sstable_from_path contents =
     (case contents of Inl e \<Rightarrow> Some (Inl (sstable_error_from e)) | Inr bs \<Rightarrow> sstable_from_fd (file_open bs))"

definition sstable_read_data_block :: "reader \<Rightarrow> u64 \<Rightarrow> bytes \<Rightarrow> SSTable \<Rightarrow> ((SSTableError + bytes) \<times> SSTable) option" where
  [simp]: "sstable_read_data_block R offset key self = do {
     (r, fd) \<leftarrow> read_data_block R (ss_fd self) (unat offset) key;
     Some (r, self\<lparr>ss_fd := fd\<rparr>)
   }"

definition sstable_search :: "hasher \<Rightarrow> reader \<Rightarrow> bytes \<Rightarrow> SSTable \<Rightarrow> ((SSTableError + bytes) \<times> SSTable) option" where
  "sstable_search H R key self = do {
     found \<leftarrow> get_offset_for_key H key (ss_index self);
     case found of
       None \<Rightarrow> Some (Inl DiskRecordNotFound, self)
     | Some offset \<Rightarrow> sstable_read_data_block R offset key self
   }"

record SSTableIterator =
  it_buffer :: bytes
  it_offset :: nat

text \<open>A failed \<^verbatim>\<open>read_exact\<close> is ignored; what it leaves in the buffer is unspecified (\<open>spoiled\<close>).\<close>

definition sstable_iterator_new :: "(nat \<Rightarrow> bytes) \<Rightarrow> SSTable \<Rightarrow> (SSTableIterator \<times> SSTable) option" where
  "sstable_iterator_new spoiled table = do {
     len \<leftarrow> checked_sub (unat (si_data_block_end (ss_index table))) (unat HEADER_SIZE);
     let fd = file_seek (ss_fd table) (unat HEADER_SIZE);
     let (r, fd) = file_read_exact fd len;
     let buffer = (case r of Inr bs \<Rightarrow> bs | Inl _ \<Rightarrow> vec_resize (spoiled len) len 0);
     Some (\<lparr>it_buffer = buffer, it_offset = 0\<rparr>, table\<lparr>ss_fd := fd\<rparr>)
   }"

definition sstable_next :: "SSTableIterator \<Rightarrow> (Record option \<times> SSTableIterator) option" where
  "sstable_next self =
     (if length (it_buffer self) \<le> it_offset self then Some (None, self)
      else do {
        (r, offset) \<leftarrow> decode_disk_record (it_buffer self) (it_offset self);
        Some (r, self\<lparr>it_offset := offset\<rparr>)
      })"

interpretation sstable_iter: record_iterator sstable_next it_buffer it_offset
  by unfold_locales (auto simp: sstable_next_def)

subsection \<open>The cache of open tables, newest first\<close>

record SSTableCache =
  sc_cache :: "SSTable list"
  sc_compaction_rate :: nat

definition cache_new :: "nat \<Rightarrow> SSTableCache" where
  "cache_new compaction_rate = \<lparr>sc_cache = [], sc_compaction_rate = compaction_rate\<rparr>"

text \<open>\<^verbatim>\<open>from_restart\<close>: \<^verbatim>\<open>expect\<close> on every table; the list is the files' contents, newest first.\<close>

primrec load_tables :: "(io_error + bytes) list \<Rightarrow> SSTable list option" where
  "load_tables [] = Some []"
| "load_tables (c # cs) = do {
     r \<leftarrow> sstable_from_path c;
     t \<leftarrow> (case r of Inl _ \<Rightarrow> None | Inr t \<Rightarrow> Some t);
     ts \<leftarrow> load_tables cs;
     Some (t # ts)
   }"

definition cache_from_restart :: "(io_error + bytes) list \<Rightarrow> nat \<Rightarrow> SSTableCache option" where
  "cache_from_restart disk_tables compaction_rate = do {
     ts \<leftarrow> load_tables disk_tables;
     Some \<lparr>sc_cache = ts, sc_compaction_rate = compaction_rate\<rparr>
   }"

primrec search_tables :: "hasher \<Rightarrow> reader \<Rightarrow> bytes \<Rightarrow> SSTable list \<Rightarrow> ((SSTableError + bytes) \<times> SSTable list) option" where
  "search_tables H R key [] = Some (Inl DiskRecordNotFound, [])"
| "search_tables H R key (t # ts) = do {
     (r, t) \<leftarrow> sstable_search H R key t;
     case r of
       Inr v \<Rightarrow> Some (Inr v, t # ts)
     | Inl TombstoneFound \<Rightarrow> Some (Inl DiskRecordNotFound, t # ts)
     | Inl _ \<Rightarrow> do {
         (r, ts) \<leftarrow> search_tables H R key ts;
         Some (r, t # ts)
       }
   }"

definition cache_search :: "hasher \<Rightarrow> reader \<Rightarrow> bytes \<Rightarrow> SSTableCache \<Rightarrow> ((SSTableError + bytes) \<times> SSTableCache) option" where
  "cache_search H R key self = do {
     (r, ts) \<leftarrow> search_tables H R key (sc_cache self);
     Some (r, self\<lparr>sc_cache := ts\<rparr>)
   }"

definition cache_push :: "SSTable \<Rightarrow> SSTableCache \<Rightarrow> nat \<times> SSTableCache" where
  "cache_push table self =
     (let ts = table # sc_cache self in (length ts, self\<lparr>sc_cache := ts\<rparr>))"

definition replace_with_compact_table :: "SSTable \<Rightarrow> SSTableCache \<Rightarrow> SSTableCache" where
  "replace_with_compact_table new_table self = self\<lparr>sc_cache := [new_table]\<rparr>"

definition clone_tables :: "SSTableCache \<Rightarrow> SSTable list" where
  "clone_tables self = sc_cache self"

section \<open>The file format\<close>

definition file_header :: bytes where
  "file_header = LSMLITE_SSTABLE_HEADER @ to_be_bytes16 V0_HEADER"

definition footer_bytes :: "u64 \<Rightarrow> u64 \<Rightarrow> u64 \<Rightarrow> bytes" where
  "footer_bytes a b c = to_be_bytes64 a @ to_be_bytes64 b @ to_be_bytes64 c"

definition sstable_bytes :: "entry list \<Rightarrow> TrieNode list \<Rightarrow> BloomFilter \<Rightarrow> bytes" where
  "sstable_bytes kps A bf =
     (let data_end = 9 + length (enc_blobs kps); bloom_start = data_end + length (trie_bytes A)
      in file_header @ enc_blobs kps @ trie_bytes A @ bloom_bytes bf @
         footer_bytes (of_nat data_end) (of_nat (length (trie_bytes A))) (of_nat bloom_start))"

lemma encode_footer_bytes: "encode_footer a b c = Some (footer_bytes a b c)"
  by (simp add: encode_footer_def FOOTER_SIZE_def copy_from_slice_def footer_bytes_def)

lemma length_footer_bytes [simp]: "length (footer_bytes a b c) = 24"
  by (simp add: footer_bytes_def)

lemma length_file_header [simp]: "length file_header = 9"
  by (simp add: file_header_def LSMLITE_SSTABLE_HEADER_def)

lemma length_sstable_bytes:
  "length (sstable_bytes kps A bf) =
     9 + length (enc_blobs kps) + length (trie_bytes A) + length (bloom_bytes bf) + 24"
  by (simp add: sstable_bytes_def Let_def)

section \<open>Opening a table\<close>

lemma read_exact_at:
  "f_data fd = pre @ xs @ post \<Longrightarrow> f_pos fd = length pre \<Longrightarrow> n = length xs \<Longrightarrow>
   file_read_exact fd n = (Inr xs, fd\<lparr>f_pos := length pre + length xs\<rparr>)"
  by (simp add: file_read_exact_def)

lemma footer_from_disk_bytes:
  assumes "f_data fd = pre @ footer_bytes a b c" "off = length pre"
  shows "footer_from_disk fd off =
    Some (Inr \<lparr>ft_index_block_start = a, ft_index_block_len = b, ft_bloom_filter_start = c\<rparr>,
      fd\<lparr>f_pos := length pre + 24\<rparr>)"
proof -
  have "file_read_exact (file_seek fd off) 24 = (Inr (footer_bytes a b c), fd\<lparr>f_pos := length pre + 24\<rparr>)"
    using read_exact_at [of "file_seek fd off" pre "footer_bytes a b c" "[]" 24] assms
    by (simp add: file_seek_def)
  moreover have "get_be_array8 (footer_bytes a b c) 0 = Some (to_be_bytes64 a)"
    "get_be_array8 (footer_bytes a b c) 8 = Some (to_be_bytes64 b)"
    "get_be_array8 (footer_bytes a b c) 16 = Some (to_be_bytes64 c)"
    by (simp_all add: footer_bytes_def get_be_array8_def slice_def)
  ultimately show ?thesis by (simp add: footer_from_disk_def)
qed

definition table_ok :: "entry list \<Rightarrow> TrieNode list \<Rightarrow> BloomFilter \<Rightarrow> bool" where
  "table_ok kps A bf \<longleftrightarrow> (\<forall>n \<in> set A. length (tn_children n) < 256) \<and> length A < 2 ^ 32 \<and> bloom_ok bf \<and>
     length (sstable_bytes kps A bf) < 2 ^ 63"

lemma sst_index_from_disk_bytes:
  assumes ok: "table_ok kps A bf" and fd: "f_data fd = sstable_bytes kps A bf"
  shows "sst_index_from_disk fd =
    Some (Inr \<lparr>si_trie = \<lparr>tr_arena = A\<rparr>, si_bloom_filter = bf, si_data_block_end = of_nat (9 + length (enc_blobs kps))\<rparr>,
      fd\<lparr>f_pos := 9 + length (enc_blobs kps) + length (trie_bytes A) + length (bloom_bytes bf)\<rparr>)"
proof -
  define d n m where "d = 9 + length (enc_blobs kps)" and "n = length (trie_bytes A)" and "m = length (bloom_bytes bf)"
  let ?t = "trie_bytes A" and ?b = "bloom_bytes bf" and ?pre = "file_header @ enc_blobs kps"
  let ?f = "footer_bytes (of_nat d) (of_nat n) (of_nat (d + n))"
  note defs = d_def n_def m_def
  have data: "f_data fd = (?pre @ ?t @ ?b) @ ?f"
    using fd by (simp add: sstable_bytes_def Let_def defs del: of_nat_add)
  have pre: "length ?pre = d" "length (?pre @ ?t) = d + n" "length (?pre @ ?t @ ?b) = d + n + m"
    by (simp_all add: defs)
  have len: "length (f_data fd) = d + n + m + 24" unfolding data by (simp add: defs)
  have small: "d + n < 2 ^ 63" using ok len fd by (simp add: table_ok_def)
  have foot: "footer_from_disk fd (d + n + m) =
      Some (Inr \<lparr>ft_index_block_start = of_nat d, ft_index_block_len = of_nat n,
        ft_bloom_filter_start = of_nat (d + n)\<rparr>, fd\<lparr>f_pos := d + n + m + 24\<rparr>)"
    using footer_from_disk_bytes [OF data refl] unfolding pre .
  have u: "unat (of_nat d :: u64) = d" "unat (of_nat (d + n) :: u64) = d + n"
    using small by (intro unat_of_nat_small, simp)+
  let ?fd1 = "fd\<lparr>f_pos := d\<rparr>" and ?fd2 = "fd\<lparr>f_pos := d + n\<rparr>"
  have r1: "file_read_exact ?fd1 n = (Inr ?t, ?fd2)"
    using read_exact_at [of ?fd1 ?pre ?t "?b @ ?f" n] data unfolding pre by (simp add: n_def)
  have r2: "file_read_exact ?fd2 m = (Inr ?b, fd\<lparr>f_pos := d + n + m\<rparr>)"
    using read_exact_at [of ?fd2 "?pre @ ?t" ?b ?f m] data unfolding pre by (simp add: m_def)
  have t: "trie_deserialize_from_disk ?t = Some \<lparr>tr_arena = A\<rparr>"
    using ok by (intro trie_deserialize_bytes) (simp_all add: table_ok_def)
  have b: "bloom_from_bytes ?b = Some bf"
    using ok by (intro bloom_from_bytes_bytes) (simp_all add: table_ok_def bloom_ok_def)
  have "sst_index_from_disk fd =
      Some (Inr \<lparr>si_trie = \<lparr>tr_arena = A\<rparr>, si_bloom_filter = bf, si_data_block_end = of_nat d\<rparr>, fd\<lparr>f_pos := d + n + m\<rparr>)"
    unfolding sst_index_from_disk_def
    using foot u r1 r2 t b len
    by (simp add: checked_sub_def FOOTER_SIZE_def file_seek_def Let_def del: of_nat_add)
  then show ?thesis by (simp add: defs del: of_nat_add)
qed

text \<open>The state of a table right after it was opened (the file position is irrelevant).\<close>

definition opened :: "entry list \<Rightarrow> TrieNode list \<Rightarrow> BloomFilter \<Rightarrow> SSTable \<Rightarrow> bool" where
  "opened kps A bf t \<longleftrightarrow> ss_index t = \<lparr>si_trie = \<lparr>tr_arena = A\<rparr>, si_bloom_filter = bf,
       si_data_block_end = of_nat (9 + length (enc_blobs kps))\<rparr> \<and>
     f_data (ss_fd t) = sstable_bytes kps A bf \<and> ss_version t = V0_HEADER"

lemma sstable_from_fd_bytes:
  assumes ok: "table_ok kps A bf"
  shows "\<exists>t. sstable_from_fd (file_open (sstable_bytes kps A bf)) = Some (Inr t) \<and> opened kps A bf t"
proof -
  let ?fd = "file_open (sstable_bytes kps A bf)"
  obtain post where data: "sstable_bytes kps A bf = LSMLITE_SSTABLE_HEADER @ to_be_bytes16 V0_HEADER @ post"
    by (simp add: sstable_bytes_def Let_def file_header_def)
  have h: "length LSMLITE_SSTABLE_HEADER = 7" by (simp add: LSMLITE_SSTABLE_HEADER_def)
  have r1: "file_read_exact ?fd 7 = (Inr LSMLITE_SSTABLE_HEADER, ?fd\<lparr>f_pos := 7\<rparr>)"
    using read_exact_at [of ?fd "[]" LSMLITE_SSTABLE_HEADER "to_be_bytes16 V0_HEADER @ post" 7] data h
    by (simp add: file_open_def)
  have r2: "file_read_exact (?fd\<lparr>f_pos := 7\<rparr>) 2 = (Inr (to_be_bytes16 V0_HEADER), ?fd\<lparr>f_pos := 9\<rparr>)"
    using read_exact_at [of "?fd\<lparr>f_pos := 7\<rparr>" LSMLITE_SSTABLE_HEADER "to_be_bytes16 V0_HEADER" post 2] data h
    by (simp add: file_open_def)
  have v: "validate_buffer_and_get_version ?fd = Some (Inr V0_HEADER, ?fd\<lparr>f_pos := 9\<rparr>)"
    using r1 r2 by (simp add: validate_buffer_and_get_version_def get_be_array2_def)
  have "f_data (?fd\<lparr>f_pos := 9\<rparr>) = sstable_bytes kps A bf" by (simp add: file_open_def)
  from sst_index_from_disk_bytes [OF ok this] show ?thesis
    using v by (simp add: sstable_from_fd_def opened_def file_open_def)
qed

end
