(* ===== verification/Sst_Index.thy ===== *)
theory Sst_Index
  imports SSTable
begin

text \<open>
  The index of an SSTable against its data block: which trie and which Bloom filter belong to a list
  of entries written back to back, one step of building them (shared by the memtable flush and by the
  compaction writer), and what a search in an opened table answers.
\<close>

section \<open>Offsets of the entries in the data block\<close>

fun entry_offsets :: "nat \<Rightarrow> entry list \<Rightarrow> (bytes \<times> nat) list" where
  "entry_offsets start [] = []"
| "entry_offsets start ((k, p) # kps) = (k, start) # entry_offsets (start + length (enc_blob k p)) kps"

text \<open>The number of bytes of all keys, one more for each: a bound on the nodes of the trie.\<close>

definition key_bytes :: "entry list \<Rightarrow> nat" where
  "key_bytes kps = sum_list (map (\<lambda>(k, p). Suc (length k)) kps)"

lemma key_bytes_simps [simp]:
  "key_bytes [] = 0" "key_bytes ((k, p) # kps) = Suc (length k) + key_bytes kps"
  "key_bytes (xs @ ys) = key_bytes xs + key_bytes ys"
  by (simp_all add: key_bytes_def)

lemma entry_offsets_append:
  "entry_offsets start (xs @ ys) = entry_offsets start xs @ entry_offsets (start + length (enc_blobs xs)) ys"
  by (induction start xs rule: entry_offsets.induct) (simp_all add: add.assoc)

lemma keys_entry_offsets [simp]: "map fst (entry_offsets start kps) = map fst kps"
  by (induction start kps rule: entry_offsets.induct) simp_all

text \<open>An offset splits the block at the entry it belongs to.\<close>

lemma entry_offsets_split:
  "(k, off) \<in> set (entry_offsets start kps) \<Longrightarrow>
   \<exists>xs p ys. kps = xs @ (k, p) # ys \<and> off = start + length (enc_blobs xs)"
proof (induction start kps rule: entry_offsets.induct)
  case (1 start)
  then show ?case by simp
next
  case (2 start k' p' kps)
  show ?case
  proof (cases "k = k' \<and> off = start")
    case True
    then show ?thesis by (intro exI [of _ "[]"]) simp
  next
    case False
    then have "(k, off) \<in> set (entry_offsets (start + length (enc_blob k' p')) kps)" using "2.prems" by auto
    from "2.IH" [OF this] obtain xs p ys where
      "kps = xs @ (k, p) # ys" "off = start + length (enc_blob k' p') + length (enc_blobs xs)" by blast
    then show ?thesis by (intro exI [of _ "(k', p') # xs"] exI [of _ p] exI [of _ ys]) simp
  qed
qed

lemma map_of_entry_offsets_None [simp]: "map_of (entry_offsets start kps) k = None \<longleftrightarrow> map_of kps k = None"
  by (simp add: map_of_eq_None_iff flip: set_map)

lemma map_of_entry_offsets_Some:
  assumes "map_of (entry_offsets start kps) k = Some off" "distinct (map fst kps)"
  obtains xs p ys where "kps = xs @ (k, p) # ys" "off = start + length (enc_blobs xs)" "map_of kps k = Some p"
proof -
  from entry_offsets_split [OF map_of_SomeD [OF assms(1)]] obtain xs p ys where
    s: "kps = xs @ (k, p) # ys" "off = start + length (enc_blobs xs)" by blast
  moreover have "map_of kps k = Some p" using assms(2) s(1) by (intro map_of_is_SomeI) simp_all
  ultimately show thesis using that by blast
qed

section \<open>The index of a list of entries\<close>

definition indexes :: "hasher \<Rightarrow> entry list \<Rightarrow> Trie \<Rightarrow> BloomFilter \<Rightarrow> bool" where
  "indexes H kps t bf \<longleftrightarrow>
     trie_inv (tr_arena t) \<and>
     trie_view (tr_arena t) = map_option of_nat \<circ> map_of (rev (entry_offsets 9 kps)) \<and>
     trie_paths (tr_arena t) = {q. \<exists>k \<in> fst ` set kps. prefix q k} \<and>
     all_reached (tr_arena t) \<and> length (tr_arena t) \<le> key_bytes kps \<and>
     bloom_ok bf \<and> (\<forall>k \<in> fst ` set kps. bloom_contains H k bf = Some True)"

lemma indexes_new: "n < 2 ^ 58 \<Longrightarrow> indexes H [] (trie_new m) (bloom_new f n)"
  by (auto simp: indexes_def trie_new_def bloom_new_ok trie_view_def trie_paths_def all_reached_def)

lemma map_option_upd: "map_option f \<circ> m(k \<mapsto> v) = (map_option f \<circ> m)(k \<mapsto> f v)"
  by auto

lemma indexes_step:
  assumes ix: "indexes H kps t bf" and kb: "key_bytes kps + length k < 2 ^ 32"
    and sz: "9 + length (enc_blobs kps) < 2 ^ 63"
  obtains t' bf' where "trie_insert k (of_nat (9 + length (enc_blobs kps))) t = Some t'"
    "bloom_insert H k bf = Some bf'" "indexes H (kps @ [(k, p)]) t' bf'"
proof -
  let ?off = "of_nat (9 + length (enc_blobs kps)) :: u64"
  have inv: "trie_inv (tr_arena t)" "all_reached (tr_arena t)" "bloom_ok bf"
    and len: "length (tr_arena t) \<le> key_bytes kps" using ix by (simp_all add: indexes_def)
  have "unat ?off = 9 + length (enc_blobs kps)" using sz by (intro unat_of_nat_small) simp
  then have off: "unat ?off < 2 ^ 63" using sz by simp
  have small: "length (tr_arena t) + length k < 2 ^ 32" using kb len by simp
  from trie_insert_correct [OF inv(1) off small] obtain t' where
    t': "trie_insert k ?off t = Some t'" "trie_inv (tr_arena t')"
      "trie_view (tr_arena t') = (trie_view (tr_arena t))(k \<mapsto> ?off)"
      "length (tr_arena t') \<le> Suc (length (tr_arena t) + length k)" by blast
  note paths = trie_insert_paths [OF inv(1) small t'(1) inv(2)]
  obtain bf' where bf': "bloom_insert H k bf = Some bf'" "bloom_ok bf'" "bloom_contains H k bf' = Some True"
    "\<And>k'. bloom_contains H k' bf = Some True \<Longrightarrow> bloom_contains H k' bf' = Some True"
    by (rule bloom_insert_contains [OF inv(3), where H = H and key = k]) blast
  have "rev (entry_offsets 9 (kps @ [(k, p)])) = (k, 9 + length (enc_blobs kps)) # rev (entry_offsets 9 kps)"
    by (simp add: entry_offsets_append)
  then have view: "trie_view (tr_arena t') = map_option of_nat \<circ> map_of (rev (entry_offsets 9 (kps @ [(k, p)])))"
    using t'(3) ix by (simp add: indexes_def map_option_upd)
  have pf: "trie_paths (tr_arena t') = {q. \<exists>k' \<in> fst ` set (kps @ [(k, p)]). prefix q k'}"
    using paths(1) ix by (auto simp: indexes_def)
  have lb: "length (tr_arena t') \<le> key_bytes (kps @ [(k, p)])" using t'(4) len by simp
  have bl: "\<forall>k' \<in> fst ` set (kps @ [(k, p)]). bloom_contains H k' bf' = Some True"
    using bf'(3,4) ix by (auto simp: indexes_def)
  have "indexes H (kps @ [(k, p)]) t' bf'"
    unfolding indexes_def using t'(2) view pf paths(2) lb bf'(2) bl by blast
  with t'(1) bf'(1) show thesis by (rule that)
qed

text \<open>
  No prefix is followed by all 256 bytes: the condition under which the child counts of the trie fit
  the single byte of the index block.
\<close>

definition branching_ok :: "entry list \<Rightarrow> bool" where
  "branching_ok kps \<longleftrightarrow> (\<forall>q. \<exists>c. \<forall>k \<in> fst ` set kps. \<not> prefix (q @ [c]) k)"

lemma node_sizes_bound:
  "\<forall>n \<in> set A. length (tn_children n) < 256 \<Longrightarrow> sum_list (map node_serialized_size A) \<le> 1290 * length A"
  by (induction A) (auto simp: node_serialized_size_def TRIE_NODE_HEADER_SIZE_def SIZE_PER_CHILD_NODE_def)

lemma indexes_children:
  assumes ix: "indexes H kps t bf" and br: "branching_ok kps"
  shows "\<forall>n \<in> set (tr_arena t). length (tn_children n) < 256"
proof
  fix n assume n: "n \<in> set (tr_arena t)"
  have inv: "trie_inv (tr_arena t)" "all_reached (tr_arena t)"
    and paths: "trie_paths (tr_arena t) = {q. \<exists>k \<in> fst ` set kps. prefix q k}"
    using ix by (simp_all add: indexes_def)
  have "\<exists>c. q @ [c] \<notin> trie_paths (tr_arena t)" for q
    using br unfolding branching_ok_def paths mem_Collect_eq by blast
  then show "length (tn_children n) < 256" by (rule children_bound [OF inv _ n])
qed

lemma indexes_table_ok:
  assumes ix: "indexes H kps t bf" and br: "branching_ok kps" and kb: "key_bytes kps < 2 ^ 32"
    and sz: "length (enc_blobs kps) < 2 ^ 61"
  shows "table_ok kps (tr_arena t) bf"
proof -
  let ?A = "tr_arena t"
  have ch: "\<forall>n \<in> set ?A. length (tn_children n) < 256" by (rule indexes_children [OF ix br])
  have A: "length ?A < 2 ^ 32" and bf: "bloom_ok bf" using ix kb by (simp_all add: indexes_def)
  have t: "length (trie_bytes ?A) \<le> 4 + 1290 * length ?A"
    using node_sizes_bound [OF ch] by (simp add: trie_bytes_def)
  have bits: "length (bf_bits bf) < 2 ^ 58" using bf by (simp add: bloom_ok_def)
  then have "length (leb128 (length (bf_bits bf))) \<le> 10" by (intro length_leb128_le_10) simp
  then have b: "length (bloom_bytes bf) \<le> 18 + 8 * length (bf_bits bf)" by (simp add: bloom_bytes_def)
  have "length (sstable_bytes kps ?A bf) < 2 ^ 63"
    unfolding length_sstable_bytes using t b bits A sz by simp
  then show ?thesis using ch A bf by (simp add: table_ok_def)
qed

section \<open>Searching an opened table\<close>

text \<open>
  The head of every data record (everything before the value) fits the 4 KB buffer of a point read.
\<close>

definition heads_ok :: "entry list \<Rightarrow> bool" where
  "heads_ok kps \<longleftrightarrow> (\<forall>(k, p) \<in> set kps. case p of None \<Rightarrow> True | Some v \<Rightarrow> length (rec_head k v) \<le> 4096)"

lemma get_offset_for_key_indexes:
  assumes ix: "indexes H kps (si_trie ix') (si_bloom_filter ix')" and d: "distinct (map fst kps)"
  shows "get_offset_for_key H k ix' = Some (map_option of_nat (map_of (entry_offsets 9 kps) k))"
proof -
  let ?m = "map_of (entry_offsets 9 kps)"
  have bf: "bloom_ok (si_bloom_filter ix')" and inv: "trie_inv (tr_arena (si_trie ix'))"
    and yes: "\<forall>k \<in> fst ` set kps. bloom_contains H k (si_bloom_filter ix') = Some True"
    using ix by (simp_all add: indexes_def)
  have "map_of (rev (entry_offsets 9 kps)) = ?m" using d
    by (subst map_of_inject_set) (simp_all flip: rev_map)
  then have get: "trie_get k (si_trie ix') = Some (map_option of_nat (?m k))"
    using trie_get_view [OF inv] ix by (simp add: indexes_def)
  obtain b where b: "bloom_contains H k (si_bloom_filter ix') = Some b"
    using bloom_contains_probes [OF bf] by blast
  show ?thesis
  proof (cases b)
    case True
    then show ?thesis using b get by (simp add: get_offset_for_key_def)
  next
    case False
    then have "k \<notin> fst ` set kps" using b yes by auto
    then have "map_of kps k = None" by (simp add: map_of_eq_None_iff)
    then have "?m k = None" by simp
    then show ?thesis using b False by (simp add: get_offset_for_key_def del: map_of_entry_offsets_None)
  qed
qed

definition indexed :: "hasher \<Rightarrow> entry list \<Rightarrow> SSTable \<Rightarrow> bool" where
  "indexed H kps t \<longleftrightarrow> (\<exists>A bf. opened kps A bf t \<and> table_ok kps A bf \<and> indexes H kps \<lparr>tr_arena = A\<rparr> bf) \<and>
     distinct (map fst kps) \<and> heads_ok kps"

lemma sstable_bytes_split:
  "kps = xs @ (k, p) # ys \<Longrightarrow> \<exists>post. sstable_bytes kps A bf = (file_header @ enc_blobs xs) @ enc_blob k p @ post"
  by (simp add: sstable_bytes_def Let_def)

text \<open>The read position does not matter: a search leaves a table that answers the same.\<close>

lemma indexed_fd [simp]: "f_data fd = f_data (ss_fd t) \<Longrightarrow> indexed H kps (t\<lparr>ss_fd := fd\<rparr>) = indexed H kps t"
  by (simp add: indexed_def opened_def)

lemma sstable_search_indexed:
  assumes tab: "indexed H kps t" and R: "full_reads R"
  obtains t' where "sstable_search H R k t = Some (block_answer (map_of kps k), t')" "indexed H kps t'"
proof -
  from tab obtain A bf where op: "opened kps A bf t" and ok: "table_ok kps A bf"
    and ix: "indexes H kps \<lparr>tr_arena = A\<rparr> bf" and d: "distinct (map fst kps)" and hd: "heads_ok kps"
    by (auto simp: indexed_def)
  have data: "f_data (ss_fd t) = sstable_bytes kps A bf" using op by (simp add: opened_def)
  have get: "get_offset_for_key H k (ss_index t) = Some (map_option of_nat (map_of (entry_offsets 9 kps) k))"
    by (rule get_offset_for_key_indexes [OF _ d]) (use ix op in \<open>simp add: opened_def\<close>)
  show thesis
  proof (cases "map_of (entry_offsets 9 kps) k")
    case None
    then have "map_of kps k = None" by simp
    then have "sstable_search H R k t = Some (block_answer (map_of kps k), t)"
      using get None by (simp add: sstable_search_def del: map_of_entry_offsets_None)
    then show thesis using tab by (rule that)
  next
    case (Some off)
    from map_of_entry_offsets_Some [OF Some d] obtain xs p ys where
      s: "kps = xs @ (k, p) # ys" "off = 9 + length (enc_blobs xs)" "map_of kps k = Some p" by blast
    from sstable_bytes_split [OF s(1)] obtain post where
      post: "f_data (ss_fd t) = (file_header @ enc_blobs xs) @ enc_blob k p @ post" unfolding data by blast
    have len: "length (file_header @ enc_blobs xs) = off" by (simp add: s(2))
    have sm: "length (sstable_bytes kps A bf) < 2 ^ 63" using ok by (simp add: table_ok_def)
    then have fits: "rec_fits k p" and o64: "off < 2 ^ 64"
      using post len unfolding data by (simp_all add: rec_fits_def s(2))
    have "\<exists>fd'. read_data_block R (ss_fd t) off k = Some (block_answer (Some p), fd') \<and> f_data fd' = f_data (ss_fd t)"
    proof (cases p)
      case None
      then show ?thesis using read_data_block_tombstone [OF R, of _ _ k] post len by fastforce
    next
      case (Some v)
      then have h: "length (rec_head k v) \<le> 4096" using hd by (simp add: heads_ok_def s(1))
      show ?thesis using read_data_block_found [OF _ R _ h, of "ss_fd t" _ post] post len fits Some by simp
    qed
    then obtain fd' where rd: "read_data_block R (ss_fd t) off k = Some (block_answer (Some p), fd')"
      "f_data fd' = f_data (ss_fd t)" by blast
    have "sstable_search H R k t = Some (block_answer (map_of kps k), t\<lparr>ss_fd := fd'\<rparr>)"
      using get Some rd(1) s(3) o64 by (simp add: sstable_search_def unat_of_nat_small)
    moreover have "indexed H kps (t\<lparr>ss_fd := fd'\<rparr>)" using tab rd(2) by simp
    ultimately show thesis by (rule that)
  qed
qed

section \<open>Entries that fit a table\<close>

definition flushable :: "entry list \<Rightarrow> bool" where
  "flushable kps \<longleftrightarrow> branching_ok kps \<and> heads_ok kps \<and> key_bytes kps < 2 ^ 32 \<and> length (enc_blobs kps) < 2 ^ 61"

lemma enc_blobs_sum: "length (enc_blobs kps) = sum_list (map (\<lambda>(k, p). length (enc_blob k p)) kps)"
  by (induction kps) auto

text \<open>Fewer entries fit as well.\<close>

lemma flushable_mono:
  assumes fl: "flushable kps" and sub: "set out \<subseteq> set kps"
    and w: "\<And>w :: entry \<Rightarrow> nat. sum_list (map w out) \<le> sum_list (map w kps)"
  shows "flushable out"
proof -
  have "branching_ok out" unfolding branching_ok_def
  proof
    fix q
    obtain c where "\<forall>k \<in> fst ` set kps. \<not> prefix (q @ [c]) k" using fl by (auto simp: flushable_def branching_ok_def)
    then have "\<forall>k \<in> fst ` set out. \<not> prefix (q @ [c]) k" using sub by blast
    then show "\<exists>c. \<forall>k \<in> fst ` set out. \<not> prefix (q @ [c]) k" by blast
  qed
  moreover have "heads_ok out" using fl sub unfolding flushable_def heads_ok_def by blast
  moreover have "key_bytes out \<le> key_bytes kps" unfolding key_bytes_def by (rule w)
  moreover have "length (enc_blobs out) \<le> length (enc_blobs kps)" unfolding enc_blobs_sum by (rule w)
  ultimately show ?thesis using fl by (simp add: flushable_def)
qed

lemma flushable_fits: "flushable kps \<Longrightarrow> (k, p) \<in> set kps \<Longrightarrow> rec_fits k p"
  unfolding flushable_def by (elim conjE, rule enc_blobs_fits, assumption, erule less_trans, simp)

text \<open>Fewer than 256 keys cannot branch too far.\<close>

lemma branching_small:
  assumes "length kps < 256"
  shows "branching_ok kps"
  unfolding branching_ok_def
proof
  fix q :: bytes
  let ?next = "\<lambda>k :: bytes. k ! length q"
  have "card (?next ` fst ` set kps) \<le> length kps"
    using card_image_le [of "fst ` set kps" ?next] card_image_le [of "set kps" fst] card_length [of kps]
    by (meson finite_imageI finite_set le_trans)
  also have "\<dots> < card (UNIV :: u8 set)" using assms by (simp add: card_word)
  finally obtain c where c: "c \<notin> ?next ` fst ` set kps" by (metis UNIV_I less_irrefl subsetI subset_antisym)
  have "\<not> prefix (q @ [c]) k" if k: "k \<in> fst ` set kps" for k
  proof
    assume "prefix (q @ [c]) k"
    then have "?next k = c" by (auto simp: prefix_def)
    then show False using c k by blast
  qed
  then show "\<exists>c. \<forall>k \<in> fst ` set kps. \<not> prefix (q @ [c]) k" by blast
qed

text \<open>Opening what was written.\<close>

lemma open_indexed:
  assumes d: "distinct (map fst kps)" and fl: "flushable kps" and ix: "indexes H kps t bf"
  obtains t' where "sstable_from_fd (file_open (sstable_bytes kps (tr_arena t) bf)) = Some (Inr t')" "indexed H kps t'"
    "f_data (ss_fd t') = sstable_bytes kps (tr_arena t) bf"
proof -
  have ok: "table_ok kps (tr_arena t) bf" by (rule indexes_table_ok [OF ix]) (use fl in \<open>simp_all add: flushable_def\<close>)
  from sstable_from_fd_bytes [OF ok] obtain t' where
    t': "sstable_from_fd (file_open (sstable_bytes kps (tr_arena t) bf)) = Some (Inr t')" "opened kps (tr_arena t) bf t'"
    by blast
  have "indexes H kps \<lparr>tr_arena = tr_arena t\<rparr> bf" using ix by (simp add: indexes_def)
  then have "indexed H kps t'" unfolding indexed_def using t'(2) ok d fl unfolding flushable_def by blast
  then show thesis using that [OF t'(1)] t'(2) by (simp add: opened_def)
qed

text \<open>Every list of entries with distinct keys that fits has a table.\<close>

lemma indexes_exist:
  "key_bytes kps < 2 ^ 32 \<Longrightarrow> length (enc_blobs kps) < 2 ^ 61 \<Longrightarrow> \<exists>t bf. indexes H kps t bf"
proof (induction kps rule: rev_induct)
  case Nil
  then show ?case using indexes_new [of 0 H 0 "\<lambda>_ _. 1"] by auto
next
  case (snoc kp kps)
  obtain k p where kp: "kp = (k, p)" by (cases kp)
  from snoc obtain t bf where ix: "indexes H kps t bf" by (auto simp: kp)
  have "key_bytes kps + length k < 2 ^ 32" "9 + length (enc_blobs kps) < 2 ^ 63" using snoc.prems by (simp_all add: kp)
  from indexes_step [OF ix this, of p] show ?case unfolding kp by blast
qed

lemma table_file_exists:
  assumes "flushable kps" "distinct (map fst kps)"
  shows "\<exists>bs t. sstable_from_fd (file_open bs) = Some (Inr t) \<and> indexed H kps t"
proof -
  obtain t bf where "indexes H kps t bf" using indexes_exist assms(1) unfolding flushable_def by blast
  from open_indexed [OF assms(2,1) this] show ?thesis by blast
qed

lemma indexed_exists: "flushable kps \<Longrightarrow> distinct (map fst kps) \<Longrightarrow> \<exists>t. indexed H kps t"
  using table_file_exists by blast

end
