(* ===== verification/Sst_Cache.thy ===== *)
theory Sst_Cache
  imports Sst_Index
begin

text \<open>
  What the cache of open tables promises: the newest table that knows the key decides, and a
  tombstone found there ends the search.  \<open>newest Ls k\<close> is that decision on the abstract contents.
\<close>

primrec newest :: "entry list list \<Rightarrow> bytes \<Rightarrow> bytes option option" where
  "newest [] k = None"
| "newest (L # Ls) k = (case map_of L k of None \<Rightarrow> newest Ls k | Some p \<Rightarrow> Some p)"

definition cache_answer :: "bytes option option \<Rightarrow> SSTableError + bytes" where
  "cache_answer e = (case e of Some (Some v) \<Rightarrow> Inr v | _ \<Rightarrow> Inl DiskRecordNotFound)"

lemma cache_answer_simps [simp]:
  "cache_answer None = Inl DiskRecordNotFound" "cache_answer (Some None) = Inl DiskRecordNotFound"
  "cache_answer (Some (Some v)) = Inr v"
  by (simp_all add: cache_answer_def)

lemma newest_append: "newest (Ls @ Ms) k = (case newest Ls k of None \<Rightarrow> newest Ms k | Some p \<Rightarrow> Some p)"
  by (induction Ls) (simp_all split: option.split)

lemma newest_None: "newest Ls k = None \<longleftrightarrow> (\<forall>L \<in> set Ls. map_of L k = None)"
  by (induction Ls) (simp_all split: option.split)

text \<open>The cache as a list of tables with known contents.\<close>

definition cache_holds :: "hasher \<Rightarrow> entry list list \<Rightarrow> SSTableCache \<Rightarrow> bool" where
  "cache_holds H Ls c \<longleftrightarrow> list_all2 (indexed H) Ls (sc_cache c)"

lemma search_tables_newest:
  assumes R: "full_reads R"
  shows "list_all2 (indexed H) Ls ts \<Longrightarrow>
    \<exists>ts'. search_tables H R k ts = Some (cache_answer (newest Ls k), ts') \<and> list_all2 (indexed H) Ls ts'"
proof (induction rule: list_all2_induct)
  case Nil
  then show ?case by simp
next
  case (Cons L Ls t ts)
  obtain t' where t': "sstable_search H R k t = Some (block_answer (map_of L k), t')" "indexed H L t'"
    by (rule sstable_search_indexed [OF Cons.hyps(1) R])
  from Cons.IH obtain ts' where ts': "search_tables H R k ts = Some (cache_answer (newest Ls k), ts')"
    "list_all2 (indexed H) Ls ts'" by blast
  show ?case
  proof (cases "map_of L k")
    case None
    then show ?thesis using t' ts' by simp
  next
    case (Some p)
    then show ?thesis using t' Cons.hyps(2) by (cases p) simp_all
  qed
qed

lemma cache_search_newest:
  assumes "cache_holds H Ls c" "full_reads R"
  obtains c' where "cache_search H R k c = Some (cache_answer (newest Ls k), c')" "cache_holds H Ls c'"
    "sc_compaction_rate c' = sc_compaction_rate c"
  using search_tables_newest [OF assms(2) assms(1) [unfolded cache_holds_def], of k]
  by (auto simp: cache_search_def cache_holds_def)

lemma cache_push_holds:
  "indexed H L t \<Longrightarrow> cache_holds H Ls c \<Longrightarrow>
   cache_holds H (L # Ls) (snd (cache_push t c)) \<and> fst (cache_push t c) = Suc (length Ls)"
  by (auto simp: cache_push_def cache_holds_def Let_def dest: list_all2_lengthD)

lemma cache_replace_holds: "indexed H L t \<Longrightarrow> cache_holds H [L] (replace_with_compact_table t c)"
  by (simp add: replace_with_compact_table_def cache_holds_def)

lemma cache_new_holds: "cache_holds H [] (cache_new rate)"
  by (simp add: cache_new_def cache_holds_def)

text \<open>Loading at restart.\<close>

lemma load_tables_holds:
  "list_all2 (\<lambda>L c. \<exists>bs t. c = Inr bs \<and> sstable_from_fd (file_open bs) = Some (Inr t) \<and> indexed H L t) Ls cs \<Longrightarrow>
   \<exists>ts. load_tables cs = Some ts \<and> list_all2 (indexed H) Ls ts"
proof (induction rule: list_all2_induct)
  case (Cons L Ls c cs)
  then show ?case by (auto simp: sstable_from_path_def)
qed simp

end
