(* ===== verification/Table_Props.thy ===== *)
theory Table_Props
  imports Sst_Cache
begin

text \<open>
  The properties of the parts of an SSTable: the trie index, the Bloom filter, reads from the data
  block, and the cache of tables.
\<close>

section \<open>Trie\<close>

text \<open>
  C23: the trie is a map from keys to offsets.  Within its invariant \<^verbatim>\<open>insert\<close> never panics and keeps
  the invariant, \<^verbatim>\<open>get\<close> afterwards returns the new offset for the key inserted and what it returned before
  for every other key (prefixes and extensions of the key included), and at most one node per byte of
  the key (and the root) is added.
\<close>

theorem trie_is_map:
  assumes "trie_inv (tr_arena t)" "unat off < 2 ^ 63" "length (tr_arena t) + length k < 2 ^ 32"
  shows "\<exists>t'. trie_insert k off t = Some t' \<and> trie_inv (tr_arena t') \<and>
    trie_get k t' = Some (Some off) \<and> (\<forall>k'. k' \<noteq> k \<longrightarrow> trie_get k' t' = trie_get k' t) \<and>
    length (tr_arena t') \<le> Suc (length (tr_arena t) + length k)"
proof -
  from trie_insert_correct [OF assms] obtain t' where
    t': "trie_insert k off t = Some t'" "trie_inv (tr_arena t')"
      "trie_view (tr_arena t') = (trie_view (tr_arena t))(k \<mapsto> off)"
      "length (tr_arena t') \<le> Suc (length (tr_arena t) + length k)" by blast
  then show ?thesis using trie_get_view [OF assms(1)] trie_get_view [OF t'(2)] by simp
qed

theorem trie_is_map_witness:
  "\<exists>t'. trie_insert [7, 8] 42 (trie_new 4) = Some t' \<and> trie_get [7, 8] t' = Some (Some 42) \<and>
     trie_get [7] t' = Some None \<and> trie_get [7, 8, 9] t' = Some None"
proof -
  have pre: "trie_inv (tr_arena (trie_new 4))" "unat (42 :: u64) < 2 ^ 63"
    "length (tr_arena (trie_new 4)) + length [7 :: u8, 8] < 2 ^ 32" by (simp_all add: trie_new_def)
  have e: "trie_get k (trie_new 4) = Some None" for k by (simp add: trie_get_def trie_new_def)
  from trie_is_map [OF pre] show ?thesis by (auto simp: e)
qed

text \<open>
  C8: the index block is a faithful copy of the trie, whatever the uninitialised buffer held: decoding
  the serialised bytes gives the trie back, as long as no node has 256 children and the node count
  fits 32 bits.
\<close>

theorem trie_roundtrip:
  assumes "\<forall>n \<in> set (tr_arena t). length (tn_children n) < 256" "length (tr_arena t) < 2 ^ 32"
    and "\<And>n. length (alloc n) = n"
  shows "\<exists>bs. trie_serialize_in alloc t = Some bs \<and> length bs = trie_serialized_size t \<and>
    trie_deserialize_from_disk bs = Some t"
proof -
  have "trie_deserialize_from_disk (trie_bytes (tr_arena t)) = Some \<lparr>tr_arena = tr_arena t\<rparr>"
    by (rule trie_deserialize_bytes [OF assms(1,2)])
  moreover have "length (trie_bytes (tr_arena t)) = trie_serialized_size t"
    by (simp add: trie_bytes_def trie_serialized_size_def TRIE_HEADER_SIZE_def)
  ultimately show ?thesis using trie_serialize_in_bytes [OF assms(3), of t] by simp
qed

theorem trie_roundtrip_witness:
  "\<exists>t bs. trie_insert [7, 8] 42 (trie_new 4) = Some t \<and> trie_serialize_in (\<lambda>n. replicate n 255) t = Some bs \<and>
     length bs = 41 \<and> trie_deserialize_from_disk bs = Some t"
proof -
  let ?A = "[\<lparr>tn_offset = 0, tn_children = [(7, 1)]\<rparr>, \<lparr>tn_offset = 0, tn_children = [(8, 2)]\<rparr>,
      \<lparr>tn_offset = 42 OR WORD_END_FLAG, tn_children = []\<rparr>]"
  have "trie_insert [7, 8] 42 (trie_new 4) = Some \<lparr>tr_arena = ?A\<rparr>" by code_simp
  moreover have "trie_serialized_size \<lparr>tr_arena = ?A\<rparr> = 41"
    by (simp add: trie_serialized_size_def node_serialized_size_def TRIE_HEADER_SIZE_def TRIE_NODE_HEADER_SIZE_def SIZE_PER_CHILD_NODE_def)
  ultimately show ?thesis using trie_roundtrip [of "\<lparr>tr_arena = ?A\<rparr>" "\<lambda>n. replicate n 255"] by auto
qed

lemma deserialize_children_length:
  "deserialize_children n buffer off = Some (cs, off') \<Longrightarrow> length cs = n"
  by (induction n arbitrary: off cs) (auto simp: bind_eq_Some_conv)

text \<open>No node that is read back has more than 255 children.\<close>

lemma node_deserialize_count:
  assumes "node_deserialize_from_disk buffer off = Some (n, off')"
  shows "length (tn_children n) < 256"
proof -
  obtain c :: u8 where "length (tn_children n) = unat c"
    using assms by (auto simp: node_deserialize_from_disk_def bind_eq_Some_conv Let_def dest: deserialize_children_length)
  moreover have "unat c < 2 ^ LENGTH(8)" by (rule unsigned_less)
  ultimately show ?thesis by simp
qed

lemma deserialize_nodes_count:
  "deserialize_nodes sz buffer off = Some (ns, off') \<Longrightarrow> n \<in> set ns \<Longrightarrow> length (tn_children n) < 256"
  by (induction sz arbitrary: off ns) (auto simp: bind_eq_Some_conv dest: node_deserialize_count)

text \<open>
  C24: a node with all 256 children, which 256 keys that differ in the byte after a common prefix produce,
  does not survive serialisation: its child count is truncated to one byte, and the index read back
  differs from the one written (or cannot be read at all).
\<close>

theorem trie_wide_node_lost:
  assumes "n \<in> set (tr_arena t)" "256 \<le> length (tn_children n)"
  shows "\<exists>bs. trie_serialize t = Some bs \<and> trie_deserialize_from_disk bs \<noteq> Some t"
proof -
  have "trie_serialize t = Some (trie_bytes (tr_arena t))"
    unfolding trie_serialize_def by (subst trie_serialize_in_bytes) (simp_all add: make_blob_buffer_def)
  moreover have "trie_deserialize_from_disk (trie_bytes (tr_arena t)) \<noteq> Some t"
    using deserialize_nodes_count [OF _ assms(1)] assms(2)
    by (fastforce simp: trie_deserialize_from_disk_def bind_eq_Some_conv Let_def)
  ultimately show ?thesis by blast
qed

text \<open>The keys of one byte each, inserted one after the other.\<close>

primrec insert_bytes :: "bytes \<Rightarrow> Trie \<Rightarrow> Trie option" where
  "insert_bytes [] t = Some t"
| "insert_bytes (c # cs) t = do { t \<leftarrow> trie_insert [c] 42 t; insert_bytes cs t }"

lemma insert_bytes_view:
  "trie_inv (tr_arena t) \<Longrightarrow> length (tr_arena t) + 2 * length cs < 2 ^ 32 \<Longrightarrow>
   \<exists>t'. insert_bytes cs t = Some t' \<and> trie_inv (tr_arena t') \<and>
     (\<forall>k. trie_view (tr_arena t') k = None \<longrightarrow> trie_view (tr_arena t) k = None \<and> k \<notin> (\<lambda>c. [c]) ` set cs)"
proof (induction cs arbitrary: t)
  case (Cons c cs)
  have "unat (42 :: u64) < 2 ^ 63" "length (tr_arena t) + length [c] < 2 ^ 32" using Cons.prems(2) by simp_all
  from trie_insert_correct [OF Cons.prems(1) this] obtain t1 where
    t1: "trie_insert [c] 42 t = Some t1" "trie_inv (tr_arena t1)" "trie_view (tr_arena t1) = (trie_view (tr_arena t))([c] \<mapsto> 42)"
      "length (tr_arena t1) \<le> Suc (length (tr_arena t) + length [c])" by blast
  from Cons.IH [OF t1(2)] t1(4) Cons.prems(2) obtain t' where
    t': "insert_bytes cs t1 = Some t'" "trie_inv (tr_arena t')"
      "\<forall>k. trie_view (tr_arena t') k = None \<longrightarrow> trie_view (tr_arena t1) k = None \<and> k \<notin> (\<lambda>c. [c]) ` set cs" by auto
  have "trie_view (tr_arena t) k = None \<and> k \<notin> (\<lambda>c. [c]) ` set (c # cs)" if "trie_view (tr_arena t') k = None" for k
  proof -
    have "trie_view (tr_arena t1) k = None" "k \<notin> (\<lambda>c. [c]) ` set cs" using t'(3) that by simp_all
    then show ?thesis by (simp add: t1(3) split: if_splits)
  qed
  then show ?case using t1(1) t'(1,2) by simp
qed simp

lemma wide_root:
  assumes inv: "trie_inv A" and all: "\<And>c. trie_view A [c] \<noteq> None"
  shows "A \<noteq> []" "256 \<le> length (tn_children (A ! 0))"
proof -
  show ne: "A \<noteq> []" using all [of 0] by (auto simp: trie_view_def)
  have "map_of (tn_children (A ! 0)) c \<noteq> None" for c
    using all [of c] ne by (auto simp: trie_view_def edge_def split: option.splits)
  then have "c \<in> fst ` set (tn_children (A ! 0))" for c by (simp add: map_of_eq_None_iff)
  then have "fst ` set (tn_children (A ! 0)) = UNIV" by auto
  then have "256 = card (set (map fst (tn_children (A ! 0))))" by (simp add: card_word)
  then show "256 \<le> length (tn_children (A ! 0))" using card_length [of "map fst (tn_children (A ! 0))"] by simp
qed

theorem trie_wide_node_lost_witness:
  "\<exists>t bs. insert_bytes (map of_nat [0..<256]) (trie_new 256) = Some t \<and> trie_serialize t = Some bs \<and> trie_deserialize_from_disk bs \<noteq> Some t"
proof -
  obtain t where t: "insert_bytes (map of_nat [0..<256]) (trie_new 256) = Some t" "trie_inv (tr_arena t)"
    "\<And>k. trie_view (tr_arena t) k = None \<Longrightarrow> k \<notin> (\<lambda>c. [c]) ` set (map of_nat [0..<256])"
    using insert_bytes_view [of "trie_new 256" "map of_nat [0..<256]"] by (auto simp: trie_new_def)
  have "(c :: u8) \<in> set (map of_nat [0..<256])" for c
  proof -
    have "unat c < 2 ^ LENGTH(8)" by (rule unsigned_less)
    then show ?thesis unfolding set_map by (intro image_eqI [of _ _ "unat c"]) simp_all
  qed
  then have "trie_view (tr_arena t) [c] \<noteq> None" for c using t(3) [of "[c]"] by blast
  from wide_root [OF t(2) this] have "tr_arena t ! 0 \<in> set (tr_arena t)" "256 \<le> length (tn_children (tr_arena t ! 0))" by simp_all
  from trie_wide_node_lost [OF this] t(1) show ?thesis by blast
qed

section \<open>Bloom filter\<close>

text \<open>
  C25: for every hash function the Bloom filter has no false negatives.  A fresh filter and every filter
  produced by \<^verbatim>\<open>insert\<close> is well formed, \<^verbatim>\<open>insert\<close> and \<^verbatim>\<open>contains\<close> never panic on such a filter (no
  index is out of range and nothing is divided by zero), the key inserted is found, and no key found
  before is lost.
\<close>

theorem bloom_no_false_negatives:
  assumes "bloom_ok bf"
  shows "\<exists>bf'. bloom_insert H k bf = Some bf' \<and> bloom_ok bf' \<and> bloom_contains H k bf' = Some True \<and>
    (\<forall>k'. \<exists>b. bloom_contains H k' bf = Some b \<and> (b \<longrightarrow> bloom_contains H k' bf' = Some True))"
proof -
  obtain bf' where b: "bloom_insert H k bf = Some bf'" "bloom_ok bf'" "bloom_contains H k bf' = Some True"
    "\<And>k'. bloom_contains H k' bf = Some True \<Longrightarrow> bloom_contains H k' bf' = Some True"
    by (rule bloom_insert_contains [OF assms, where H = H and key = k]) blast
  moreover have "\<exists>b. bloom_contains H k' bf = Some b \<and> (b \<longrightarrow> bloom_contains H k' bf' = Some True)" for k'
    using bloom_contains_probes [OF assms, of H k'] b(4) [of k'] by auto
  ultimately show ?thesis by blast
qed

theorem bloom_no_false_negatives_witness:
  "\<exists>bf'. bloom_insert (\<lambda>s k. s + of_nat (length k)) [1, 2] (bloom_new (\<lambda>_ _. 7) 0) = Some bf' \<and>
     bloom_contains (\<lambda>s k. s + of_nat (length k)) [1, 2] bf' = Some True"
  using bloom_no_false_negatives [OF bloom_new_ok, of 0 "\<lambda>s k. s + of_nat (length k)" "[1, 2]" "\<lambda>_ _. 7"] by auto

text \<open>
  C26: the filter block keeps the filter: a fresh filter of any size below \<open>2 ^ 58\<close> is well formed, and
  every well-formed filter is read back exactly from its serialisation, so that the filter of an
  opened table is well formed again.
\<close>

theorem bloom_block_type:
  assumes "sz < 2 ^ 58"
  shows "bloom_ok (bloom_new f sz) \<and>
    (\<forall>bf. bloom_ok bf \<longrightarrow> (\<exists>bs. bloom_serialize bf = Some bs \<and> bloom_from_bytes bs = Some bf))"
proof -
  have "\<exists>bs. bloom_serialize bf = Some bs \<and> bloom_from_bytes bs = Some bf" if "bloom_ok bf" for bf
  proof -
    have "length (bf_bits bf) < 2 ^ 63" "bf_num_bits bf = 64 * of_nat (length (bf_bits bf))"
      using that by (simp_all add: bloom_ok_def)
    then show ?thesis using bloom_serialize_bytes bloom_from_bytes_bytes by blast
  qed
  then show ?thesis using bloom_new_ok [OF assms] by blast
qed

theorem bloom_block_type_witness:
  "\<exists>bs. bloom_serialize (bloom_new (\<lambda>_ _. 7) 20) = Some bs \<and> bloom_from_bytes bs = Some (bloom_new (\<lambda>_ _. 7) 20)"
  using bloom_block_type [of 20 "\<lambda>_ _. 7"] by simp

section \<open>Data block\<close>

text \<open>
  A point read at the offset of a record returns its value, whether the record fits the 4 KB read
  buffer or its tail has to be read separately, and reports a tombstone as such; the file is not
  changed.  The record's head must fit the buffer and the first read must not be cut short.
\<close>

lemma point_read_correct:
  assumes "rec_fits k p" "full_reads R" "f_data fd = pre @ enc_blob k p @ post"
    and "\<And>v. p = Some v \<Longrightarrow> length (rec_head k v) \<le> 4096"
  shows "\<exists>fd'. read_data_block R fd (length pre) k = Some (block_answer (Some p), fd') \<and> f_data fd' = f_data fd"
proof (cases p)
  case None
  then show ?thesis using read_data_block_tombstone [OF assms(2), of fd pre k post k] assms(3) by simp
next
  case (Some v)
  then show ?thesis using read_data_block_found [OF _ assms(2), of k v fd pre post] assms by simp
qed

text \<open>
  C27: a key whose record head does not fit the 4 KB buffer cannot be read back: the slice of the key
  runs over the end of the buffer and the read panics, although nothing stops such a key from being
  written.
\<close>

theorem long_key_read_panics:
  assumes "rec_fits k (Some v)" "full_reads R" "f_data fd = pre @ enc_blob k (Some v) @ post"
    and "4096 < key_off k (Some v) + length k" "key_off k (Some v) \<le> 4096"
  shows "read_data_block R fd (length pre) k = None"
proof -
  note b = rec_fits_bounds [OF assms(1)]
  let ?h = "DATA_LOG_HEADER # leb128 (length (log_body k (Some v))) @ leb128 (length k)"
  define B where "B = take 4096 (enc_blob k (Some v) @ post)"
  have split: "enc_blob k (Some v) = ?h @ k @ payload_bytes (Some v)" using enc_blob_split [of k "Some v"] by simp
  have lh: "length ?h = key_off k (Some v)" by (simp add: key_off_def log_varint_len_def)
  have len: "length B = 4096" using assms(4) lh split by (simp add: B_def)
  have B: "B = ?h @ take (4096 - length ?h) (k @ payload_bytes (Some v) @ post)"
    using take_append [of 4096 ?h "k @ payload_bytes (Some v) @ post"] take_all [of ?h 4096] assms(5) lh
    unfolding B_def split append_assoc by metis
  have read: "file_read R (file_seek fd (length pre)) 4096 = (Inr B, fd\<lparr>f_pos := length pre + 4096\<rparr>)"
    using assms(2,3) len by (simp add: file_read_def file_seek_def full_reads_def B_def Let_def)
  have d: "decode_varint B 1 = Some (of_nat (length (log_body k (Some v))), length (leb128 (length (log_body k (Some v)))))"
    using decode_varint_leb128 [of "length (log_body k (Some v))" 1 "[DATA_LOG_HEADER]"] b(2) unfolding B by simp
  have kv: "varint_size_from_len (of_nat (length k)) = Some (length (leb128 (length k)))"
    using b(1) by (rule varint_size_from_len_leb128)
  have out: "slice B (1 + length (leb128 (length (log_body k (Some v)))) + length (leb128 (length k)))
      (1 + length (leb128 (length (log_body k (Some v)))) + length (leb128 (length k)) + length k) = None"
    using assms(4) len by (intro slice_out) (simp add: key_off_def log_varint_len_def)
  have hd: "B ! 0 = DATA_LOG_HEADER" "0 < length B" using len by (simp_all add: B)
  show ?thesis
    using read len hd d kv out
    by (simp add: read_data_block_def RECORD_READ_BUFFER_SIZE_def Let_def is_tombstone_def)
qed

theorem long_key_read_panics_witness:
  "read_data_block (\<lambda>_ n. Inr n) (file_open ([] @ enc_blob (replicate 4096 1) (Some []) @ [])) (length ([] :: bytes)) (replicate 4096 1) = None"
proof -
  let ?k = "replicate 4096 (1 :: u8)"
  have l: "length (leb128 n) \<le> 10" if "n < 2 ^ 64" for n using that by (rule length_leb128_le_10)
  have k: "length (leb128 4096) \<le> 10" "length (leb128 0) \<le> 10" by (rule l, simp)+
  have "length (log_body ?k (Some [])) = length (leb128 4096) + 4096 + length (leb128 0)" by (simp add: log_body_def)
  moreover from this have "length (leb128 (length (log_body ?k (Some [])))) \<le> 10" using k by (intro l) simp
  ultimately have off: "key_off ?k (Some []) \<le> 21" and fits: "rec_fits ?k (Some [])"
    using k by (simp_all add: key_off_def log_varint_len_def rec_fits_def enc_blob_def)
  show ?thesis
    by (rule long_key_read_panics [OF fits]) (use off in \<open>simp_all add: full_reads_def file_open_def key_off_def\<close>)
qed

text \<open>
  The scanning search over a block of records agrees with the lookup in the list of entries: the
  first record of the key decides, a tombstone is reported as such, and a key that does not occur is not
  found, for every block in every file.
\<close>

lemma block_scan_is_lookup:
  assumes "f_data fd = pre @ enc_blobs kps @ post" "length (enc_blobs kps) < 2 ^ 63"
  shows "\<exists>fd'. search_data_block fd (length pre) (length pre + length (enc_blobs kps)) key =
    Some (block_answer (map_of kps key), fd') \<and> f_data fd' = f_data fd"
proof -
  have "file_read_exact (file_seek fd (length pre)) (length (enc_blobs kps)) =
      (Inr (enc_blobs kps), fd\<lparr>f_pos := length pre + length (enc_blobs kps)\<rparr>)"
    using read_exact_at [of "file_seek fd (length pre)" pre "enc_blobs kps" post] assms(1) by (simp add: file_seek_def)
  moreover have "search_block_loop (enc_blobs kps) key 0 = Some (block_answer (map_of kps key))"
    using search_block_loop_enc_blobs [of "enc_blobs kps" "[]" kps key] assms(2) by simp
  ultimately show ?thesis by (simp add: search_data_block_def checked_sub_def)
qed

section \<open>Cache\<close>

text \<open>
  C28: a lookup in the cache of tables is decided by the newest table that knows the key; a tombstone
  there hides every older value, and only if no table knows the key (or the newest entry is a
  tombstone) the answer is \<^verbatim>\<open>DiskRecordNotFound\<close>.  Searching changes nothing that later searches see.
\<close>

theorem cache_search_correct:
  assumes "cache_holds H Ls c" "full_reads R"
  shows "\<exists>c'. cache_search H R k c = Some (case newest Ls k of Some (Some v) \<Rightarrow> Inr v | _ \<Rightarrow> Inl DiskRecordNotFound, c') \<and>
    cache_holds H Ls c'"
  using cache_search_newest [OF assms, of k] unfolding cache_answer_def by blast

theorem cache_search_correct_witness:
  "\<exists>c c'. cache_holds (\<lambda>_ _. 0) [[([1], None)], [([1], Some [2]), ([3], Some [4])]] c \<and>
     cache_search (\<lambda>_ _. 0) (\<lambda>_ n. Inr n) [1] c = Some (Inl DiskRecordNotFound, c') \<and>
     (\<exists>c''. cache_search (\<lambda>_ _. 0) (\<lambda>_ n. Inr n) [3] c' = Some (Inr [4], c''))"
proof -
  have e: "enc_blob [1] (Some [2]) = [0, 4, 1, 1, 1, 2]" "enc_blob [3] (Some [4]) = [0, 4, 1, 3, 1, 4]"
    "enc_blob [1] None = [1, 2, 1, 1]" by code_simp+
  have h: "rec_head [1] [2] = [0, 4, 1, 1, 1]" "rec_head [3] [4] = [0, 4, 1, 3, 1]" by code_simp+
  have fl: "flushable [([1], None)]" "flushable [([1], Some [2]), ([3], Some [4])]"
    unfolding flushable_def by (intro conjI branching_small; simp add: heads_ok_def e h)+
  obtain t1 t2 where t: "indexed (\<lambda>_ _. 0) [([1], None)] t1" "indexed (\<lambda>_ _. 0) [([1], Some [2]), ([3], Some [4])] t2"
    using indexed_exists [OF fl(1), where H = "\<lambda>_ _. 0"] indexed_exists [OF fl(2), where H = "\<lambda>_ _. 0"] by auto
  have R: "full_reads (\<lambda>_ n. Inr n)" by (simp add: full_reads_def)
  have c: "cache_holds (\<lambda>_ _. 0) [[([1], None)], [([1], Some [2]), ([3], Some [4])]] \<lparr>sc_cache = [t1, t2], sc_compaction_rate = 9\<rparr>"
    using t by (simp add: cache_holds_def)
  from cache_search_correct [OF c R, of "[1]"] obtain c' where
    "cache_search (\<lambda>_ _. 0) (\<lambda>_ n. Inr n) [1] \<lparr>sc_cache = [t1, t2], sc_compaction_rate = 9\<rparr> = Some (Inl DiskRecordNotFound, c')"
    "cache_holds (\<lambda>_ _. 0) [[([1], None)], [([1], Some [2]), ([3], Some [4])]] c'" by auto
  moreover from cache_search_correct [OF this(2) R, of "[3]"] have
    "\<exists>c''. cache_search (\<lambda>_ _. 0) (\<lambda>_ n. Inr n) [3] c' = Some (Inr [4], c'')" by auto
  ultimately show ?thesis using c by blast
qed

end
