(* ===== verification/SSTable_Write.thy ===== *)
theory SSTable_Write
  imports Sst_Index Memtable_Api "HOL-Library.Multiset"
begin

text \<open>
  Writing an SSTable from a memtable: \<^verbatim>\<open>src/sstable/encode.rs\<close>, \<^verbatim>\<open>flush_to_disk\<close> and
  \<^verbatim>\<open>flush_memtable_inner\<close> of \<^verbatim>\<open>src/memtable/inner.rs\<close>.  Results are
  \<open>((io_error + unit) \<times> state) option\<close>: the outer option is a panic, \<open>Inl\<close> an error handed up by
  \<^verbatim>\<open>?\<close>.  The number of bytes a \<^verbatim>\<open>write\<close> accepts is ignored by the code.
\<close>

section \<open>Definitions\<close>

text \<open>The mutable arguments of \<^verbatim>\<open>inorder_flush\<close>; the offset is a \<^verbatim>\<open>u64\<close> with checked addition.\<close>

record FlushState =
  fs_fd :: File
  fs_disk_size :: nat
  fs_trie :: Trie
  fs_bloom_filter :: BloomFilter

definition flush_node :: "hasher \<Rightarrow> writer \<Rightarrow> MemtableNode \<Rightarrow> FlushState \<Rightarrow> ((io_error + unit) \<times> FlushState) option" where
  "flush_node H W current_node st = do {
     let record_offset = fs_disk_size st;
     let disk_record = node_copy_record current_node;
     key \<leftarrow> node_key current_node;
     bloom_filter \<leftarrow> bloom_insert H key (fs_bloom_filter st);
     disk_size \<leftarrow> usize_add (fs_disk_size st) (length disk_record);
     trie \<leftarrow> trie_insert key (of_nat record_offset) (fs_trie st);
     let (r, fd) = file_write W (fs_fd st) disk_record;
     Some (case r of Inl e \<Rightarrow> Inl e | Inr _ \<Rightarrow> Inr (),
       \<lparr>fs_fd = fd, fs_disk_size = disk_size, fs_trie = trie, fs_bloom_filter = bloom_filter\<rparr>)
   }"

partial_function (option) inorder_flush ::
  "hasher \<Rightarrow> writer \<Rightarrow> MemtableInner \<Rightarrow> nat option \<Rightarrow> FlushState \<Rightarrow> ((io_error + unit) \<times> FlushState) option" where
  "inorder_flush H W table node_idx_opt st =
     (case node_idx_opt of
        None \<Rightarrow> Some (Inr (), st)
      | Some node_idx \<Rightarrow> do {
          node \<leftarrow> node_at table node_idx;
          (r, st) \<leftarrow> inorder_flush H W table (nd_left node) st;
          case r of
            Inl e \<Rightarrow> Some (Inl e, st)
          | Inr _ \<Rightarrow> do {
              (r, st) \<leftarrow> flush_node H W node st;
              case r of
                Inl e \<Rightarrow> Some (Inl e, st)
              | Inr _ \<Rightarrow> inorder_flush H W table (nd_right node) st
            }
        })"

text \<open>
  A \<^verbatim>\<open>fd.write(..)?\<close> followed by the rest of the function \<open>k\<close>; \<open>fd.flush()\<close> on a \<^verbatim>\<open>File\<close> does
  nothing.
\<close>

definition write_then ::
  "writer \<Rightarrow> File \<Rightarrow> bytes \<Rightarrow> (File \<Rightarrow> ((io_error + 'a) \<times> File) option) \<Rightarrow> ((io_error + 'a) \<times> File) option" where
  "write_then W fd buf k =
     (case file_write W fd buf of
        (Inl e, fd) \<Rightarrow> Some (Inl e, fd)
      | (Inr _, fd) \<Rightarrow> k fd)"

definition write_sstable ::
  "(u64 \<Rightarrow> nat \<Rightarrow> u64) \<Rightarrow> hasher \<Rightarrow> writer \<Rightarrow> MemtableInner \<Rightarrow> File \<Rightarrow> ((io_error + unit) \<times> File) option" where
  "write_sstable ln2_hashes H W table fd =
     (let disk_size = unat HEADER_SIZE;
          trie = trie_new (length (mt_arena table));
          bloom_filter = bloom_new ln2_hashes (length (mt_arena table)) in
      write_then W fd LSMLITE_SSTABLE_HEADER (\<lambda>fd.
      write_then W fd (to_be_bytes16 V0_HEADER) (\<lambda>fd. do {
        (r, st) \<leftarrow> inorder_flush H W table (mt_root_node table)
          \<lparr>fs_fd = fd, fs_disk_size = disk_size, fs_trie = trie, fs_bloom_filter = bloom_filter\<rparr>;
        case r of
          Inl e \<Rightarrow> Some (Inl e, fs_fd st)
        | Inr _ \<Rightarrow> do {
            let index_block_start = fs_disk_size st;
            index_block_buffer \<leftarrow> trie_serialize (fs_trie st);
            let index_block_len = length index_block_buffer;
            bloom_filter_start \<leftarrow> usize_add index_block_start (length index_block_buffer);
            write_then W (fs_fd st) index_block_buffer (\<lambda>fd. do {
              bloom_filter_buffer \<leftarrow> bloom_serialize (fs_bloom_filter st);
              write_then W fd bloom_filter_buffer (\<lambda>fd. do {
                footer \<leftarrow> encode_footer (of_nat index_block_start) (of_nat index_block_len) (of_nat bloom_filter_start);
                write_then W fd footer (\<lambda>fd. Some (Inr (), fd))
              })
            })
          }
      })))"

definition flush_to_disk ::
  "(u64 \<Rightarrow> nat \<Rightarrow> u64) \<Rightarrow> hasher \<Rightarrow> writer \<Rightarrow> MemtableInner \<Rightarrow> File \<Rightarrow> ((io_error + unit) \<times> File) option" where
  "flush_to_disk ln2_hashes H W self fd = write_sstable ln2_hashes H W self fd"

text \<open>
  \<open>remove\<close> is the outcome of deleting the table's log file, which happens only after a successful
  write; the last component tells whether the deletion was attempted.
\<close>

definition flush_memtable_inner ::
  "(u64 \<Rightarrow> nat \<Rightarrow> u64) \<Rightarrow> hasher \<Rightarrow> writer \<Rightarrow> (string \<Rightarrow> io_error + unit) \<Rightarrow> MemtableInner \<Rightarrow> File \<Rightarrow>
     ((io_error + unit) \<times> File \<times> string option) option" where
  "flush_memtable_inner ln2_hashes H W remove memtable fd = do {
     (r, fd) \<leftarrow> flush_to_disk ln2_hashes H W memtable fd;
     case r of
       Inl e \<Rightarrow> Some (Inl e, fd, None)
     | Inr _ \<Rightarrow> do {
         let path = wal_filename (mt_wal memtable);
         Some (remove path, fd, Some path)
       }
   }"

section \<open>Building a table entry by entry\<close>

text \<open>
  The contract of the two writers of SSTables, the memtable flush and the compaction writer.
  \<open>holds kps s\<close>: the entries \<open>kps\<close> have been written, in this order.
\<close>

definition room_for :: "entry list \<Rightarrow> bytes \<Rightarrow> bytes option \<Rightarrow> bool" where
  "room_for kps k p \<longleftrightarrow> key_bytes kps + length k < 2 ^ 32 \<and>
     length (enc_blobs kps) + length (enc_blob k p) < 2 ^ 61"

text \<open>A sequence of records, up to the first error.\<close>

primrec push_all ::
  "(Record \<Rightarrow> 's \<Rightarrow> ((io_error + unit) \<times> 's) option) \<Rightarrow> Record list \<Rightarrow> 's \<Rightarrow> ((io_error + unit) \<times> 's) option" where
  "push_all push [] s = Some (Inr (), s)"
| "push_all push (r # rs) s = do {
     (res, s) \<leftarrow> push r s;
     case res of Inl e \<Rightarrow> Some (Inl e, s) | Inr _ \<Rightarrow> push_all push rs s
   }"

lemma push_all_append:
  "push_all push (xs @ ys) s = do {
     (res, s) \<leftarrow> push_all push xs s;
     case res of Inl e \<Rightarrow> Some (Inl e, s) | Inr _ \<Rightarrow> push_all push ys s
   }"
proof (induction xs arbitrary: s)
  case (Cons r xs)
  then show ?case by (cases "push r s") (auto split: sum.split)
qed simp

locale sst_builder =
  fixes holds :: "entry list \<Rightarrow> 's \<Rightarrow> bool"
    and push :: "Record \<Rightarrow> 's \<Rightarrow> ((io_error + unit) \<times> 's) option"
  assumes push_holds: "holds kps s \<Longrightarrow> rec_repr r k p \<Longrightarrow> room_for kps k p \<Longrightarrow>
    \<exists>s'. push r s = Some (Inr (), s') \<and> holds (kps @ [(k, p)]) s'"
begin

lemma push_all_holds:
  "holds kps s \<Longrightarrow> list_all2 (\<lambda>r (k, p). rec_repr r k p) rs es \<Longrightarrow>
   key_bytes (kps @ es) < 2 ^ 32 \<Longrightarrow> length (enc_blobs (kps @ es)) < 2 ^ 61 \<Longrightarrow>
   \<exists>s'. push_all push rs s = Some (Inr (), s') \<and> holds (kps @ es) s'"
proof (induction rs arbitrary: kps s es)
  case Nil
  then show ?case by simp
next
  case (Cons r rs)
  from Cons.prems(2) obtain k p es' where es: "es = (k, p) # es'" "rec_repr r k p"
    "list_all2 (\<lambda>r (k, p). rec_repr r k p) rs es'" by (auto simp: list_all2_Cons1)
  have "room_for kps k p" using Cons.prems(3,4) by (simp add: room_for_def es(1))
  from push_holds [OF Cons.prems(1) es(2) this] obtain s' where
    s': "push r s = Some (Inr (), s')" "holds (kps @ [(k, p)]) s'" by blast
  have "\<exists>s''. push_all push rs s' = Some (Inr (), s'') \<and> holds ((kps @ [(k, p)]) @ es') s''"
    by (rule Cons.IH [OF s'(2) es(3)]) (use Cons.prems(3,4) in \<open>simp_all add: es(1)\<close>)
  then show ?case using s'(1) by (simp add: es(1))
qed

end

section \<open>The flush\<close>

definition flush_holds :: "hasher \<Rightarrow> writer \<Rightarrow> entry list \<Rightarrow> FlushState \<Rightarrow> bool" where
  "flush_holds H W kps st \<longleftrightarrow> full_writes W \<and> at_end (fs_fd st) \<and>
     f_data (fs_fd st) = file_header @ enc_blobs kps \<and>
     fs_disk_size st = 9 + length (enc_blobs kps) \<and> indexes H kps (fs_trie st) (fs_bloom_filter st)"

text \<open>A node is flushed through its record alone.\<close>

definition flush_record :: "hasher \<Rightarrow> writer \<Rightarrow> Record \<Rightarrow> FlushState \<Rightarrow> ((io_error + unit) \<times> FlushState) option" where
  "flush_record H W r = flush_node H W (new_from_record r)"

lemma flush_node_record: "flush_node H W nd = flush_record H W (nd_record nd)"
  by (rule ext) (simp add: flush_record_def flush_node_def node_copy_record_def node_key_def new_from_record_def)

lemma flush_record_holds:
  assumes st: "flush_holds H W kps st" and r: "rec_repr r k p" and room: "room_for kps k p"
  shows "\<exists>st'. flush_record H W r st = Some (Inr (), st') \<and> flush_holds H W (kps @ [(k, p)]) st'"
proof -
  define n where "n = 9 + length (enc_blobs kps)"
  have W: "full_writes W" and ix: "indexes H kps (fs_trie st) (fs_bloom_filter st)" and d: "fs_disk_size st = n"
    and fd: "at_end (fs_fd st)" "f_data (fs_fd st) = file_header @ enc_blobs kps"
    using st by (simp_all add: flush_holds_def n_def)
  have rm: "key_bytes kps + length k < 2 ^ 32" "9 + length (enc_blobs kps) < 2 ^ 63"
    using room by (simp_all add: room_for_def)
  obtain t' bf' where t': "trie_insert k (of_nat n) (fs_trie st) = Some t'"
    "bloom_insert H k (fs_bloom_filter st) = Some bf'" "indexes H (kps @ [(k, p)]) t' bf'"
    unfolding n_def by (rule indexes_step [OF ix rm, of p])
  have k: "record_key r = Some k" by (rule record_key_repr [OF r])
  have b: "rec_blob r = enc_blob k p" using r by (simp add: rec_repr_def)
  have "n + length (enc_blob k p) < 2 ^ 64" using room by (simp add: room_for_def n_def)
  then have u: "usize_add n (length (enc_blob k p)) = Some (n + length (enc_blob k p))" by simp
  show ?thesis
    using t' k b u d fd W file_write_full [OF W fd(1)]
    by (simp add: flush_record_def flush_node_def node_key_def node_copy_record_def record_copy_record_def
        new_from_record_def flush_holds_def n_def Let_def at_end_def del: of_nat_add)
qed

interpretation flush: sst_builder "flush_holds H W" "flush_record H W" for H W
  by unfold_locales (rule flush_record_holds)

text \<open>The recursion over the tree is the sequence of its records from left to right.\<close>

lemma inorder_flush_rep:
  "rep (mt_arena table) par ptr t \<Longrightarrow>
   inorder_flush H W table ptr st = push_all (flush_record H W) (map (\<lambda>i. nd_record (mt_arena table ! i)) (labels t)) st"
proof (induction t arbitrary: par ptr st rule: no_red_red.induct)
  case 1
  then show ?case by (subst inorder_flush.simps) simp
next
  case (2 l i c r)
  then have i: "ptr = Some i" "i < length (mt_arena table)" by simp_all
  have kids: "rep (mt_arena table) (Some i) (nd_left (mt_arena table ! i)) l"
    "rep (mt_arena table) (Some i) (nd_right (mt_arena table ! i)) r" using "2.prems" by simp_all
  note IH = "2.IH"(1) [OF kids(1)] "2.IH"(2) [OF kids(2)]
  show ?case
    using i by (subst inorder_flush.simps)
      (simp add: node_at_def IH push_all_append flush_node_record cong: sum.case_cong)
qed

text \<open>The entries of a table in key order: what a flush writes.\<close>

definition tree_entries :: "nat ctree \<Rightarrow> entry list \<Rightarrow> entry list" where
  "tree_entries T es = map (\<lambda>i. es ! i) (labels T)"

lemma mt_wf_tree_entries:
  assumes wf: "mt_wf self T es"
  shows "list_all2 (\<lambda>r (k, p). rec_repr r k p) (map (\<lambda>i. nd_record (mt_arena self ! i)) (labels T)) (tree_entries T es)"
    and "sorted_wrt (<) (map fst (tree_entries T es))" and "map_of (tree_entries T es) = mt_view self"
    and "mset (tree_entries T es) = mset es"
proof -
  have lab: "set (labels T) = {..<length es}" "distinct (labels T)"
    using wf mt_wf_labels [OF wf] by (simp_all add: mt_wf_def tree_of_def)
  show "list_all2 (\<lambda>r (k, p). rec_repr r k p) (map (\<lambda>i. nd_record (mt_arena self ! i)) (labels T)) (tree_entries T es)"
    unfolding tree_entries_def list_all2_map1 list_all2_map2 list_all2_same
    using mt_wf_record [OF wf] lab(1) by (simp add: case_prod_beta)
  show s: "sorted_wrt (<) (map fst (tree_entries T es))"
    using wf by (simp add: mt_wf_def sorted_keys_def tree_entries_def comp_def)
  have m: "mset (labels T) = mset [0..<length es]"
    using set_eq_iff_mset_eq_distinct [OF lab(2) distinct_upt, of 0 "length es"] lab(1) by (simp add: lessThan_atLeast0)
  then have "image_mset (\<lambda>i. es ! i) (mset (labels T)) = mset (map (\<lambda>i. es ! i) [0..<length es])" by simp
  then show ms: "mset (tree_entries T es) = mset es" unfolding map_nth by (simp add: tree_entries_def)
  have "map_of (tree_entries T es) = map_of es"
    using map_of_inject_set [of "tree_entries T es" es] mt_wf_distinct [OF wf] mset_eq_setD [OF ms] s
    unfolding strict_sorted_iff by blast
  then show "map_of (tree_entries T es) = mt_view self" by (simp add: mt_wf_view [OF wf])
qed

section \<open>The whole file\<close>

definition append_file :: "File \<Rightarrow> bytes \<Rightarrow> File" where
  "append_file fd bs = fd\<lparr>f_data := f_data fd @ bs, f_pos := length (f_data fd @ bs)\<rparr>"

lemma append_file_simps [simp]:
  "f_data (append_file fd bs) = f_data fd @ bs" "at_end (append_file fd bs)"
  by (simp_all add: append_file_def at_end_def)

lemma write_then_full:
  "full_writes W \<Longrightarrow> at_end fd \<Longrightarrow> write_then W fd buf k = k (append_file fd buf)"
  by (simp add: write_then_def file_write_full append_file_def)

text \<open>The blocks after the data, as both writers append them.\<close>

definition file_tail ::
  "writer \<Rightarrow> File \<Rightarrow> nat \<Rightarrow> Trie \<Rightarrow> BloomFilter \<Rightarrow> 'a \<Rightarrow> ((io_error + 'a) \<times> File) option" where
  "file_tail W fd n t bf x = do {
     index_block_buffer \<leftarrow> trie_serialize t;
     bloom_filter_start \<leftarrow> usize_add n (length index_block_buffer);
     write_then W fd index_block_buffer (\<lambda>fd. do {
       bloom_filter_buffer \<leftarrow> bloom_serialize bf;
       write_then W fd bloom_filter_buffer (\<lambda>fd. do {
         footer \<leftarrow> encode_footer (of_nat n) (of_nat (length index_block_buffer)) (of_nat bloom_filter_start);
         write_then W fd footer (\<lambda>fd. Some (Inr x, fd))
       })
     })
   }"

lemma table_blocks:
  assumes ix: "indexes H kps t bf" and br: "branching_ok kps" and kb: "key_bytes kps < 2 ^ 32"
    and sz: "length (enc_blobs kps) < 2 ^ 61"
  shows "trie_serialize t = Some (trie_bytes (tr_arena t)) \<and> bloom_serialize bf = Some (bloom_bytes bf) \<and>
    usize_add (9 + length (enc_blobs kps)) (length (trie_bytes (tr_arena t))) =
      Some (9 + length (enc_blobs kps) + length (trie_bytes (tr_arena t)))"
proof -
  have ok: "table_ok kps (tr_arena t) bf" by (rule indexes_table_ok [OF ix br kb sz])
  have "9 + length (enc_blobs kps) + length (trie_bytes (tr_arena t)) < 2 ^ 64"
    using ok by (simp add: table_ok_def length_sstable_bytes)
  moreover have "trie_serialize t = Some (trie_bytes (tr_arena t))"
    unfolding trie_serialize_def by (rule trie_serialize_in_bytes) (simp add: make_blob_buffer_def)
  moreover have "bloom_serialize bf = Some (bloom_bytes bf)"
    by (rule bloom_serialize_bytes) (use ok in \<open>simp add: table_ok_def bloom_ok_def\<close>)
  ultimately show ?thesis by simp
qed

lemma file_tail_bytes:
  assumes W: "full_writes W" and fd: "at_end fd" "f_data fd = file_header @ enc_blobs kps"
    and ix: "indexes H kps t bf" and br: "branching_ok kps" and kb: "key_bytes kps < 2 ^ 32"
    and sz: "length (enc_blobs kps) < 2 ^ 61" and n: "n = 9 + length (enc_blobs kps)"
  shows "\<exists>fd'. file_tail W fd n t bf x = Some (Inr x, fd') \<and> f_data fd' = sstable_bytes kps (tr_arena t) bf"
proof -
  let ?t = "trie_bytes (tr_arena t)" and ?b = "bloom_bytes bf"
  have u: "usize_add n (length ?t) = Some (n + length ?t)" and s: "trie_serialize t = Some ?t"
    and b: "bloom_serialize bf = Some ?b" using table_blocks [OF ix br kb sz] by (simp_all add: n)
  let ?fd = "append_file (append_file (append_file fd ?t) ?b) (footer_bytes (of_nat n) (of_nat (length ?t)) (of_nat (n + length ?t)))"
  have "file_tail W fd n t bf x = Some (Inr x, ?fd)"
    using fd(1) u s b by (simp add: file_tail_def write_then_full [OF W] encode_footer_bytes del: of_nat_add)
  moreover have "f_data ?fd = sstable_bytes kps (tr_arena t) bf"
    using fd(2) by (simp add: sstable_bytes_def Let_def n del: of_nat_add)
  ultimately show ?thesis by blast
qed

lemma length_le_key_bytes: "length kps \<le> key_bytes kps"
  by (induction kps) auto

lemma tree_entries_length: "mt_wf self T es \<Longrightarrow> length (tree_entries T es) = length (mt_arena self)"
  using mt_wf_tree_entries(4) [of self T es] mt_wf_length [of self T es] by (metis size_mset)

lemma write_sstable_bytes:
  assumes wf: "mt_wf table T es" and W: "full_writes W" and fd: "at_end fd" "f_data fd = []"
    and kps: "kps = tree_entries T es" and br: "branching_ok kps" and kb: "key_bytes kps < 2 ^ 32"
    and sz: "length (enc_blobs kps) < 2 ^ 61"
  obtains fd' t bf where "write_sstable f H W table fd = Some (Inr (), fd')"
    "f_data fd' = sstable_bytes kps (tr_arena t) bf" "indexes H kps t bf"
proof -
  let ?n = "length (mt_arena table)"
  have n: "?n < 2 ^ 58" using length_le_key_bytes [of kps] kb tree_entries_length [OF wf] kps by simp
  let ?fd = "append_file (append_file fd LSMLITE_SSTABLE_HEADER) (to_be_bytes16 V0_HEADER)"
  let ?st = "\<lparr>fs_fd = ?fd, fs_disk_size = 9, fs_trie = trie_new ?n, fs_bloom_filter = bloom_new f ?n\<rparr>"
  have st: "flush_holds H W [] ?st" using W fd n by (simp add: flush_holds_def file_header_def indexes_new)
  have "\<exists>s'. push_all (flush_record H W) (map (\<lambda>i. nd_record (mt_arena table ! i)) (labels T)) ?st = Some (Inr (), s') \<and>
      flush_holds H W ([] @ kps) s'"
    by (rule flush.push_all_holds [OF st]) (use mt_wf_tree_entries(1) [OF wf] kps kb sz in simp_all)
  then obtain st' where fl: "inorder_flush H W table (mt_root_node table) ?st = Some (Inr (), st')"
    and st': "flush_holds H W kps st'"
    using inorder_flush_rep [of table None "mt_root_node table" T H W ?st] wf by (auto simp: mt_wf_def tree_of_def)
  have h: "at_end (fs_fd st')" "f_data (fs_fd st') = file_header @ enc_blobs kps"
    "indexes H kps (fs_trie st') (fs_bloom_filter st')" "fs_disk_size st' = 9 + length (enc_blobs kps)"
    using st' by (simp_all add: flush_holds_def)
  from file_tail_bytes [OF W h(1,2,3) br kb sz h(4), of "()"] obtain fd' where
    tail: "file_tail W (fs_fd st') (fs_disk_size st') (fs_trie st') (fs_bloom_filter st') () = Some (Inr (), fd')"
    and fd': "f_data fd' = sstable_bytes kps (tr_arena (fs_trie st')) (fs_bloom_filter st')" by blast
  have "write_sstable f H W table fd = file_tail W (fs_fd st') (fs_disk_size st') (fs_trie st') (fs_bloom_filter st') ()"
    using fl fd(1) by (simp add: write_sstable_def file_tail_def Let_def write_then_full [OF W] HEADER_SIZE_def)
  then show thesis using that [OF _ fd' h(3)] tail by simp
qed

lemma flushable_tree_entries:
  assumes wf: "mt_wf table T es"
  shows "flushable es \<Longrightarrow> flushable (tree_entries T es)"
proof (rule flushable_mono)
  note te = mt_wf_tree_entries(4) [OF wf]
  show "set (tree_entries T es) \<subseteq> set es" using mset_eq_setD [OF te] by simp
  show "sum_list (map w (tree_entries T es)) \<le> sum_list (map w es)" for w :: "entry \<Rightarrow> nat"
    using te by (metis mset_map sum_mset_sum_list order_refl)
qed

text \<open>A flushed table opens as the table's entries in key order.\<close>

lemma flush_indexed:
  assumes wf: "mt_wf table T es" and W: "full_writes W" and fl: "flushable es"
  obtains fd t where "write_sstable f H W table file_create = Some (Inr (), fd)"
    "sstable_from_fd (file_open (f_data fd)) = Some (Inr t)" "indexed H (tree_entries T es) t"
proof -
  let ?kps = "tree_entries T es"
  note te = mt_wf_tree_entries [OF wf]
  have fl': "flushable ?kps" by (rule flushable_tree_entries [OF wf fl])
  have d: "distinct (map fst ?kps)" using te(2) by (simp add: strict_sorted_iff)
  have s: "branching_ok ?kps" "key_bytes ?kps < 2 ^ 32" "length (enc_blobs ?kps) < 2 ^ 61"
    using fl' by (simp_all add: flushable_def)
  obtain fd tr bf where w: "write_sstable f H W table file_create = Some (Inr (), fd)"
    "f_data fd = sstable_bytes ?kps (tr_arena tr) bf" "indexes H ?kps tr bf"
    by (rule write_sstable_bytes [OF wf W at_end_create f_data_create refl s])
  obtain t where "sstable_from_fd (file_open (f_data fd)) = Some (Inr t)" "indexed H ?kps t"
    unfolding w(2) by (rule open_indexed [OF d fl' w(3)])
  with w(1) show thesis by (rule that)
qed

lemma mt_entries_single:
  assumes inv: "mt_inv self" and view: "mt_view self = [k \<mapsto> p]"
  shows "mt_entries self = [(k, p)]"
proof -
  from inv obtain T es where wf: "mt_wf self T es" by (auto simp: mt_inv_def)
  have d: "distinct (map fst es)" and m: "map_of es = [k \<mapsto> p]"
    using mt_wf_distinct [OF wf] mt_wf_view [OF wf] view by simp_all
  have "(k', p') \<in> set es \<longleftrightarrow> k' = k \<and> p' = p" for k' p'
    using map_of_eq_Some_iff [OF d, of k' p'] unfolding m by (auto split: if_splits)
  then have "set es = {(k, p)}" by auto
  moreover have "distinct es" using d by (rule distinct_map [THEN iffD1, THEN conjunct1])
  ultimately have "length es = 1" using distinct_card [of es] by simp
  then have "es = [(k, p)]" using \<open>set es = {(k, p)}\<close> by (cases es) auto
  then show ?thesis by (simp add: mt_wf_entries [OF wf])
qed

end
