(* ===== verification/Compaction_Writer.thy ===== *)
theory Compaction_Writer
  imports SSTable_Write
begin

text \<open>
  The writer of a compacted SSTable, \<^verbatim>\<open>src/sstable/compaction_writer.rs\<close>.  \<open>cw_capacity\<close> is the
  capacity of \<^verbatim>\<open>write_buffer\<close>, which starts at 4096 and grows when a longer record is appended;
  \<open>grow\<close> stands for the growth of a \<^verbatim>\<open>Vec\<close>, which the standard library leaves open.
\<close>

section \<open>Definitions\<close>

record CompactionWriter =
  cw_fd :: File
  cw_filename :: string
  cw_trie :: Trie
  cw_disk_offset :: nat
  cw_write_buffer :: bytes
  cw_capacity :: nat
  cw_bloom_filter :: BloomFilter

text \<open>\<open>created\<close> is the outcome of creating the file under the generated name.\<close>

definition compaction_writer_new ::
  "(u64 \<Rightarrow> nat \<Rightarrow> u64) \<Rightarrow> writer \<Rightarrow> string \<Rightarrow> io_error + unit \<Rightarrow> io_error + CompactionWriter" where
  "compaction_writer_new ln2_hashes W filename created =
     (case created of
        Inl e \<Rightarrow> Inl e
      | Inr _ \<Rightarrow>
          (case file_write W file_create LSMLITE_SSTABLE_HEADER of
             (Inl e, _) \<Rightarrow> Inl e
           | (Inr _, fd) \<Rightarrow>
               (case file_write W fd (to_be_bytes16 V0_HEADER) of
                  (Inl e, _) \<Rightarrow> Inl e
                | (Inr _, fd) \<Rightarrow> Inr
                    \<lparr>cw_fd = fd, cw_filename = filename, cw_trie = trie_new 1024,
                     cw_disk_offset = unat HEADER_SIZE, cw_write_buffer = [], cw_capacity = 4096,
                     cw_bloom_filter = bloom_new ln2_hashes 1024\<rparr>)))"

definition compaction_push ::
  "hasher \<Rightarrow> writer \<Rightarrow> (nat \<Rightarrow> nat \<Rightarrow> nat) \<Rightarrow> Record \<Rightarrow> CompactionWriter \<Rightarrow>
     ((io_error + unit) \<times> CompactionWriter) option" where
  "compaction_push H W grow record self = do {
     key \<leftarrow> record_key record;
     bloom_filter \<leftarrow> bloom_insert H key (cw_bloom_filter self);
     let rsize = record_size record;
     trie \<leftarrow> trie_insert key (of_nat (cw_disk_offset self)) (cw_trie self);
     let self = self\<lparr>cw_bloom_filter := bloom_filter, cw_trie := trie\<rparr>;
     needed \<leftarrow> usize_add (length (cw_write_buffer self)) rsize;
     let (res, self) =
       (if cw_capacity self \<le> needed
        then (case file_write W (cw_fd self) (cw_write_buffer self) of
                (Inl e, fd) \<Rightarrow> (Inl e, self\<lparr>cw_fd := fd\<rparr>)
              | (Inr _, fd) \<Rightarrow> (Inr (), self\<lparr>cw_fd := fd, cw_write_buffer := []\<rparr>))
        else (Inr (), self));
     case res of
       Inl e \<Rightarrow> Some (Inl e, self)
     | Inr _ \<Rightarrow> do {
         let buffer = cw_write_buffer self @ take_blob record;
         offset \<leftarrow> usize_add (cw_disk_offset self) rsize;
         Some (Inr (), self\<lparr>cw_write_buffer := buffer,
           cw_capacity := (if length buffer \<le> cw_capacity self then cw_capacity self
                           else grow (cw_capacity self) (length buffer)),
           cw_disk_offset := offset\<rparr>)
       }
   }"

definition compaction_finish :: "writer \<Rightarrow> CompactionWriter \<Rightarrow> ((io_error + string) \<times> File) option" where
  "compaction_finish W self =
     write_then W (cw_fd self) (cw_write_buffer self) (\<lambda>fd. do {
       let index_block_start = cw_disk_offset self;
       index_block_buffer \<leftarrow> trie_serialize (cw_trie self);
       let index_block_len = length index_block_buffer;
       bloom_filter_start \<leftarrow> usize_add index_block_start (length index_block_buffer);
       write_then W fd index_block_buffer (\<lambda>fd. do {
         bloom_filter_buffer \<leftarrow> bloom_serialize (cw_bloom_filter self);
         write_then W fd bloom_filter_buffer (\<lambda>fd. do {
           footer \<leftarrow> encode_footer (of_nat index_block_start) (of_nat index_block_len) (of_nat bloom_filter_start);
           write_then W fd footer (\<lambda>fd. Some (Inr (cw_filename self), fd))
         })
       })
     })"

section \<open>The writer holds the entries pushed\<close>

definition writer_holds :: "hasher \<Rightarrow> writer \<Rightarrow> entry list \<Rightarrow> CompactionWriter \<Rightarrow> bool" where
  "writer_holds H W kps self \<longleftrightarrow> full_writes W \<and> at_end (cw_fd self) \<and>
     f_data (cw_fd self) @ cw_write_buffer self = file_header @ enc_blobs kps \<and>
     cw_disk_offset self = 9 + length (enc_blobs kps) \<and> indexes H kps (cw_trie self) (cw_bloom_filter self)"

lemma compaction_writer_new_holds:
  assumes "full_writes W"
  obtains self where "compaction_writer_new f W name (Inr ()) = Inr self" "writer_holds H W [] self"
    "cw_filename self = name"
proof -
  have "at_end file_create" by simp
  note w = file_write_full [OF assms this]
  have "at_end (file_create\<lparr>f_data := LSMLITE_SSTABLE_HEADER, f_pos := length LSMLITE_SSTABLE_HEADER\<rparr>)"
    by simp
  note w' = file_write_full [OF assms this]
  show thesis
    by (rule that [unfolded compaction_writer_new_def])
      (use w w' assms in \<open>auto simp: writer_holds_def HEADER_SIZE_def file_header_def at_end_def indexes_new\<close>)
qed

lemma compaction_push_holds:
  assumes self: "writer_holds H W kps self" and r: "rec_repr r k p" and room: "room_for kps k p"
  shows "\<exists>self'. compaction_push H W grow r self = Some (Inr (), self') \<and> writer_holds H W (kps @ [(k, p)]) self'"
proof -
  define n where "n = 9 + length (enc_blobs kps)"
  have W: "full_writes W" and ix: "indexes H kps (cw_trie self) (cw_bloom_filter self)"
    and d: "cw_disk_offset self = n" and fd: "at_end (cw_fd self)"
    and data: "f_data (cw_fd self) @ cw_write_buffer self = file_header @ enc_blobs kps"
    using self by (simp_all add: writer_holds_def n_def)
  have rm: "key_bytes kps + length k < 2 ^ 32" "9 + length (enc_blobs kps) < 2 ^ 63"
    using room by (simp_all add: room_for_def)
  obtain t' bf' where t': "trie_insert k (of_nat n) (cw_trie self) = Some t'"
    "bloom_insert H k (cw_bloom_filter self) = Some bf'" "indexes H (kps @ [(k, p)]) t' bf'"
    unfolding n_def by (rule indexes_step [OF ix rm, of p])
  have k: "record_key r = Some k" by (rule record_key_repr [OF r])
  have b: "rec_blob r = enc_blob k p" using r by (simp add: rec_repr_def)
  have "n + length (enc_blob k p) < 2 ^ 64" using room by (simp add: room_for_def n_def)
  moreover have "length (cw_write_buffer self) \<le> n" using arg_cong [OF data, of length] by (simp add: n_def)
  ultimately have u: "usize_add n (length (enc_blob k p)) = Some (n + length (enc_blob k p))"
    "usize_add (length (cw_write_buffer self)) (length (enc_blob k p)) =
       Some (length (cw_write_buffer self) + length (enc_blob k p))" by simp_all
  have dd: "f_data (cw_fd self) @ cw_write_buffer self @ enc_blob k p = file_header @ enc_blobs kps @ enc_blob k p"
    using data by (metis append.assoc)
  have "length (f_data (cw_fd self)) + length (cw_write_buffer self) = 9 + length (enc_blobs kps)"
    using arg_cong [OF data, of length] by simp
  then show ?thesis
    using t' k b u d fd W dd file_write_full [OF W fd]
    by (simp add: compaction_push_def writer_holds_def take_blob_def record_size_def n_def Let_def at_end_def
        del: of_nat_add)
qed

interpretation compaction_builder: sst_builder "writer_holds H W" "compaction_push H W grow" for H W grow
  by unfold_locales (rule compaction_push_holds)

lemma compaction_finish_bytes:
  assumes self: "writer_holds H W kps self" and br: "branching_ok kps" and kb: "key_bytes kps < 2 ^ 32"
    and sz: "length (enc_blobs kps) < 2 ^ 61"
  shows "\<exists>fd. compaction_finish W self = Some (Inr (cw_filename self), fd) \<and>
    f_data fd = sstable_bytes kps (tr_arena (cw_trie self)) (cw_bloom_filter self)"
proof -
  have W: "full_writes W" and ix: "indexes H kps (cw_trie self) (cw_bloom_filter self)" and fd: "at_end (cw_fd self)"
    and n: "cw_disk_offset self = 9 + length (enc_blobs kps)"
    and data: "f_data (append_file (cw_fd self) (cw_write_buffer self)) = file_header @ enc_blobs kps"
    using self by (simp_all add: writer_holds_def)
  from file_tail_bytes [OF W _ data ix br kb sz n, of "cw_filename self"] obtain fd' where
    "file_tail W (append_file (cw_fd self) (cw_write_buffer self)) (cw_disk_offset self) (cw_trie self)
       (cw_bloom_filter self) (cw_filename self) = Some (Inr (cw_filename self), fd')"
    "f_data fd' = sstable_bytes kps (tr_arena (cw_trie self)) (cw_bloom_filter self)" by auto
  then show ?thesis
    by (simp add: compaction_finish_def write_then_full [OF W fd] file_tail_def Let_def)
qed

end
