(* ===== verification/Merge_Spec.thy ===== *)
theory Merge_Spec
  imports Sst_Index
begin

text \<open>
  The abstract specification of compaction: merging the entry lists of several tables.  In every
  round a smallest key is taken from the front of some list, all entries of that key are dropped, and
  the entry taken is kept unless it is a tombstone.  Which list supplies the entry when several start
  with that key is left open.
\<close>

section \<open>The merge relation\<close>

definition drop_key :: "bytes \<Rightarrow> entry list \<Rightarrow> entry list" where
  "drop_key k L = (case L of [] \<Rightarrow> [] | (k', p) # L' \<Rightarrow> if k' = k then L' else L)"

definition emit :: "bytes \<Rightarrow> bytes option \<Rightarrow> entry list \<Rightarrow> entry list" where
  "emit k p out = (case p of None \<Rightarrow> out | Some v \<Rightarrow> (k, p) # out)"

definition heads_ge :: "bytes \<Rightarrow> entry list list \<Rightarrow> bool" where
  "heads_ge k P \<longleftrightarrow> (\<forall>L \<in> set P. L \<noteq> [] \<longrightarrow> k \<le> fst (hd L))"

inductive merges :: "entry list list \<Rightarrow> entry list \<Rightarrow> bool" where
  finished: "\<forall>L \<in> set P. L = [] \<Longrightarrow> merges P []"
| round: "i < length P \<Longrightarrow> P ! i = (k, p) # L \<Longrightarrow> heads_ge k P \<Longrightarrow> merges (map (drop_key k) P) out \<Longrightarrow>
    merges P (emit k p out)"

definition sorted_table :: "entry list \<Rightarrow> bool" where
  "sorted_table L \<longleftrightarrow> sorted_wrt (<) (map fst L)"

text \<open>What is left of a payload after compaction: tombstones disappear.\<close>

definition live :: "bytes option \<Rightarrow> bytes option option" where
  "live p = (case p of None \<Rightarrow> None | Some v \<Rightarrow> Some (Some v))"

lemma live_simps [simp]: "live None = None" "live (Some v) = Some (Some v)"
  by (simp_all add: live_def)

section \<open>One round on sorted tables\<close>

lemma drop_key_simps [simp]:
  "drop_key k [] = []" "drop_key k ((k, p) # L) = L" "k' \<noteq> k \<Longrightarrow> drop_key k ((k', p) # L) = (k', p) # L"
  by (simp_all add: drop_key_def)

lemma set_drop_key: "set (drop_key k L) \<subseteq> set L"
  by (auto simp: drop_key_def split: list.splits if_splits)

lemma sorted_table_Cons: "sorted_table ((k, p) # L) \<longleftrightarrow> (\<forall>x \<in> set L. k < fst x) \<and> sorted_table L"
  by (simp add: sorted_table_def)

lemma sorted_drop_key: "sorted_table L \<Longrightarrow> sorted_table (drop_key k L)"
  by (cases L) (auto simp: drop_key_def sorted_table_def)

text \<open>After the round every key left is greater.\<close>

lemma drop_key_greater:
  assumes "sorted_table L" "L \<noteq> [] \<longrightarrow> k \<le> fst (hd L)" "x \<in> set (drop_key k L)"
  shows "k < fst x"
proof (cases L)
  case Nil
  then show ?thesis using assms(3) by simp
next
  case (Cons y L')
  obtain k' p' where y: "y = (k', p')" by (cases y)
  have s: "\<forall>x \<in> set L'. k' < fst x" "k \<le> k'" using assms(1,2) by (simp_all add: Cons y sorted_table_Cons)
  show ?thesis
  proof (cases "k' = k")
    case True
    then show ?thesis using assms(3) s by (simp add: Cons y)
  next
    case False
    then have "x = y \<or> x \<in> set L'" using assms(3) by (simp add: Cons y)
    then show ?thesis using False s by (auto simp: y)
  qed
qed

lemma drop_key_id: "sorted_table L \<Longrightarrow> (L \<noteq> [] \<Longrightarrow> k < fst (hd L)) \<Longrightarrow> drop_key k L = L"
  by (cases L) (auto simp: drop_key_def)

lemma map_of_drop_key: "k' \<noteq> k \<Longrightarrow> map_of (drop_key k L) k' = map_of L k'"
  by (cases L) (auto simp: drop_key_def)

lemma map_of_drop_key_self:
  "sorted_table L \<Longrightarrow> L \<noteq> [] \<longrightarrow> k \<le> fst (hd L) \<Longrightarrow> map_of (drop_key k L) k = None"
  using drop_key_greater [of L k] by (auto simp: map_of_eq_None_iff)

lemma heads_geD: "heads_ge k P \<Longrightarrow> L \<in> set P \<Longrightarrow> L \<noteq> [] \<longrightarrow> k \<le> fst (hd L)"
  by (simp add: heads_ge_def)

lemma sorted_tables_drop: "\<forall>L \<in> set P. sorted_table L \<Longrightarrow> \<forall>L \<in> set (map (drop_key k) P). sorted_table L"
  by (auto intro: sorted_drop_key)

section \<open>What a merge yields\<close>

lemma merges_lookup:
  "merges P out \<Longrightarrow> \<forall>L \<in> set P. sorted_table L \<Longrightarrow>
   (if \<forall>L \<in> set P. map_of L k = None then map_of out k = None
    else \<exists>L \<in> set P. \<exists>p. map_of L k = Some p \<and> map_of out k = live p)"
proof (induction arbitrary: k rule: merges.induct)
  case (finished P)
  then show ?case by auto
next
  case (round i P k0 p0 L0 out)
  note IH = round.IH [OF sorted_tables_drop [OF round.prems]]
  note s = bspec [OF round.prems] and h = heads_geD [OF round.hyps(3)]
  have L0: "(k0, p0) # L0 \<in> set P" using round.hyps(1,2) nth_mem by fastforce
  show ?case
  proof (cases "k = k0")
    case True
    have "\<forall>L \<in> set (map (drop_key k0) P). map_of L k0 = None" using s h by (auto intro: map_of_drop_key_self)
    then have "map_of out k0 = None" using IH [of k0] by argo
    then have "map_of (emit k0 p0 out) k0 = live p0" by (simp add: emit_def split: option.split)
    then show ?thesis using L0 True by (auto intro!: bexI [OF _ L0])
  next
    case False
    then have "map_of (emit k0 p0 out) k = map_of out k" by (simp add: emit_def split: option.split)
    moreover have "map_of (drop_key k0 L) k = map_of L k" for L by (rule map_of_drop_key [OF False])
    ultimately show ?thesis using IH [of k] by (auto split: if_splits)
  qed
qed

lemma merges_set: "merges P out \<Longrightarrow> set out \<subseteq> \<Union> (set ` set P)"
proof (induction rule: merges.induct)
  case (finished P)
  then show ?case by simp
next
  case (round i P k p L out)
  have "(k, p) # L \<in> set P" using round.hyps(1,2) nth_mem by fastforce
  then have "(k, p) \<in> \<Union> (set ` set P)" by force
  moreover have "set out \<subseteq> \<Union> (set ` set P)" using round.IH set_drop_key by fastforce
  ultimately show ?case by (cases p) (simp_all add: emit_def)
qed

lemma merges_sorted: "merges P out \<Longrightarrow> \<forall>L \<in> set P. sorted_table L \<Longrightarrow> sorted_table out"
proof (induction rule: merges.induct)
  case (finished P)
  then show ?case by (simp add: sorted_table_def)
next
  case (round i P k p L out)
  note s = bspec [OF round.prems] and h = heads_geD [OF round.hyps(3)]
  have "k < fst x" if x: "x \<in> set out" for x
  proof -
    obtain L where "L \<in> set P" "x \<in> set (drop_key k L)" using merges_set [OF round.hyps(4)] x by auto
    then show ?thesis using drop_key_greater s h by blast
  qed
  then show ?case using round.IH [OF sorted_tables_drop [OF round.prems]]
    by (auto simp: emit_def sorted_table_Cons split: option.split)
qed

lemma merges_data: "merges P out \<Longrightarrow> (k, p) \<in> set out \<Longrightarrow> p \<noteq> None"
  by (induction rule: merges.induct) (auto simp: emit_def split: option.splits)

text \<open>Nothing is duplicated: any weight of entries can only go down.\<close>

definition weight :: "(entry \<Rightarrow> nat) \<Rightarrow> entry list list \<Rightarrow> nat" where
  "weight w P = sum_list (map w (concat P))"

lemma weight_simps [simp]: "weight w [] = 0" "weight w (L # P) = sum_list (map w L) + weight w P"
  by (simp_all add: weight_def)

lemma drop_key_weight: "sum_list (map w (drop_key k L)) \<le> (sum_list (map w L) :: nat)"
  by (cases L) (auto simp: drop_key_def)

lemma drops_weight: "weight w (map (drop_key k) P) \<le> weight w P"
  by (induction P) (auto intro: add_mono drop_key_weight)

lemma round_weight:
  "i < length P \<Longrightarrow> P ! i = (k, p) # L \<Longrightarrow> w (k, p) + weight w (map (drop_key k) P) \<le> weight w P"
proof (induction P arbitrary: i)
  case Nil
  then show ?case by simp
next
  case (Cons L' P)
  show ?case
  proof (cases i)
    case 0
    then show ?thesis using Cons.prems drops_weight [of w k P] by simp
  next
    case (Suc j)
    then have "w (k, p) + weight w (map (drop_key k) P) \<le> weight w P" using Cons by simp
    then show ?thesis using drop_key_weight [of w k L'] by simp
  qed
qed

lemma key_bytes_weight: "key_bytes kps = sum_list (map (\<lambda>(k, p). Suc (length k)) kps)"
  by (simp add: key_bytes_def)

lemma enc_blobs_weight: "length (enc_blobs kps) = sum_list (map (\<lambda>(k, p). length (enc_blob k p)) kps)"
  by (induction kps) auto

lemma merges_weight: "merges P out \<Longrightarrow> sum_list (map w out) \<le> weight w P"
proof (induction rule: merges.induct)
  case (finished P)
  then show ?case by simp
next
  case (round i P k p L out)
  then show ?case using round_weight [OF round.hyps(1,2), of w] by (auto simp: emit_def split: option.split)
qed

text \<open>Keys that are the only one of their kind survive compaction as they are.\<close>

lemma merges_single_owner:
  assumes m: "merges P out" and s: "\<forall>L \<in> set P. sorted_table L"
    and L: "L \<in> set P" "map_of L k = Some p" and only: "\<And>L'. L' \<in> set P \<Longrightarrow> map_of L' k \<noteq> None \<Longrightarrow> map_of L' k = Some p"
  shows "map_of out k = live p"
proof -
  have "\<not> (\<forall>L \<in> set P. map_of L k = None)" using L by auto
  then obtain L' q where "L' \<in> set P" "map_of L' k = Some q" "map_of out k = live q"
    using merges_lookup [OF m s, of k] by (simp only: if_False) blast
  then show ?thesis using only [of L'] by simp
qed

end
