(* ===== verification/Binary_Heap.thy ===== *)
theory Binary_Heap
  imports Lsm_Prelude "HOL-Library.Multiset"
begin

text \<open>
  The operations of \<^verbatim>\<open>std::collections::BinaryHeap\<close> that compaction uses: \<^verbatim>\<open>push\<close>, \<^verbatim>\<open>pop\<close> and
  \<^verbatim>\<open>peek\<close> on the backing vector.  The standard library compares elements with \<^verbatim>\<open><=\<close> only; that
  comparison is the argument \<open>le\<close>, which may panic.  The element in the \<^verbatim>\<open>Hole\<close> of the
  implementation is written at the hole's position here, so that moving the hole is a swap.
\<close>

section \<open>Definitions\<close>

definition swap_at :: "nat \<Rightarrow> nat \<Rightarrow> 'a list \<Rightarrow> 'a list" where
  "swap_at i j xs = xs[i := xs ! j, j := xs ! i]"

function sift_up :: "('a \<Rightarrow> 'a \<Rightarrow> bool option) \<Rightarrow> nat \<Rightarrow> 'a list \<Rightarrow> 'a list option" where
  "sift_up le pos xs =
     (if 0 < pos
      then let parent = (pos - 1) div 2 in
        (case le (xs ! pos) (xs ! parent) of
           None \<Rightarrow> None
         | Some b \<Rightarrow> if b then Some xs else sift_up le parent (swap_at pos parent xs))
      else Some xs)"
  by pat_completeness auto
termination
  by (relation "measure (\<lambda>(le, pos, xs). pos)") auto

declare sift_up.simps [simp del]

text \<open>\<^verbatim>\<open>sift_down_to_bottom\<close>: the element at \<open>pos\<close> goes down along the greater children, then up again.\<close>

function sift_down_loop :: "('a \<Rightarrow> 'a \<Rightarrow> bool option) \<Rightarrow> nat \<Rightarrow> 'a list \<Rightarrow> (nat \<times> 'a list) option" where
  "sift_down_loop le pos xs =
     (let child = 2 * pos + 1 in
      if child + 2 \<le> length xs
      then (case le (xs ! child) (xs ! (child + 1)) of
              None \<Rightarrow> None
            | Some b \<Rightarrow> let child = (if b then child + 1 else child)
                         in sift_down_loop le child (swap_at pos child xs))
      else if child + 1 = length xs then Some (child, swap_at pos child xs)
      else Some (pos, xs))"
  by pat_completeness auto
termination
  by (relation "measure (\<lambda>(le, pos, xs). length xs - pos)") (auto simp: swap_at_def)

declare sift_down_loop.simps [simp del]

definition sift_down_to_bottom :: "('a \<Rightarrow> 'a \<Rightarrow> bool option) \<Rightarrow> 'a list \<Rightarrow> 'a list option" where
  "sift_down_to_bottom le xs = do { (pos, xs) \<leftarrow> sift_down_loop le 0 xs; sift_up le pos xs }"

definition heap_push :: "('a \<Rightarrow> 'a \<Rightarrow> bool option) \<Rightarrow> 'a \<Rightarrow> 'a list \<Rightarrow> 'a list option" where
  "heap_push le item xs = sift_up le (length xs) (xs @ [item])"

definition heap_pop :: "('a \<Rightarrow> 'a \<Rightarrow> bool option) \<Rightarrow> 'a list \<Rightarrow> ('a option \<times> 'a list) option" where
  "heap_pop le xs =
     (if xs = [] then Some (None, [])
      else let item = last xs; xs = butlast xs in
        if xs = [] then Some (Some item, xs)
        else do {
          let (item, xs) = (xs ! 0, xs[0 := item]);
          xs \<leftarrow> sift_down_to_bottom le xs;
          Some (Some item, xs)
        })"

definition heap_peek :: "'a list \<Rightarrow> 'a option" where
  "heap_peek xs = (if xs = [] then None else Some (xs ! 0))"

section \<open>The heap property\<close>

text \<open>
  The elements carry keys \<open>K\<close>; the comparison is total on them and orders them downwards (the heap of
  \<^verbatim>\<open>Reverse\<close> elements keeps the smallest key at the root).
\<close>

definition orders :: "('a \<Rightarrow> 'a \<Rightarrow> bool option) \<Rightarrow> ('a \<Rightarrow> 'k::linorder) \<Rightarrow> 'a set \<Rightarrow> bool" where
  "orders le K S \<longleftrightarrow> (\<forall>a \<in> S. \<forall>b \<in> S. le a b = Some (K b \<le> K a))"

definition par :: "nat \<Rightarrow> nat" where "par i = (i - 1) div 2"

definition heap_ok :: "('a \<Rightarrow> 'k::linorder) \<Rightarrow> 'a list \<Rightarrow> bool" where
  "heap_ok K xs \<longleftrightarrow> (\<forall>i. 0 < i \<longrightarrow> i < length xs \<longrightarrow> K (xs ! par i) \<le> K (xs ! i))"

text \<open>Only the element at \<open>pos\<close> may be smaller than its parent.\<close>

definition heap_but :: "('a \<Rightarrow> 'k::linorder) \<Rightarrow> nat \<Rightarrow> 'a list \<Rightarrow> bool" where
  "heap_but K pos xs \<longleftrightarrow> (\<forall>i. 0 < i \<longrightarrow> i < length xs \<longrightarrow>
     (i \<noteq> pos \<longrightarrow> K (xs ! par i) \<le> K (xs ! i)) \<and>
     (par i = pos \<longrightarrow> 0 < pos \<longrightarrow> K (xs ! par pos) \<le> K (xs ! i)))"

text \<open>Nothing is known of the element at \<open>pos\<close>, a hole; the heap around it is in order.\<close>

definition heap_hole :: "('a \<Rightarrow> 'k::linorder) \<Rightarrow> nat \<Rightarrow> 'a list \<Rightarrow> bool" where
  "heap_hole K pos xs \<longleftrightarrow> (\<forall>i. 0 < i \<longrightarrow> i < length xs \<longrightarrow>
     (i \<noteq> pos \<longrightarrow> par i \<noteq> pos \<longrightarrow> K (xs ! par i) \<le> K (xs ! i)) \<and>
     (par i = pos \<longrightarrow> 0 < pos \<longrightarrow> K (xs ! par pos) \<le> K (xs ! i)))"

lemma par_less [simp]: "0 < i \<Longrightarrow> par i < i"
  by (simp add: par_def)

lemma par_children: "par i = pos \<Longrightarrow> 0 < i \<Longrightarrow> i = 2 * pos + 1 \<or> i = 2 * pos + 2"
  by (auto simp: par_def)

lemma par_child [simp]: "par (Suc (2 * pos)) = pos" "par (Suc (Suc (2 * pos))) = pos"
  by (simp_all add: par_def)

lemma length_swap_at [simp]: "length (swap_at i j xs) = length xs"
  by (simp add: swap_at_def)

lemma nth_swap_at:
  "i < length xs \<Longrightarrow> j < length xs \<Longrightarrow> swap_at i j xs ! m = (if m = j then xs ! i else if m = i then xs ! j else xs ! m)"
  by (auto simp: swap_at_def nth_list_update)

lemma mset_swap_at [simp]: "i < length xs \<Longrightarrow> j < length xs \<Longrightarrow> mset (swap_at i j xs) = mset xs"
  by (simp add: swap_at_def mset_swap)

lemma set_swap_at [simp]: "i < length xs \<Longrightarrow> j < length xs \<Longrightarrow> set (swap_at i j xs) = set xs"
  using mset_swap_at mset_eq_setD by blast

lemma orders_nth: "orders le K (set xs) \<Longrightarrow> i < length xs \<Longrightarrow> j < length xs \<Longrightarrow> le (xs ! i) (xs ! j) = Some (K (xs ! j) \<le> K (xs ! i))"
  by (simp add: orders_def)

lemma heap_but_swap:
  assumes h: "heap_but K pos xs" and pos: "0 < pos" "pos < length xs" and gt: "K (xs ! pos) < K (xs ! par pos)"
  shows "heap_but K (par pos) (swap_at pos (par pos) xs)"
  unfolding heap_but_def
proof (intro allI impI conjI)
  fix i assume i: "0 < i" "i < length (swap_at pos (par pos) xs)"
  let ?p = "par pos"
  have pp: "?p < pos" "?p < length xs" using pos by simp_all (use par_less [OF pos(1)] pos(2) in linarith)
  note nth = nth_swap_at [OF pos(2) pp(2)]
  have old: "i \<noteq> pos \<Longrightarrow> K (xs ! par i) \<le> K (xs ! i)" "par i = pos \<Longrightarrow> K (xs ! ?p) \<le> K (xs ! i)"
    using h i pos by (auto simp: heap_but_def)
  show "K (swap_at pos ?p xs ! par i) \<le> K (swap_at pos ?p xs ! i)" if "i \<noteq> ?p"
  proof (cases "i = pos")
    case True
    then show ?thesis using gt pp by (simp add: nth)
  next
    case False
    then show ?thesis using that old gt pp by (auto simp: nth)
  qed
  show "K (swap_at pos ?p xs ! par ?p) \<le> K (swap_at pos ?p xs ! i)" if "par i = ?p" "0 < ?p"
  proof -
    have up: "K (xs ! par ?p) \<le> K (xs ! ?p)" using h pp that(2) by (auto simp: heap_but_def)
    have ne: "par ?p \<noteq> ?p" "par ?p \<noteq> pos" using par_less [OF that(2)] pp by linarith+
    show ?thesis
    proof (cases "i = pos")
      case True
      then show ?thesis using up ne pp by (simp add: nth)
    next
      case False
      then have "K (xs ! ?p) \<le> K (xs ! i)" using old(1) that(1) by simp
      moreover have "i \<noteq> ?p" using that par_less [OF i(1)] by auto
      ultimately show ?thesis using up ne False by (auto simp: nth)
    qed
  qed
qed

lemma sift_up_correct:
  "heap_but K pos xs \<Longrightarrow> pos < length xs \<Longrightarrow> orders le K (set xs) \<Longrightarrow>
   \<exists>ys. sift_up le pos xs = Some ys \<and> heap_ok K ys \<and> mset ys = mset xs"
proof (induction le pos xs rule: sift_up.induct)
  case (1 le pos xs)
  show ?case
  proof (cases "0 < pos")
    case False
    then show ?thesis using "1.prems"(1) by (subst sift_up.simps) (simp add: heap_but_def heap_ok_def)
  next
    case True
    have p: "(pos - 1) div 2 = par pos" "(pos - Suc 0) div 2 = par pos" by (simp_all add: par_def)
    have pp: "par pos < length xs" using par_less [OF True] "1.prems"(2) by linarith
    note le = orders_nth [OF "1.prems"(3,2) pp]
    show ?thesis
    proof (cases "K (xs ! par pos) \<le> K (xs ! pos)")
      case b: True
      have "heap_ok K xs" using "1.prems"(1) b unfolding heap_but_def heap_ok_def by blast
      then show ?thesis using True b le by (subst sift_up.simps) (simp add: Let_def p)
    next
      case b: False
      have "heap_but K (par pos) (swap_at pos (par pos) xs)"
        using b by (intro heap_but_swap [OF "1.prems"(1) True "1.prems"(2)]) simp
      moreover have "orders le K (set (swap_at pos (par pos) xs))" using "1.prems"(2,3) pp by simp
      moreover have "le (xs ! pos) (xs ! par pos) = Some False" using le b by simp
      ultimately have "\<exists>ys. sift_up le (par pos) (swap_at pos (par pos) xs) = Some ys \<and> heap_ok K ys \<and>
          mset ys = mset (swap_at pos (par pos) xs)"
        using "1.IH" [OF True refl, of False] pp unfolding p by simp
      then show ?thesis using True b le pp "1.prems"(2) by (subst sift_up.simps) (simp add: Let_def p)
    qed
  qed
qed

lemma heap_push_correct:
  assumes "heap_ok K xs" "orders le K (insert x (set xs))"
  obtains ys where "heap_push le x xs = Some ys" "heap_ok K ys" "mset ys = add_mset x (mset xs)"
proof -
  have "heap_but K (length xs) (xs @ [x])"
    unfolding heap_but_def
  proof (intro allI impI conjI)
    fix i assume i: "0 < i" "i < length (xs @ [x])"
    show "K ((xs @ [x]) ! par i) \<le> K ((xs @ [x]) ! i)" if "i \<noteq> length xs"
      using that i assms(1) less_trans [OF par_less [OF i(1)], of "length xs"] by (simp add: heap_ok_def nth_append)
    show "K ((xs @ [x]) ! par (length xs)) \<le> K ((xs @ [x]) ! i)" if "par i = length xs"
      using that i par_less [OF i(1)] by simp
  qed
  from sift_up_correct [OF this, of le] assms(2) show thesis
    using that by (auto simp: heap_push_def)
qed

text \<open>Moving the hole to the smaller child.\<close>

lemma heap_hole_move:
  assumes h: "heap_hole K pos xs" and c: "c < length xs" "0 < c" "par c = pos"
    and least: "\<And>i. 0 < i \<Longrightarrow> i < length xs \<Longrightarrow> par i = pos \<Longrightarrow> K (xs ! c) \<le> K (xs ! i)"
  shows "heap_hole K c (swap_at pos c xs)"
  unfolding heap_hole_def
proof (intro allI impI conjI)
  fix i assume i: "0 < i" "i < length (swap_at pos c xs)"
  have pc: "pos < c" "pos < length xs" using c par_less [OF c(2)] by simp_all
  note nth = nth_swap_at [OF pc(2) c(1)]
  have old: "i \<noteq> pos \<Longrightarrow> par i \<noteq> pos \<Longrightarrow> K (xs ! par i) \<le> K (xs ! i)" using h i by (auto simp: heap_hole_def)
  show "K (swap_at pos c xs ! par i) \<le> K (swap_at pos c xs ! i)" if "i \<noteq> c" "par i \<noteq> c"
  proof (cases "i = pos")
    case True
    then have "0 < pos" using i by simp
    then have "K (xs ! par pos) \<le> K (xs ! c)" "par pos \<noteq> pos"
      using h c by (auto simp: heap_hole_def dest: par_less)
    then show ?thesis using True that by (auto simp: nth)
  next
    case False
    show ?thesis
    proof (cases "par i = pos")
      case True
      then show ?thesis using least [of i] i that False pc by (auto simp: nth)
    next
      case p: False
      then show ?thesis using old False that by (auto simp: nth)
    qed
  qed
  show "K (swap_at pos c xs ! par c) \<le> K (swap_at pos c xs ! i)" if "par i = c"
  proof -
    have "c < i" using par_less [OF i(1)] that by simp
    then have "K (xs ! c) \<le> K (xs ! i)" using old that pc by auto
    then show ?thesis using c pc \<open>c < i\<close> by (auto simp: nth)
  qed
qed

lemma sift_down_loop_correct:
  "heap_hole K pos xs \<Longrightarrow> pos < length xs \<Longrightarrow> orders le K (set xs) \<Longrightarrow>
   \<exists>pos' ys. sift_down_loop le pos xs = Some (pos', ys) \<and> heap_but K pos' ys \<and> pos' < length ys \<and> mset ys = mset xs"
proof (induction le pos xs rule: sift_down_loop.induct)
  case (1 le pos xs)
  note h = "1.prems"(1) and ord = "1.prems"(3)
  let ?c = "2 * pos + 1"
  consider (two) "?c + 2 \<le> length xs" | (one) "?c + 1 = length xs" | (leaf) "length xs \<le> ?c" by linarith
  then show ?case
  proof cases
    case two
    define b where "b \<longleftrightarrow> K (xs ! (?c + 1)) \<le> K (xs ! ?c)"
    define c where "c = (if b then ?c + 1 else ?c)"
    have c: "c < length xs" "0 < c" "par c = pos" using two by (auto simp: c_def)
    have le: "le (xs ! ?c) (xs ! (?c + 1)) = Some b"
      using orders_nth [OF ord, of ?c "?c + 1"] two by (simp add: b_def)
    have "K (xs ! c) \<le> K (xs ! i)" if "0 < i" "par i = pos" for i
      using par_children [OF that(2,1)] by (auto simp: c_def b_def)
    then have "heap_hole K c (swap_at pos c xs)" by (intro heap_hole_move [OF h c])
    then obtain pos' ys where r: "sift_down_loop le c (swap_at pos c xs) = Some (pos', ys)" "heap_but K pos' ys"
      "pos' < length ys" "mset ys = mset (swap_at pos c xs)"
      using "1.IH" [OF refl two le c_def] c ord "1.prems"(2) by auto
    have "sift_down_loop le pos xs = sift_down_loop le c (swap_at pos c xs)"
      using two le by (subst sift_down_loop.simps) (simp add: Let_def c_def)
    then show ?thesis using r c "1.prems"(2) by simp
  next
    case one
    have c: "?c < length xs" "0 < ?c" "par ?c = pos" using one by simp_all
    have "i = ?c" if "0 < i" "i < length xs" "par i = pos" for i using par_children [OF that(3,1)] that(2) one by auto
    then have "heap_hole K ?c (swap_at pos ?c xs)" by (intro heap_hole_move [OF h c]) auto
    moreover have "\<not> (i < length xs \<and> 0 < i \<and> par i = ?c)" for i using par_children [of i ?c] one by auto
    ultimately have "heap_but K ?c (swap_at pos ?c xs)" by (auto simp: heap_hole_def heap_but_def)
    then show ?thesis using one c "1.prems"(2) by (subst sift_down_loop.simps) (simp add: Let_def)
  next
    case leaf
    have "\<not> (i < length xs \<and> 0 < i \<and> par i = pos)" for i using par_children [of i pos] leaf by auto
    then have "heap_but K pos xs" using h by (auto simp: heap_hole_def heap_but_def)
    then show ?thesis using leaf "1.prems"(2) by (subst sift_down_loop.simps) (simp add: Let_def)
  qed
qed

lemma heap_root_least: "heap_ok K xs \<Longrightarrow> i < length xs \<Longrightarrow> K (xs ! 0) \<le> K (xs ! i)"
proof (induction i rule: less_induct)
  case (less i)
  show ?case
  proof (cases "i = 0")
    case False
    then have "par i < i" "par i < length xs" using less.prems(2) by (simp_all add: less_trans [of "par i" i])
    then have "K (xs ! 0) \<le> K (xs ! par i)" by (rule less.IH [OF _ less.prems(1)])
    also have "\<dots> \<le> K (xs ! i)" using less.prems False by (simp add: heap_ok_def)
    finally show ?thesis .
  qed simp
qed

lemma heap_pop_correct:
  assumes ok: "heap_ok K xs" and ord: "orders le K (set xs)" and ne: "xs \<noteq> []"
  obtains x ys where "heap_pop le xs = Some (Some x, ys)" "heap_ok K ys" "mset xs = add_mset x (mset ys)"
    "heap_peek xs = Some x" "\<And>y. y \<in> set xs \<Longrightarrow> K x \<le> K y"
proof -
  obtain zs z where xs: "xs = zs @ [z]" using ne by (cases xs rule: rev_cases) auto
  have least: "K (xs ! 0) \<le> K y" if "y \<in> set xs" for y
    using heap_root_least [OF ok] that by (auto simp: in_set_conv_nth)
  have peek: "heap_peek xs = Some (xs ! 0)" using ne by (simp add: heap_peek_def)
  show thesis
  proof (cases "zs = []")
    case True
    then have "heap_pop le xs = Some (Some z, [])" by (simp add: heap_pop_def xs)
    then show thesis using that [of z "[]"] True least peek by (simp add: xs heap_ok_def)
  next
    case False
    let ?ys = "zs[0 := z]"
    have nth: "zs ! i = xs ! i" if "i < length zs" for i using that by (simp add: xs nth_append)
    have "heap_hole K 0 ?ys"
      unfolding heap_hole_def
    proof (intro allI impI conjI)
      fix i assume i: "0 < i" "i < length ?ys"
      have "K (xs ! par i) \<le> K (xs ! i)" using ok i by (simp add: heap_ok_def xs)
      moreover have "par i < length zs" using par_less [OF i(1)] i(2) by simp
      ultimately show "K (?ys ! par i) \<le> K (?ys ! i)" if "par i \<noteq> 0" using that i nth by simp
    qed simp
    moreover have zs: "zs = zs ! 0 # tl zs" "0 < length zs" using False by (cases zs; simp)+
    moreover have "set ?ys \<subseteq> set xs" using set_update_subset_insert [of zs 0 z] by (auto simp: xs)
    then have ord': "orders le K (set ?ys)" using ord by (auto simp: orders_def)
    ultimately obtain pos ys where d: "sift_down_loop le 0 ?ys = Some (pos, ys)" "heap_but K pos ys"
      "pos < length ys" "mset ys = mset ?ys"
      using sift_down_loop_correct [of K 0 ?ys le] by auto
    have "orders le K (set ys)" using ord' mset_eq_setD [OF d(4)] by simp
    from sift_up_correct [OF d(2,3) this] obtain ys' where
      u: "sift_up le pos ys = Some ys'" "heap_ok K ys'" "mset ys' = mset ys" by blast
    have "heap_pop le xs = Some (Some (xs ! 0), ys')"
      using d(1) u(1) False zs(2) by (simp add: heap_pop_def sift_down_to_bottom_def xs nth_append)
    moreover have "mset xs = add_mset (xs ! 0) (mset ys')"
    proof -
      have "mset ?ys = add_mset z (mset (tl zs))" by (subst zs(1)) simp
      moreover have "mset zs = add_mset (zs ! 0) (mset (tl zs))" by (subst zs(1)) simp
      ultimately show ?thesis using u(3) d(4) zs(2) nth [of 0] by (simp add: xs)
    qed
    ultimately show thesis using that u(2) peek least by blast
  qed
qed

end
