(* ===== verification/Compaction.thy ===== *)
theory Compaction
  imports Compaction_Writer Merge_Spec Binary_Heap
begin

text \<open>
  Compaction, \<^verbatim>\<open>src/compaction/mod.rs\<close>: the k-way merge of all cached tables into one.  The heap is
  the binary heap of the standard library over \<^verbatim>\<open>Reverse<HeapNode>\<close>.  That heap compares with \<^verbatim>\<open><=\<close>,
  which for \<^verbatim>\<open>HeapNode\<close> comes from \<^verbatim>\<open>partial_cmp\<close> and therefore looks at the key only.
\<close>

section \<open>Definitions\<close>

record HeapNode =
  hn_record :: Record
  hn_table_idx :: nat

definition heap_node_partial_cmp :: "HeapNode \<Rightarrow> HeapNode \<Rightarrow> ordering option" where
  "heap_node_partial_cmp self other = cmp_key (hn_record self) (hn_record other)"

definition heap_node_cmp :: "HeapNode \<Rightarrow> HeapNode \<Rightarrow> ordering option" where
  "heap_node_cmp self other = do {
     ord \<leftarrow> cmp_key (hn_record self) (hn_record other);
     case ord of
       Equal \<Rightarrow> Some (cmp (hn_table_idx self) (hn_table_idx other))
     | _ \<Rightarrow> Some ord
   }"

definition heap_node_new :: "Record \<Rightarrow> nat \<Rightarrow> HeapNode" where
  "heap_node_new rec table_idx = \<lparr>hn_record = rec, hn_table_idx = table_idx\<rparr>"

text \<open>\<^verbatim>\<open>Reverse(a) <= Reverse(b)\<close> is \<^verbatim>\<open>b <= a\<close>, that is \<^verbatim>\<open>b.partial_cmp(a)\<close> is \<^verbatim>\<open>Less\<close> or \<^verbatim>\<open>Equal\<close>.\<close>

definition reverse_le :: "HeapNode \<Rightarrow> HeapNode \<Rightarrow> bool option" where
  "reverse_le a b = do { c \<leftarrow> heap_node_partial_cmp b a; Some (c \<noteq> Greater) }"

primrec tables_to_iterators :: "(nat \<Rightarrow> bytes) \<Rightarrow> SSTable list \<Rightarrow> (SSTableIterator list \<times> SSTable list) option" where
  "tables_to_iterators spoiled [] = Some ([], [])"
| "tables_to_iterators spoiled (table # tables) = do {
     (it, table) \<leftarrow> sstable_iterator_new spoiled table;
     (iters, tables) \<leftarrow> tables_to_iterators spoiled tables;
     Some (it # iters, table # tables)
   }"

text \<open>The loop that hydrates the heap, from table \<open>i\<close> on.\<close>

primrec hydrate :: "nat \<Rightarrow> SSTableIterator list \<Rightarrow> HeapNode list \<Rightarrow> (SSTableIterator list \<times> HeapNode list) option" where
  "hydrate i [] hp = Some ([], hp)"
| "hydrate i (sstable # table_iters) hp = do {
     (r, sstable) \<leftarrow> sstable_next sstable;
     hp \<leftarrow> (case r of None \<Rightarrow> Some hp | Some rec \<Rightarrow> heap_push reverse_le (heap_node_new rec i) hp);
     (table_iters, hp) \<leftarrow> hydrate (i + 1) table_iters hp;
     Some (sstable # table_iters, hp)
   }"

text \<open>\<^verbatim>\<open>if let Some(record) = table_iters[table_idx].next() { heap.push(..) }\<close>\<close>

definition push_next :: "nat \<Rightarrow> SSTableIterator list \<Rightarrow> HeapNode list \<Rightarrow> (SSTableIterator list \<times> HeapNode list) option" where
  "push_next table_idx table_iters hp = do {
     it \<leftarrow> vec_get table_iters table_idx;
     (r, it) \<leftarrow> sstable_next it;
     let table_iters = table_iters[table_idx := it];
     case r of
       None \<Rightarrow> Some (table_iters, hp)
     | Some rec \<Rightarrow> do {
         hp \<leftarrow> heap_push reverse_le (heap_node_new rec table_idx) hp;
         Some (table_iters, hp)
       }
   }"

text \<open>The inner loop: nodes with the key just taken are replaced by their successors.\<close>

partial_function (option) clear_equal ::
  "bytes \<Rightarrow> SSTableIterator list \<Rightarrow> HeapNode list \<Rightarrow> (SSTableIterator list \<times> HeapNode list) option" where
  "clear_equal smallest_key table_iters hp =
     (case heap_peek hp of
        None \<Rightarrow> Some (table_iters, hp)
      | Some inner_ref \<Rightarrow> do {
          key \<leftarrow> record_key (hn_record inner_ref);
          if key \<noteq> smallest_key then Some (table_iters, hp)
          else do {
            let table_idx = hn_table_idx inner_ref;
            (popped, hp) \<leftarrow> heap_pop reverse_le hp;
            _ \<leftarrow> popped;
            (table_iters, hp) \<leftarrow> push_next table_idx table_iters hp;
            clear_equal smallest_key table_iters hp
          }
        })"

text \<open>The main loop; the result of \<^verbatim>\<open>writer.push\<close> is ignored.\<close>

partial_function (option) merge_loop ::
  "hasher \<Rightarrow> writer \<Rightarrow> (nat \<Rightarrow> nat \<Rightarrow> nat) \<Rightarrow> SSTableIterator list \<Rightarrow> HeapNode list \<Rightarrow> CompactionWriter \<Rightarrow> CompactionWriter option" where
  "merge_loop H W grow table_iters hp cw =
     (if hp = [] then Some cw
      else do {
        (popped, hp) \<leftarrow> heap_pop reverse_le hp;
        case popped of
          None \<Rightarrow> Some cw
        | Some smallest \<Rightarrow> do {
            smallest_key \<leftarrow> record_key (hn_record smallest);
            (table_iters, hp) \<leftarrow> clear_equal smallest_key table_iters hp;
            cw \<leftarrow> (if record_type (hn_record smallest) = Data
                   then do { (_, cw) \<leftarrow> compaction_push H W grow (hn_record smallest) cw; Some cw }
                   else Some cw);
            (table_iters, hp) \<leftarrow> push_next (hn_table_idx smallest) table_iters hp;
            merge_loop H W grow table_iters hp cw
          }
      })"

text \<open>
  The environment of a compaction: the generated file name, the outcomes of creating and of opening the
  new file, the growth of vectors, the operating system's writes, and the parameters of the filter.
\<close>

record CompactionEnv =
  ce_filename :: string
  ce_created :: "io_error + unit"
  ce_open :: "bytes \<Rightarrow> io_error + bytes"
  ce_write :: writer
  ce_grow :: "nat \<Rightarrow> nat \<Rightarrow> nat"
  ce_hash :: hasher
  ce_ln2_hashes :: "u64 \<Rightarrow> nat \<Rightarrow> u64"
  ce_spoiled :: "nat \<Rightarrow> bytes"

definition run_compaction :: "CompactionEnv \<Rightarrow> SSTableIterator list \<Rightarrow> (SSTable \<times> string \<times> bytes) option" where
  "run_compaction env table_iters = do {
     cw \<leftarrow> (case compaction_writer_new (ce_ln2_hashes env) (ce_write env) (ce_filename env) (ce_created env) of
               Inl _ \<Rightarrow> None | Inr cw \<Rightarrow> Some cw);
     (table_iters, hp) \<leftarrow> hydrate 0 table_iters [];
     cw \<leftarrow> merge_loop (ce_hash env) (ce_write env) (ce_grow env) table_iters hp cw;
     (r, fd) \<leftarrow> compaction_finish (ce_write env) cw;
     new_table_path \<leftarrow> (case r of Inl _ \<Rightarrow> None | Inr path \<Rightarrow> Some path);
     r \<leftarrow> sstable_from_path (ce_open env (f_data fd));
     sstable \<leftarrow> (case r of Inl _ \<Rightarrow> None | Inr t \<Rightarrow> Some t);
     Some (sstable, new_table_path, f_data fd)
   }"

section \<open>The heap of nodes as a priority queue\<close>

locale min_queue =
  fixes inv :: "'h \<Rightarrow> bool"
    and content :: "'h \<Rightarrow> 'a multiset"
    and key :: "'a \<Rightarrow> 'k::linorder"
    and good :: "'a \<Rightarrow> bool"
    and push :: "'a \<Rightarrow> 'h \<Rightarrow> 'h option"
    and pop :: "'h \<Rightarrow> ('a option \<times> 'h) option"
    and peek :: "'h \<Rightarrow> 'a option"
  assumes push_law: "inv h \<Longrightarrow> good x \<Longrightarrow> \<exists>h'. push x h = Some h' \<and> inv h' \<and> content h' = add_mset x (content h)"
    and pop_law: "inv h \<Longrightarrow> content h \<noteq> {#} \<Longrightarrow> \<exists>x h'. pop h = Some (Some x, h') \<and> peek h = Some x \<and> inv h' \<and>
      content h = add_mset x (content h') \<and> (\<forall>y \<in># content h. key x \<le> key y)"
    and peek_empty: "inv h \<Longrightarrow> content h = {#} \<Longrightarrow> peek h = None"

definition node_good :: "HeapNode \<Rightarrow> bool" where
  "node_good n \<longleftrightarrow> record_key (hn_record n) \<noteq> None"

definition hn_key :: "HeapNode \<Rightarrow> bytes" where
  "hn_key n = (case record_key (hn_record n) of Some k \<Rightarrow> k | None \<Rightarrow> [])"

definition nodes_ok :: "HeapNode list \<Rightarrow> bool" where
  "nodes_ok hp \<longleftrightarrow> heap_ok hn_key hp \<and> (\<forall>n \<in> set hp. node_good n)"

lemma reverse_le_orders: "\<forall>n \<in> S. node_good n \<Longrightarrow> orders reverse_le hn_key S"
  unfolding orders_def
proof (intro ballI)
  fix a b assume "\<forall>n \<in> S. node_good n" "a \<in> S" "b \<in> S"
  then have "node_good a" "node_good b" by blast+
  then obtain ka kb where "record_key (hn_record a) = Some ka" "record_key (hn_record b) = Some kb"
    by (auto simp: node_good_def)
  then show "reverse_le a b = Some (hn_key b \<le> hn_key a)"
    by (simp add: reverse_le_def heap_node_partial_cmp_def cmp_key_def hn_key_def not_less)
qed

interpretation node_heap: min_queue nodes_ok mset hn_key node_good "heap_push reverse_le" "heap_pop reverse_le" heap_peek
proof
  fix h :: "HeapNode list" and x :: HeapNode
  assume h: "nodes_ok h"
  show "\<exists>h'. heap_push reverse_le x h = Some h' \<and> nodes_ok h' \<and> mset h' = add_mset x (mset h)" if x: "node_good x"
  proof -
    have "orders reverse_le hn_key (insert x (set h))" using h x by (intro reverse_le_orders) (simp add: nodes_ok_def)
    then obtain h' where h': "heap_push reverse_le x h = Some h'" "heap_ok hn_key h'" "mset h' = add_mset x (mset h)"
      using heap_push_correct [of hn_key h reverse_le x] h unfolding nodes_ok_def by blast
    have "set h' = insert x (set h)" by (metis h'(3) set_mset_add_mset_insert set_mset_mset)
    then show ?thesis using h' h x by (auto simp: nodes_ok_def)
  qed
  show "\<exists>x h'. heap_pop reverse_le h = Some (Some x, h') \<and> heap_peek h = Some x \<and> nodes_ok h' \<and>
      mset h = add_mset x (mset h') \<and> (\<forall>y \<in># mset h. hn_key x \<le> hn_key y)" if ne: "mset h \<noteq> {#}"
  proof -
    have "orders reverse_le hn_key (set h)" "h \<noteq> []" "heap_ok hn_key h"
      using h ne by (auto simp: nodes_ok_def intro: reverse_le_orders)
    then obtain x h' where h': "heap_pop reverse_le h = Some (Some x, h')" "heap_ok hn_key h'"
      "mset h = add_mset x (mset h')" "heap_peek h = Some x" "\<And>y. y \<in> set h \<Longrightarrow> hn_key x \<le> hn_key y"
      using heap_pop_correct [of hn_key h reverse_le] by blast
    have "set h' \<subseteq> set h" by (metis h'(3) set_mset_add_mset_insert set_mset_mset subset_insertI)
    then show ?thesis using h' h by (auto simp: nodes_ok_def)
  qed
  show "heap_peek h = None" if "mset h = {#}" using that by (simp add: heap_peek_def)
qed

end
