(* ===== verification/Compaction_Correct.thy ===== *)
theory Compaction_Correct
  imports Compaction
begin

text \<open>
  The compaction loops refine the merge relation: whatever the heap does with equal keys, a run ends,
  never panics, and writes a list of entries that the merge relation allows.
\<close>

section \<open>The state of a merge\<close>

definition head_node :: "nat \<Rightarrow> entry list \<Rightarrow> HeapNode multiset" where
  "head_node i L = (case L of [] \<Rightarrow> {#} | (k, p) # _ \<Rightarrow> {#heap_node_new (rec_of k p) i#})"

definition heads :: "entry list list \<Rightarrow> HeapNode multiset" where
  "heads P = (\<Sum>i<length P. head_node i (P ! i))"

text \<open>
  \<open>merging P its hp\<close>: table \<open>i\<close> still has the entries \<open>P ! i\<close> to deliver, the first of them is in the
  heap and the iterator stands behind it.
\<close>

definition entries_fit :: "entry list \<Rightarrow> bool" where
  "entries_fit L \<longleftrightarrow> (\<forall>(k, p) \<in> set L. rec_fits k p)"

definition merging :: "entry list list \<Rightarrow> SSTableIterator list \<Rightarrow> HeapNode list \<Rightarrow> bool" where
  "merging P its hp \<longleftrightarrow> nodes_ok hp \<and> mset hp = heads P \<and> length its = length P \<and>
     (\<forall>i < length P. P ! i \<noteq> [] \<longrightarrow> yields sstable_next (its ! i) (recs_of (tl (P ! i)))) \<and>
     (\<forall>L \<in> set P. entries_fit L)"

lemma head_node_simps [simp]:
  "head_node i [] = {#}" "head_node i ((k, p) # L) = {#heap_node_new (rec_of k p) i#}"
  by (simp_all add: head_node_def)

lemma heads_update:
  assumes "i < length P"
  shows "heads (P[i := L]) = head_node i L + heads (P[i := []])"
proof -
  have fin: "finite {..<length P}" "i \<in> {..<length P}" using assms by simp_all
  have "(\<Sum>j<length P. head_node j (P[i := X] ! j)) = head_node i X + (\<Sum>j \<in> {..<length P} - {i}. head_node j (P ! j))" for X
    using assms by (subst sum.remove [OF fin]) (auto intro!: sum.cong)
  then show ?thesis by (simp add: heads_def)
qed

lemma heads_split: "i < length P \<Longrightarrow> heads P = head_node i (P ! i) + heads (P[i := []])"
  using heads_update [of i P "P ! i"] by simp

lemma in_head_node: "n \<in># head_node i L \<longleftrightarrow> (\<exists>k p L'. L = (k, p) # L' \<and> n = heap_node_new (rec_of k p) i)"
proof (cases L)
  case (Cons x L')
  then show ?thesis by (cases x) auto
qed simp

lemma in_heads: "n \<in># heads P \<longleftrightarrow> (\<exists>i k p L. i < length P \<and> P ! i = (k, p) # L \<and> n = heap_node_new (rec_of k p) i)"
proof -
  have "n \<in># heads P \<longleftrightarrow> (\<exists>i < length P. n \<in># head_node i (P ! i))"
    by (auto simp: heads_def set_mset_sum)
  also have "\<dots> \<longleftrightarrow> (\<exists>i k p L. i < length P \<and> P ! i = (k, p) # L \<and> n = heap_node_new (rec_of k p) i)"
    by (simp add: in_head_node)
  finally show ?thesis .
qed

lemma heads_empty: "heads P = {#} \<longleftrightarrow> (\<forall>L \<in> set P. L = [])"
proof
  assume e: "heads P = {#}"
  show "\<forall>L \<in> set P. L = []"
  proof
    fix L assume "L \<in> set P"
    then obtain i where i: "i < length P" "L = P ! i" by (auto simp: in_set_conv_nth)
    show "L = []"
    proof (cases L)
      case (Cons x L')
      obtain k p where "x = (k, p)" by (cases x)
      then have "P ! i = (k, p) # L'" using i Cons by simp
      then have "heap_node_new (rec_of k p) i \<in># heads P" using i(1) unfolding in_heads by blast
      then show ?thesis using e by simp
    qed
  qed
next
  assume nil: "\<forall>L \<in> set P. L = []"
  have "head_node i (P ! i) = {#}" if "i < length P" for i using bspec [OF nil nth_mem [OF that]] by simp
  then show "heads P = {#}" by (simp add: heads_def)
qed

lemma hn_simps [simp]:
  "hn_record (heap_node_new r i) = r" "hn_table_idx (heap_node_new r i) = i"
  by (simp_all add: heap_node_new_def)

lemma rec_of_key: "rec_fits k p \<Longrightarrow> record_key (rec_of k p) = Some k"
  by (rule record_key_repr [OF rec_of_repr])

lemma node_of_entry: "rec_fits k p \<Longrightarrow> node_good (heap_node_new (rec_of k p) i) \<and> hn_key (heap_node_new (rec_of k p) i) = k"
  by (simp add: node_good_def hn_key_def rec_of_key)

section \<open>Steps\<close>

lemma merging_push_next:
  assumes m: "merging P its hp" and i: "i < length P" "P ! i = []"
    and y: "yields sstable_next (its ! i) (recs_of L)" and fit: "entries_fit L"
  shows "\<exists>its' hp'. push_next i its hp = Some (its', hp') \<and> merging (P[i := L]) its' hp' \<and>
    (\<forall>j. j \<noteq> i \<longrightarrow> its' ! j = its ! j)"
proof -
  have len: "length its = length P" using m by (simp add: merging_def)
  have P: "P[i := []] = P" using i(2) by (metis list_update_id)
  have hd: "heads (P[i := L]) = head_node i L + heads P" using heads_update [OF i(1)] P by simp
  have fits: "\<forall>L' \<in> set (P[i := L]). entries_fit L'"
    using m fit set_update_subset_insert [of P i L] by (auto simp: merging_def)
  show ?thesis
  proof (cases L)
    case Nil
    then obtain it where s: "sstable_next (its ! i) = Some (None, it)" using y by (auto elim: yields_NilE)
    have "merging P (its[i := it]) hp" using m i by (auto simp: merging_def nth_list_update)
    then show ?thesis using s i len P Nil by (simp add: push_next_def)
  next
    case (Cons x L')
    obtain k p where x: "x = (k, p)" by (cases x)
    from y obtain it where s: "sstable_next (its ! i) = Some (Some (rec_of k p), it)" "yields sstable_next it (recs_of L')"
      by (auto simp: Cons x elim: yields_ConsE)
    have "rec_fits k p" using fit by (simp add: Cons x entries_fit_def)
    then have good: "node_good (heap_node_new (rec_of k p) i)" using node_of_entry by blast
    have "nodes_ok hp" using m by (simp add: merging_def)
    from node_heap.push_law [OF this good] obtain hp' where
      h: "heap_push reverse_le (heap_node_new (rec_of k p) i) hp = Some hp'" "nodes_ok hp'"
        "mset hp' = add_mset (heap_node_new (rec_of k p) i) (mset hp)" by blast
    have "\<forall>j < length P. P[i := L] ! j \<noteq> [] \<longrightarrow> yields sstable_next (its[i := it] ! j) (recs_of (tl (P[i := L] ! j)))"
      using m s(2) i(1) len by (auto simp: merging_def nth_list_update Cons)
    then have "merging (P[i := L]) (its[i := it]) hp'"
      using m h hd fits len by (simp add: merging_def Cons x)
    then show ?thesis using s h i len by (auto simp: push_next_def)
  qed
qed

lemma merging_pop:
  assumes m: "merging P its hp" and ne: "heads P \<noteq> {#}"
  obtains i k p L hp' where "heap_pop reverse_le hp = Some (Some (heap_node_new (rec_of k p) i), hp')"
    "heap_peek hp = Some (heap_node_new (rec_of k p) i)" "i < length P" "P ! i = (k, p) # L"
    "merging (P[i := []]) its hp'" "yields sstable_next (its ! i) (recs_of L)" "heads_ge k P"
    "rec_fits k p" "entries_fit L"
proof -
  have ok: "nodes_ok hp" and ms: "mset hp = heads P" and fits: "\<forall>L \<in> set P. entries_fit L"
    using m by (simp_all add: merging_def)
  from node_heap.pop_law [OF ok] ne ms obtain n hp' where
    h: "heap_pop reverse_le hp = Some (Some n, hp')" "heap_peek hp = Some n" "nodes_ok hp'"
      "heads P = add_mset n (mset hp')" "\<forall>y \<in># heads P. hn_key n \<le> hn_key y" by auto
  have "n \<in># heads P" by (simp add: h(4))
  then obtain i k p L where i: "i < length P" "P ! i = (k, p) # L" "n = heap_node_new (rec_of k p) i"
    by (auto simp: in_heads)
  have mem: "P ! i \<in> set P" using i(1) by simp
  then have fl: "rec_fits k p" "entries_fit L" using bspec [OF fits mem] by (auto simp: i(2) entries_fit_def)
  have "mset hp' = heads (P[i := []])" using h(4) heads_split [OF i(1)] i by simp
  moreover have "\<forall>L \<in> set (P[i := []]). entries_fit L"
  proof
    fix L' assume "L' \<in> set (P[i := []])"
    then have "L' = [] \<or> L' \<in> set P" using set_update_subset_insert [of P i "[]"] by blast
    then show "entries_fit L'" using fits by (auto simp: entries_fit_def)
  qed
  moreover have "\<forall>j < length P. P[i := []] ! j \<noteq> [] \<longrightarrow> yields sstable_next (its ! j) (recs_of (tl (P[i := []] ! j)))"
    using m i(1) by (simp add: merging_def nth_list_update)
  ultimately have m': "merging (P[i := []]) its hp'" using m h(3) by (simp add: merging_def)
  have y: "yields sstable_next (its ! i) (recs_of L)" using m i by (force simp: merging_def)
  have ge: "heads_ge k P"
    unfolding heads_ge_def
  proof (intro ballI impI)
    fix L' assume L': "L' \<in> set P" "L' \<noteq> []"
    then obtain j where j: "j < length P" "L' = P ! j" by (auto simp: in_set_conv_nth)
    obtain k' p' L'' where c: "L' = (k', p') # L''" using L'(2) by (cases L') auto
    then have "heap_node_new (rec_of k' p') j \<in># heads P" using j by (auto simp: in_heads)
    moreover have "rec_fits k' p'" using fits L'(1) by (auto simp: c entries_fit_def)
    ultimately show "k \<le> fst (hd L')" using h(5) i(3) fl(1) by (auto simp: c node_of_entry)
  qed
  show thesis by (rule that [OF h(1)[unfolded i(3)] h(2)[unfolded i(3)] i(1,2) m' y ge fl])
qed

section \<open>The inner loop\<close>

lemma weight_update: "i < length P \<Longrightarrow> P ! i = x # L \<Longrightarrow> weight (\<lambda>_. 1) (P[i := L]) < weight (\<lambda>_. 1) P"
proof (induction P arbitrary: i)
  case (Cons L' P)
  then show ?case by (cases i) simp_all
qed simp

lemma nth_drop_key_update:
  assumes "i < length P" "P ! i = (k, p) # L" "drop_key k L = L"
  shows "map (drop_key k) (P[i := L]) = map (drop_key k) P"
  by (rule nth_equalityI) (use assms in \<open>auto simp: nth_list_update\<close>)

lemma clear_equal_correct:
  assumes "merging P its hp" "heads_ge k P" "\<forall>L \<in> set P. sorted_table L"
  shows "\<exists>its' hp'. clear_equal k its hp = Some (its', hp') \<and> merging (map (drop_key k) P) its' hp' \<and>
    (\<forall>j < length P. P ! j = [] \<longrightarrow> its' ! j = its ! j)"
  using assms
proof (induction "weight (\<lambda>_. 1) P" arbitrary: P its hp rule: less_induct)
  case less
  note m = less.prems(1) and s = less.prems(3)
  show ?case
  proof (cases "heads P = {#}")
    case True
    then have nil: "\<forall>L \<in> set P. L = []" by (simp add: heads_empty)
    have "nodes_ok hp" "mset hp = heads P" using m by (simp_all add: merging_def)
    then have "heap_peek hp = None" using True by (intro node_heap.peek_empty) simp_all
    then have "clear_equal k its hp = Some (its, hp)" by (subst clear_equal.simps) simp
    moreover have "map (drop_key k) P = P" using nil by (intro map_idI) auto
    ultimately show ?thesis using m by auto
  next
    case False
    obtain i k' p L hp' where t: "heap_pop reverse_le hp = Some (Some (heap_node_new (rec_of k' p) i), hp')"
      "heap_peek hp = Some (heap_node_new (rec_of k' p) i)" "i < length P" "P ! i = (k', p) # L"
      "merging (P[i := []]) its hp'" "yields sstable_next (its ! i) (recs_of L)" "heads_ge k' P"
      "rec_fits k' p" "entries_fit L"
      by (rule merging_pop [OF m False])
    have mem: "(k', p) # L \<in> set P" using t(3,4) nth_mem by fastforce
    have sL: "sorted_table L" "\<forall>x \<in> set L. k' < fst x" using bspec [OF s mem] by (simp_all add: sorted_table_Cons)
    show ?thesis
    proof (cases "k' = k")
      case neq: False
      have "k < k'" using heads_geD [OF less.prems(2) mem] neq by simp
      then have "map (drop_key k) P = P"
        using s heads_geD [OF t(7)] by (intro map_idI drop_key_id) (auto intro: less_le_trans)
      moreover have "clear_equal k its hp = Some (its, hp)"
        using t(2,8) neq by (subst clear_equal.simps) (simp add: rec_of_key)
      ultimately show ?thesis using m by auto
    next
      case eq: True
      let ?Q = "P[i := L]"
      obtain its1 hp1 where n: "push_next i its hp' = Some (its1, hp1)" "merging ?Q its1 hp1"
        "\<forall>j. j \<noteq> i \<longrightarrow> its1 ! j = its ! j"
        using merging_push_next [OF t(5) _ _ t(6,9)] t(3) by auto
      have dL: "drop_key k L = L" using sL by (intro drop_key_id) (auto simp: eq)
      have same: "map (drop_key k) ?Q = map (drop_key k) P" by (rule nth_drop_key_update [OF t(3) _ dL]) (simp add: t(4) eq)
      have sub: "set ?Q \<subseteq> insert L (set P)" by (rule set_update_subset_insert)
      have hQ: "heads_ge k ?Q" unfolding heads_ge_def
      proof (intro ballI impI)
        fix L' assume "L' \<in> set ?Q" "L' \<noteq> []"
        then consider "L' = L" "L \<noteq> []" | "L' \<in> set P" "L' \<noteq> []" using sub by blast
        then show "k \<le> fst (hd L')" using sL(2) eq heads_geD [OF less.prems(2)] by cases (auto intro: less_imp_le)
      qed
      have sQ: "\<forall>L' \<in> set ?Q. sorted_table L'" using sub s sL(1) by blast
      have "weight (\<lambda>_. 1) ?Q < weight (\<lambda>_. 1) P"
        by (rule weight_update [OF t(3,4)])
      from less.hyps [OF this n(2) hQ sQ] obtain its' hp'' where
        r: "clear_equal k its1 hp1 = Some (its', hp'')" "merging (map (drop_key k) P) its' hp''"
          "\<forall>j < length P. ?Q ! j = [] \<longrightarrow> its' ! j = its1 ! j" unfolding same by auto
      have "clear_equal k its hp = Some (its', hp'')"
        using t(1,2,8) eq n(1) r(1) by (subst clear_equal.simps) (simp add: rec_of_key)
      moreover have "its' ! j = its ! j" if "j < length P" "P ! j = []" for j
        using that r(3) n(3) t(4) by (cases "j = i") auto
      ultimately show ?thesis using r(2) by blast
    qed
  qed
qed

section \<open>Seeding the heap\<close>

lemma merging_empty: "length its = n \<Longrightarrow> merging (replicate n []) its []"
  by (simp add: merging_def nodes_ok_def heap_ok_def entries_fit_def heads_def)

lemma hydrate_correct:
  "merging (Pd @ replicate (length rest) []) (done_its @ rest) hp \<Longrightarrow> length done_its = length Pd \<Longrightarrow>
   list_all2 (\<lambda>it L. yields sstable_next it (recs_of L)) rest Ls \<Longrightarrow> \<forall>L \<in> set Ls. entries_fit L \<Longrightarrow>
   \<exists>rest' hp'. hydrate (length Pd) rest hp = Some (rest', hp') \<and> merging (Pd @ Ls) (done_its @ rest') hp'"
proof (induction rest arbitrary: Pd done_its hp Ls)
  case Nil
  then show ?case by simp
next
  case (Cons it rest)
  obtain L Ls' where Ls: "Ls = L # Ls'" "yields sstable_next it (recs_of L)"
    "list_all2 (\<lambda>it L. yields sstable_next it (recs_of L)) rest Ls'"
    using Cons.prems(3) by (auto simp: list_all2_Cons1)
  let ?i = "length Pd" and ?P = "Pd @ [] # replicate (length rest) []"
  have m: "merging ?P (done_its @ it # rest) hp" using Cons.prems(1) by simp
  have nth: "(done_its @ it # rest) ! ?i = it" using Cons.prems(2) by (metis nth_append_length)
  have fit: "entries_fit L" "\<forall>L \<in> set Ls'. entries_fit L" using Cons.prems(4) by (simp_all add: Ls(1))
  obtain its' hp' where n: "push_next ?i (done_its @ it # rest) hp = Some (its', hp')" "merging (?P[?i := L]) its' hp'"
    using merging_push_next [OF m _ _ _ fit(1), of ?i] Ls(2) nth by auto
  from n(1) Cons.prems(2) nth obtain r it' where st: "sstable_next it = Some (r, it')" "its' = done_its @ it' # rest"
    and hp': "(case r of None \<Rightarrow> Some hp | Some rec \<Rightarrow> heap_push reverse_le (heap_node_new rec ?i) hp) = Some hp'"
    by (auto simp: push_next_def bind_eq_Some_conv list_update_append Let_def split: option.splits)
  have "merging ((Pd @ [L]) @ replicate (length rest) []) ((done_its @ [it']) @ rest) hp'" using n(2) st(2) by simp
  from Cons.IH [OF this _ Ls(3) fit(2)] Cons.prems(2) obtain rest' hp'' where
    "hydrate (Suc ?i) rest hp' = Some (rest', hp'')" "merging ((Pd @ [L]) @ Ls') ((done_its @ [it']) @ rest') hp''" by auto
  then show ?case using st(1) hp' by (auto simp: Ls(1))
qed

section \<open>The main loop\<close>

lemma compaction_push_filename: "compaction_push H W grow r cw = Some (res, cw') \<Longrightarrow> cw_filename cw' = cw_filename cw"
  by (auto simp: compaction_push_def bind_eq_Some_conv Let_def split: if_splits sum.splits prod.splits)

lemma merge_push:
  assumes "writer_holds H W kps cw" "rec_fits k p" "room_for kps k p"
  shows "\<exists>cw'. (if record_type (rec_of k p) = Data
      then do { (_, cw) \<leftarrow> compaction_push H W grow (rec_of k p) cw; Some cw } else Some cw) = Some cw' \<and>
    writer_holds H W (kps @ emit k p []) cw' \<and> cw_filename cw' = cw_filename cw"
proof (cases p)
  case None
  then show ?thesis using assms(1) by (simp add: record_type_rec_of emit_def)
next
  case (Some v)
  from compaction_push_holds [OF assms(1) rec_of_repr [OF assms(2)] assms(3), of grow] obtain cw' where
    "compaction_push H W grow (rec_of k p) cw = Some (Inr (), cw')" "writer_holds H W (kps @ [(k, p)]) cw'" by blast
  then show ?thesis using compaction_push_filename Some by (auto simp: record_type_rec_of emit_def)
qed

text \<open>One round of the loop, given what its parts do.\<close>

lemma merge_round:
  assumes "heap_pop reverse_le hp = Some (Some n, hp')" "record_key (hn_record n) = Some k"
    and "clear_equal k its hp' = Some (its1, hp1)"
    and cw: "(if record_type (hn_record n) = Data
         then do { (_, cw) \<leftarrow> compaction_push H W grow (hn_record n) cw; Some cw } else Some cw) = Some cw1"
    and "push_next (hn_table_idx n) its1 hp1 = Some (its2, hp2)"
  shows "merge_loop H W grow its hp cw = merge_loop H W grow its2 hp2 cw1"
proof -
  have "hp \<noteq> []" using assms(1) by (auto simp: heap_pop_def)
  show ?thesis
  proof (cases "record_type (hn_record n) = Data")
    case True
    then obtain res where "compaction_push H W grow (hn_record n) cw = Some (res, cw1)"
      using cw by (auto simp: bind_eq_Some_conv)
    then show ?thesis using True assms \<open>hp \<noteq> []\<close> by (subst merge_loop.simps) auto
  next
    case False
    then have "cw1 = cw" using cw by simp
    then show ?thesis using False assms \<open>hp \<noteq> []\<close> by (subst merge_loop.simps) auto
  qed
qed

lemma merge_loop_correct:
  assumes "merging P its hp" "\<forall>L \<in> set P. sorted_table L" "writer_holds H W kps cw"
    "key_bytes kps + weight (\<lambda>(k, p). Suc (length k)) P < 2 ^ 32"
    "length (enc_blobs kps) + weight (\<lambda>(k, p). length (enc_blob k p)) P < 2 ^ 61"
  shows "\<exists>cw' out. merge_loop H W grow its hp cw = Some cw' \<and> merges P out \<and> writer_holds H W (kps @ out) cw' \<and>
    cw_filename cw' = cw_filename cw"
  using assms
proof (induction "weight (\<lambda>_. 1) P" arbitrary: P its hp kps cw rule: less_induct)
  case less
  note m = less.prems(1) and s = less.prems(2)
  have ms: "mset hp = heads P" using m by (simp add: merging_def)
  show ?case
  proof (cases "heads P = {#}")
    case True
    then have "merges P []" by (intro merges.finished) (simp add: heads_empty)
    moreover have "merge_loop H W grow its hp cw = Some cw" using True ms by (subst merge_loop.simps) simp
    ultimately show ?thesis using less.prems(3) by (metis append_Nil2)
  next
    case False
    obtain i k p L hp' where t: "heap_pop reverse_le hp = Some (Some (heap_node_new (rec_of k p) i), hp')"
      "heap_peek hp = Some (heap_node_new (rec_of k p) i)" "i < length P" "P ! i = (k, p) # L"
      "merging (P[i := []]) its hp'" "yields sstable_next (its ! i) (recs_of L)" "heads_ge k P"
      "rec_fits k p" "entries_fit L"
      by (rule merging_pop [OF m False])
    have sub: "set (P[i := []]) \<subseteq> insert [] (set P)" by (rule set_update_subset_insert)
    have h0: "heads_ge k (P[i := []])" using t(7) sub unfolding heads_ge_def by blast
    have s0: "\<forall>L \<in> set (P[i := []]). sorted_table L" using s sub by (auto simp: sorted_table_def)
    obtain its1 hp1 where c: "clear_equal k its hp' = Some (its1, hp1)"
      "merging (map (drop_key k) (P[i := []])) its1 hp1" "its1 ! i = its ! i"
      using clear_equal_correct [OF t(5) h0 s0] t(3) by auto
    have room: "room_for kps k p"
      using less.prems(4,5) round_weight [OF t(3,4), of "\<lambda>(k, p). Suc (length k)"]
        round_weight [OF t(3,4), of "\<lambda>(k, p). length (enc_blob k p)"] by (simp add: room_for_def)
    from merge_push [OF less.prems(3) t(8) room, of grow] obtain cw1 where
      w: "(if record_type (rec_of k p) = Data
         then do { (_, cw) \<leftarrow> compaction_push H W grow (rec_of k p) cw; Some cw } else Some cw) = Some cw1"
        "writer_holds H W (kps @ emit k p []) cw1" "cw_filename cw1 = cw_filename cw" by blast
    let ?Q = "map (drop_key k) P"
    have Q: "(map (drop_key k) (P[i := []]))[i := L] = ?Q" using t(3,4) by (intro nth_equalityI) (auto simp: nth_list_update)
    from merging_push_next [OF c(2) _ _ _ t(9), of i] t(3,6) c(3) obtain its2 hp2 where
      n: "push_next i its1 hp1 = Some (its2, hp2)" "merging ?Q its2 hp2" unfolding Q by auto
    have loop: "merge_loop H W grow its hp cw = merge_loop H W grow its2 hp2 cw1"
      by (rule merge_round [where n = "heap_node_new (rec_of k p) i", unfolded hn_simps,
            OF t(1) rec_of_key [OF t(8)] c(1) w(1) n(1)])
    have less1: "weight (\<lambda>_. 1) ?Q < weight (\<lambda>_. 1) P" using round_weight [OF t(3,4), of "\<lambda>_. 1"] by simp
    have b: "key_bytes (kps @ emit k p []) + weight (\<lambda>(k, p). Suc (length k)) ?Q < 2 ^ 32"
      "length (enc_blobs (kps @ emit k p [])) + weight (\<lambda>(k, p). length (enc_blob k p)) ?Q < 2 ^ 61"
      using less.prems(4,5) round_weight [OF t(3,4), of "\<lambda>(k, p). Suc (length k)"]
        round_weight [OF t(3,4), of "\<lambda>(k, p). length (enc_blob k p)"] by (cases p; simp add: emit_def)+
    from less.hyps [OF less1 n(2) sorted_tables_drop [OF s] w(2) b] obtain cw' out where
      r: "merge_loop H W grow its2 hp2 cw1 = Some cw'" "merges ?Q out"
        "writer_holds H W ((kps @ emit k p []) @ out) cw'" "cw_filename cw' = cw_filename cw1" by blast
    have "kps @ emit k p out = (kps @ emit k p []) @ out" by (simp add: emit_def split: option.split)
    then show ?thesis using r w(3) loop merges.round [OF t(3,4,7) r(2)] by auto
  qed
qed

section \<open>From tables to a table\<close>

lemma sstable_iterator_new_indexed:
  assumes tab: "indexed H kps t"
  shows "\<exists>it t'. sstable_iterator_new spoiled t = Some (it, t') \<and> yields sstable_next it (recs_of kps) \<and> indexed H kps t'"
proof -
  from tab obtain A bf where op: "opened kps A bf t" and ok: "table_ok kps A bf" by (auto simp: indexed_def)
  define n where "n = length (enc_blobs kps)"
  have sm: "length (sstable_bytes kps A bf) < 2 ^ 63" using ok by (simp add: table_ok_def)
  then have n63: "n < 2 ^ 63" by (simp add: length_sstable_bytes n_def)
  have e: "si_data_block_end (ss_index t) = of_nat (9 + n)" and data: "f_data (ss_fd t) = sstable_bytes kps A bf"
    using op by (simp_all add: opened_def n_def del: of_nat_add)
  have u: "unat (of_nat (9 + n) :: u64) = 9 + n" using n63 by (intro unat_of_nat_small) simp
  obtain post where d: "f_data (ss_fd t) = file_header @ enc_blobs kps @ post"
    unfolding data by (simp add: sstable_bytes_def Let_def)
  let ?fd = "(ss_fd t)\<lparr>f_pos := 9\<rparr>" and ?it = "\<lparr>it_buffer = enc_blobs kps, it_offset = 0\<rparr>"
  have r: "file_read_exact ?fd n = (Inr (enc_blobs kps), ?fd\<lparr>f_pos := 9 + n\<rparr>)"
    using read_exact_at [of ?fd file_header "enc_blobs kps" post n] d by (simp add: n_def)
  have "sstable_iterator_new spoiled t = Some (?it, t\<lparr>ss_fd := ?fd\<lparr>f_pos := 9 + n\<rparr>\<rparr>)"
    using r u by (simp add: sstable_iterator_new_def e HEADER_SIZE_def checked_sub_def file_seek_def del: of_nat_add)
  moreover have "yields sstable_next ?it (recs_of kps)"
    by (rule sstable_iter.yields_enc_blobs [where pre = "[]"]) (use n63 in \<open>simp_all add: n_def\<close>)
  moreover have "indexed H kps (t\<lparr>ss_fd := ?fd\<lparr>f_pos := 9 + n\<rparr>\<rparr>)" using tab by simp
  ultimately show ?thesis by blast
qed

lemma tables_to_iterators_indexed:
  "list_all2 (indexed H) Ls ts \<Longrightarrow>
   \<exists>its ts'. tables_to_iterators spoiled ts = Some (its, ts') \<and> list_all2 (indexed H) Ls ts' \<and>
     list_all2 (\<lambda>it L. yields sstable_next it (recs_of L)) its Ls"
proof (induction rule: list_all2_induct)
  case (Cons L Ls t ts)
  from sstable_iterator_new_indexed [OF Cons.hyps(1), of spoiled] Cons.IH show ?case by fastforce
qed simp

definition compaction_calm :: "CompactionEnv \<Rightarrow> bool" where
  "compaction_calm env \<longleftrightarrow> full_writes (ce_write env) \<and> ce_created env = Inr () \<and> (\<forall>bs. ce_open env bs = Inr bs)"

text \<open>The end of a run: whatever the loop has written becomes the new table.\<close>

lemma run_compaction_finish:
  assumes env: "compaction_calm env"
    and cw: "compaction_writer_new (ce_ln2_hashes env) (ce_write env) (ce_filename env) (Inr ()) = Inr cw"
    and h: "hydrate 0 its [] = Some (its', hp)"
    and l: "merge_loop (ce_hash env) (ce_write env) (ce_grow env) its' hp cw = Some cw'"
    and out: "writer_holds (ce_hash env) (ce_write env) out cw'" "cw_filename cw' = ce_filename env"
      "flushable out" "distinct (map fst out)"
  obtains t where "run_compaction env its = Some (t, ce_filename env, f_data (ss_fd t))" "indexed (ce_hash env) out t"
proof -
  let ?H = "ce_hash env" and ?W = "ce_write env"
  have cr: "ce_created env = Inr ()" and op: "\<And>bs. ce_open env bs = Inr bs" using env by (simp_all add: compaction_calm_def)
  have fo: "branching_ok out" "key_bytes out < 2 ^ 32" "length (enc_blobs out) < 2 ^ 61"
    using out(3) by (simp_all add: flushable_def)
  from compaction_finish_bytes [OF out(1) fo] obtain fd where
    f: "compaction_finish ?W cw' = Some (Inr (ce_filename env), fd)"
      "f_data fd = sstable_bytes out (tr_arena (cw_trie cw')) (cw_bloom_filter cw')" using out(2) by auto
  have "indexes ?H out (cw_trie cw') (cw_bloom_filter cw')" using out(1) by (simp add: writer_holds_def)
  from open_indexed [OF out(4,3) this] obtain t where
    t: "sstable_from_fd (file_open (f_data fd)) = Some (Inr t)" "indexed ?H out t" "f_data (ss_fd t) = f_data fd"
    unfolding f(2) by blast
  have "run_compaction env its = Some (t, ce_filename env, f_data (ss_fd t))"
    using cw cr op h l f(1) t(1,3) by (simp add: run_compaction_def sstable_from_path_def)
  then show thesis using t(2) by (rule that)
qed

lemma run_compaction_correct:
  assumes env: "compaction_calm env" and its: "list_all2 (\<lambda>it L. yields sstable_next it (recs_of L)) its Ls"
    and sorted: "\<forall>L \<in> set Ls. sorted_table L" and fl: "flushable (concat Ls)"
  obtains t out where "run_compaction env its = Some (t, ce_filename env, f_data (ss_fd t))" "merges Ls out"
    "indexed (ce_hash env) out t"
proof -
  let ?H = "ce_hash env" and ?W = "ce_write env" and ?kb = "\<lambda>(k, p :: bytes option). Suc (length k)"
    and ?eb = "\<lambda>(k, p). length (enc_blob k p)"
  have W: "full_writes ?W" using env by (simp add: compaction_calm_def)
  have b: "weight ?kb Ls < 2 ^ 32" "weight ?eb Ls < 2 ^ 61"
    using fl by (simp_all add: flushable_def weight_def key_bytes_weight enc_blobs_weight)
  have fits: "\<forall>L \<in> set Ls. entries_fit L" using flushable_fits [OF fl] by (auto simp: entries_fit_def)
  obtain cw where cw: "compaction_writer_new (ce_ln2_hashes env) ?W (ce_filename env) (Inr ()) = Inr cw"
    "writer_holds ?H ?W [] cw" "cw_filename cw = ce_filename env"
    by (rule compaction_writer_new_holds [OF W])
  have len: "length its = length Ls" using its by (rule list_all2_lengthD)
  have m0: "merging ([] @ replicate (length its) []) ([] @ its) []" using len by (simp add: merging_empty)
  from hydrate_correct [OF m0 _ its fits] obtain its' hp where
    h: "hydrate 0 its [] = Some (its', hp)" "merging Ls its' hp" by auto
  from merge_loop_correct [OF h(2) sorted cw(2), of "ce_grow env"] b obtain cw' out where
    l: "merge_loop ?H ?W (ce_grow env) its' hp cw = Some cw'" "merges Ls out" "writer_holds ?H ?W out cw'"
      "cw_filename cw' = ce_filename env" using cw(3) by auto
  have "flushable out"
    using merges_weight [OF l(2)] merges_set [OF l(2)] by (intro flushable_mono [OF fl]) (auto simp: weight_def)
  moreover have "distinct (map fst out)"
    using merges_sorted [OF l(2) sorted] by (simp add: sorted_table_def strict_sorted_iff)
  ultimately obtain t where "run_compaction env its = Some (t, ce_filename env, f_data (ss_fd t))" "indexed ?H out t"
    using run_compaction_finish [OF env cw(1) h(1) l(1,3,4)] by blast
  then show thesis using l(2) that by blast
qed

section \<open>Equal keys\<close>

text \<open>
  What the heap does with the smallest instance of a tie: the newer table (index 0) delivers a smaller
  key first, and its second record meets the older table's record already waiting in the heap.
\<close>

lemma tie_prefers_waiting:
  assumes y: "yields sstable_next i0 (recs_of [(k1, p1), (k2, p2)])" "yields sstable_next i1 (recs_of [(k2, q2)])"
    and lt: "k1 < k2" and fits: "rec_fits k1 p1" "rec_fits k2 p2" "rec_fits k2 q2"
    and cw: "writer_holds H W [] cw" and room: "room_for [] k1 p1" "room_for (emit k1 p1 []) k2 q2"
  shows "\<exists>its hp cw'. hydrate 0 [i0, i1] [] = Some (its, hp) \<and> merge_loop H W grow its hp cw = Some cw' \<and>
    writer_holds H W (emit k1 p1 (emit k2 q2 [])) cw' \<and> cw_filename cw' = cw_filename cw"
proof -
  from y(1) obtain j0 j0' j0'' where n0: "sstable_next i0 = Some (Some (rec_of k1 p1), j0)"
    "sstable_next j0 = Some (Some (rec_of k2 p2), j0')" "sstable_next j0' = Some (None, j0'')"
    by (auto elim!: yields_ConsE yields_NilE)
  from y(2) obtain j1 j1' where n1: "sstable_next i1 = Some (Some (rec_of k2 q2), j1)" "sstable_next j1 = Some (None, j1')"
    by (auto elim!: yields_ConsE yields_NilE)
  let ?A = "heap_node_new (rec_of k1 p1) 0" and ?B = "heap_node_new (rec_of k2 q2) 1" and ?C = "heap_node_new (rec_of k2 p2) 0"
  note key = rec_of_key [OF fits(1)] rec_of_key [OF fits(2)] rec_of_key [OF fits(3)]
  have le: "reverse_le ?B ?A = Some True" "reverse_le ?C ?B = Some True"
    using lt by (simp_all add: reverse_le_def heap_node_partial_cmp_def cmp_key_def key)
  have push: "heap_push reverse_le ?A [] = Some [?A]" "heap_push reverse_le ?B [?A] = Some [?A, ?B]"
    "heap_push reverse_le ?C [?B] = Some [?B, ?C]"
    using le by (simp_all add: heap_push_def sift_up.simps)
  have pop: "heap_pop reverse_le [x] = Some (Some x, [])" "heap_pop reverse_le [x, z] = Some (Some x, [z])" for x z
    by (simp_all add: heap_pop_def sift_down_to_bottom_def sift_down_loop.simps sift_up.simps)
  from merge_push [OF cw fits(1) room(1), of grow] obtain cw1 where
    w1: "(if record_type (rec_of k1 p1) = Data
       then do { (_, cw) \<leftarrow> compaction_push H W grow (rec_of k1 p1) cw; Some cw } else Some cw) = Some cw1"
      "writer_holds H W (emit k1 p1 []) cw1" "cw_filename cw1 = cw_filename cw" by auto
  from merge_push [OF w1(2) fits(3) room(2), of grow] obtain cw2 where
    w2: "(if record_type (rec_of k2 q2) = Data
       then do { (_, cw) \<leftarrow> compaction_push H W grow (rec_of k2 q2) cw1; Some cw } else Some cw1) = Some cw2"
      "writer_holds H W (emit k1 p1 [] @ emit k2 q2 []) cw2" "cw_filename cw2 = cw_filename cw1" by auto
  have hyd: "hydrate 0 [i0, i1] [] = Some ([j0, j1], [?A, ?B])" using n0(1) n1(1) push by simp
  have c1: "clear_equal k1 [j0, j1] [?B] = Some ([j0, j1], [?B])"
    using lt by (subst clear_equal.simps) (auto simp: heap_peek_def key)
  have p1': "push_next 0 [j0, j1] [?B] = Some ([j0', j1], [?B, ?C])" using n0(2) push by (simp add: push_next_def)
  have c2': "clear_equal k2 [j0'', j1] [] = Some ([j0'', j1], [])" by (subst clear_equal.simps) (simp add: heap_peek_def)
  have c2: "clear_equal k2 [j0', j1] [?C] = Some ([j0'', j1], [])"
    using n0(3) by (subst clear_equal.simps) (simp add: heap_peek_def key pop push_next_def c2')
  have p2': "push_next 1 [j0'', j1] [] = Some ([j0'', j1'], [])" using n1(2) by (simp add: push_next_def)
  have "merge_loop H W grow [j0', j1] [?B, ?C] cw1 = merge_loop H W grow [j0'', j1'] [] cw2"
    by (rule merge_round [where n = ?B, unfolded hn_simps, OF pop(2) key(3) c2 w2(1) p2'])
  moreover have "merge_loop H W grow [j0, j1] [?A, ?B] cw = merge_loop H W grow [j0', j1] [?B, ?C] cw1"
    by (rule merge_round [where n = ?A, unfolded hn_simps, OF pop(2) key(1) c1 w1(1) p1'])
  moreover have "merge_loop H W grow [j0'', j1'] [] cw2 = Some cw2" by (subst merge_loop.simps) simp
  moreover have "emit k1 p1 (emit k2 q2 []) = emit k1 p1 [] @ emit k2 q2 []" by (simp add: emit_def split: option.split)
  ultimately show ?thesis using hyd w1(3) w2(2,3) by auto
qed

end
