(* ===== verification/Store_Props.thy ===== *)
theory Store_Props
  imports Compaction_Correct Sst_Cache
begin

text \<open>
  The properties of writing SSTables: flushing a memtable, and compaction.
\<close>

section \<open>Flush\<close>

lemma example_blobs:
  "enc_blob [1] (Some [2]) = [0, 4, 1, 1, 1, 2]" "enc_blob [3] (Some [4]) = [0, 4, 1, 3, 1, 4]"
  "enc_blob [3] (Some [5]) = [0, 4, 1, 3, 1, 5]" "rec_head [1] [2] = [0, 4, 1, 1, 1]"
  "rec_head [3] [4] = [0, 4, 1, 3, 1]" "rec_head [3] [5] = [0, 4, 1, 3, 1]"
  by code_simp+

text \<open>
  C29: flush and lookup agree.  Flushing a table within its invariant to a new file succeeds, the file
  opens as an SSTable, and a search in it answers every key as the memtable's contents do: the value,
  the tombstone, or not found.
\<close>

theorem flush_roundtrip:
  assumes "mt_inv table" "flushable (mt_entries table)" "full_writes W" "full_reads R"
  shows "\<exists>fd t. flush_to_disk f H W table file_create = Some (Inr (), fd) \<and>
    sstable_from_path (Inr (f_data fd)) = Some (Inr t) \<and>
    (\<forall>k. \<exists>t'. sstable_search H R k t = Some (case mt_view table k of
       None \<Rightarrow> Inl DiskRecordNotFound | Some None \<Rightarrow> Inl TombstoneFound | Some (Some v) \<Rightarrow> Inr v, t'))"
proof -
  from assms(1) obtain T es where wf: "mt_wf table T es" by (auto simp: mt_inv_def)
  have fl: "flushable es" using assms(2) by (simp add: mt_wf_entries [OF wf])
  obtain fd t where t: "write_sstable f H W table file_create = Some (Inr (), fd)"
    "sstable_from_fd (file_open (f_data fd)) = Some (Inr t)" "indexed H (tree_entries T es) t"
    by (rule flush_indexed [OF wf assms(3) fl])
  have "\<exists>t'. sstable_search H R k t = Some (block_answer (mt_view table k), t')" for k
    using sstable_search_indexed [OF t(3) assms(4), of k] mt_wf_tree_entries(3) [OF wf] by metis
  then show ?thesis using t by (auto simp: flush_to_disk_def sstable_from_path_def block_answer_def)
qed

theorem flush_roundtrip_witness:
  "\<exists>table fd t t1 t2. mt_view table = [[1] \<mapsto> Some [2]] \<and>
     flush_to_disk (\<lambda>_ _. 3) (\<lambda>s k. s) (\<lambda>_ b. Inr (length b)) table file_create = Some (Inr (), fd) \<and>
     sstable_from_path (Inr (f_data fd)) = Some (Inr t) \<and>
     sstable_search (\<lambda>s k. s) (\<lambda>_ n. Inr n) [1] t = Some (Inr [2], t1) \<and>
     sstable_search (\<lambda>s k. s) (\<lambda>_ n. Inr n) [9] t = Some (Inl DiskRecordNotFound, t2)"
proof -
  have e: "enc_blob [1] (Some [2]) = [0, 4, 1, 1, 1, 2]" "rec_head [1] [2] = [0, 4, 1, 1, 1]" by code_simp+
  then have fits: "rec_fits [1] (Some [2])" by (simp add: rec_fits_def)
  obtain table where t0: "mt_inv table" "mt_view table = [[1] \<mapsto> Some [2]]" by (rule one_entry_table [OF fits])
  have t: "mt_inv table" "mt_entries table = [([1], Some [2])]" using t0 mt_entries_single by simp_all
  have fl: "flushable (mt_entries table)"
    unfolding flushable_def t(2) by (intro conjI branching_small) (simp_all add: heads_ok_def e)
  have W: "full_writes (\<lambda>_ b. Inr (length b))" "full_reads (\<lambda>_ n. Inr n)" by (simp_all add: full_writes_def full_reads_def)
  have v: "mt_view table = [[1] \<mapsto> Some [2]]" by (simp add: mt_view_def t(2))
  from flush_roundtrip [OF t(1) fl W, of "\<lambda>_ _. 3" "\<lambda>s k. s"] obtain fd tb where
    r: "flush_to_disk (\<lambda>_ _. 3) (\<lambda>s k. s) (\<lambda>_ b. Inr (length b)) table file_create = Some (Inr (), fd)"
      "sstable_from_path (Inr (f_data fd)) = Some (Inr tb)"
    and s: "\<And>k. \<exists>t'. sstable_search (\<lambda>s k. s) (\<lambda>_ n. Inr n) k tb = Some (case mt_view table k of
       None \<Rightarrow> Inl DiskRecordNotFound | Some None \<Rightarrow> Inl TombstoneFound | Some (Some v) \<Rightarrow> Inr v, t')" by auto
  show ?thesis using v r s [of "[1]"] s [of "[9]"] by auto
qed

text \<open>A system that accepts no byte, which \<^verbatim>\<open>write\<close> reports as \<^verbatim>\<open>Ok(0)\<close>.\<close>

definition stuck_writer :: writer where
  "stuck_writer = (\<lambda>_ _. Inr 0)"

lemma stuck_write: "file_write stuck_writer fd buf = (Inr 0, fd)"
  by (simp add: file_write_def stuck_writer_def Let_def)

lemma stuck_write_then: "write_then stuck_writer fd buf k = k fd"
  by (simp add: write_then_def stuck_write)

definition stuck_holds :: "hasher \<Rightarrow> entry list \<Rightarrow> FlushState \<Rightarrow> bool" where
  "stuck_holds H kps st \<longleftrightarrow> fs_fd st = file_create \<and> fs_disk_size st = 9 + length (enc_blobs kps) \<and>
     indexes H kps (fs_trie st) (fs_bloom_filter st)"

interpretation stuck: sst_builder "stuck_holds H" "flush_record H stuck_writer" for H
proof
  fix kps st r k p
  assume st: "stuck_holds H kps st" and r: "rec_repr r k p" and room: "room_for kps k p"
  define n where "n = 9 + length (enc_blobs kps)"
  have ix: "indexes H kps (fs_trie st) (fs_bloom_filter st)" and rm: "key_bytes kps + length k < 2 ^ 32"
    "9 + length (enc_blobs kps) < 2 ^ 63" using st room by (simp_all add: stuck_holds_def room_for_def)
  obtain t' bf' where t': "trie_insert k (of_nat n) (fs_trie st) = Some t'"
    "bloom_insert H k (fs_bloom_filter st) = Some bf'" "indexes H (kps @ [(k, p)]) t' bf'"
    unfolding n_def by (rule indexes_step [OF ix rm, of p])
  have "n + length (enc_blob k p) < 2 ^ 64" using room by (simp add: room_for_def n_def)
  then have u: "usize_add n (length (enc_blob k p)) = Some (n + length (enc_blob k p))" by simp
  show "\<exists>s'. flush_record H stuck_writer r st = Some (Inr (), s') \<and> stuck_holds H (kps @ [(k, p)]) s'"
    using t' record_key_repr [OF r] u st r
    by (simp add: flush_record_def flush_node_def node_key_def node_copy_record_def record_copy_record_def
        new_from_record_def stuck_holds_def rec_repr_def n_def stuck_write Let_def del: of_nat_add)
qed

text \<open>
  C30: short writes are not noticed.  Even if the operating system accepts none of the bytes, which
  \<^verbatim>\<open>write\<close> reports by its result and not by an error, the flush of every table succeeds, the table's log
  is deleted, and the file that should hold the data is empty and cannot be opened.
\<close>

theorem short_write_loses_table:
  assumes "mt_inv table" "flushable (mt_entries table)"
  shows "flush_memtable_inner f H stuck_writer remove table file_create =
      Some (remove (wal_filename (mt_wal table)), file_create, Some (wal_filename (mt_wal table))) \<and>
    sstable_from_path (Inr (f_data file_create)) = Some (Inl (IOError UnexpectedEof))"
proof -
  from assms(1) obtain T es where wf: "mt_wf table T es" by (auto simp: mt_inv_def)
  let ?kps = "tree_entries T es" and ?n = "length (mt_arena table)"
  have fl: "flushable ?kps" using assms(2) by (simp add: mt_wf_entries [OF wf] flushable_tree_entries [OF wf])
  then have s: "branching_ok ?kps" "key_bytes ?kps < 2 ^ 32" "length (enc_blobs ?kps) < 2 ^ 61" by (simp_all add: flushable_def)
  have n: "?n < 2 ^ 58" using length_le_key_bytes [of ?kps] s(2) tree_entries_length [OF wf] by simp
  let ?st = "\<lparr>fs_fd = file_create, fs_disk_size = 9, fs_trie = trie_new ?n, fs_bloom_filter = bloom_new f ?n\<rparr>"
  have "stuck_holds H [] ?st" using n by (simp add: stuck_holds_def indexes_new)
  from stuck.push_all_holds [OF this mt_wf_tree_entries(1) [OF wf]] s obtain st' where
    "push_all (flush_record H stuck_writer) (map (\<lambda>i. nd_record (mt_arena table ! i)) (labels T)) ?st = Some (Inr (), st')"
    and st': "stuck_holds H ?kps st'" by auto
  then have fl': "inorder_flush H stuck_writer table (mt_root_node table) ?st = Some (Inr (), st')"
    using inorder_flush_rep [of table None "mt_root_node table" T H stuck_writer ?st] wf by (simp add: mt_wf_def tree_of_def)
  have ix: "indexes H ?kps (fs_trie st') (fs_bloom_filter st')" and d: "fs_disk_size st' = 9 + length (enc_blobs ?kps)"
    and fd: "fs_fd st' = file_create" using st' by (simp_all add: stuck_holds_def)
  from table_blocks [OF ix s] obtain t b where
    "trie_serialize (fs_trie st') = Some t" "bloom_serialize (fs_bloom_filter st') = Some b"
    "usize_add (fs_disk_size st') (length t) = Some (fs_disk_size st' + length t)" unfolding d by blast
  then have "write_sstable f H stuck_writer table file_create = Some (Inr (), file_create)"
    using fl' fd by (simp add: write_sstable_def stuck_write_then Let_def HEADER_SIZE_def encode_footer_bytes)
  then show ?thesis
    by (simp add: flush_memtable_inner_def flush_to_disk_def sstable_from_path_def sstable_from_fd_def
        validate_buffer_and_get_version_def file_read_exact_def file_open_def Let_def)
qed

theorem short_write_loses_table_witness:
  "\<exists>table. mt_view table = [[1] \<mapsto> Some [2]] \<and>
     (\<exists>path. flush_memtable_inner (\<lambda>_ _. 1) (\<lambda>_ _. 0) stuck_writer (\<lambda>_. Inr ()) table file_create = Some (Inr (), file_create, Some path))"
proof -
  have fits: "rec_fits [1] (Some [2])" by (simp add: rec_fits_def example_blobs)
  obtain table where t: "mt_inv table" "mt_view table = [[1] \<mapsto> Some [2]]" by (rule one_entry_table [OF fits])
  have "flushable (mt_entries table)"
    unfolding flushable_def mt_entries_single [OF t] by (intro conjI branching_small) (simp_all add: heads_ok_def example_blobs)
  from short_write_loses_table [OF t(1) this, of "\<lambda>_ _. 1" "\<lambda>_ _. 0" "\<lambda>_. Inr ()"] t(2) show ?thesis by blast
qed

section \<open>Compaction\<close>

text \<open>
  C31: compaction always ends with a table.  For any number of cached tables with sorted contents the
  merge terminates without a panic, and the new file opens as a table whose contents are a merge of
  the old ones: strictly sorted by key, without tombstones, every entry taken from one of the tables.
\<close>

theorem compaction_terminates:
  assumes "cache_holds (ce_hash env) Ls c" "\<forall>L \<in> set Ls. sorted_table L" "flushable (concat Ls)" "compaction_calm env"
  shows "\<exists>its ts t out. tables_to_iterators (ce_spoiled env) (clone_tables c) = Some (its, ts) \<and>
    run_compaction env its = Some (t, ce_filename env, f_data (ss_fd t)) \<and> indexed (ce_hash env) out t \<and>
    merges Ls out \<and> sorted_table out \<and> set out \<subseteq> set (concat Ls) \<and> (\<forall>k. (k, None) \<notin> set out)"
proof -
  have "list_all2 (indexed (ce_hash env)) Ls (clone_tables c)"
    using assms(1) by (simp add: cache_holds_def clone_tables_def)
  from tables_to_iterators_indexed [OF this] obtain its ts where
    its: "tables_to_iterators (ce_spoiled env) (clone_tables c) = Some (its, ts)"
      "list_all2 (\<lambda>it L. yields sstable_next it (recs_of L)) its Ls" by blast
  obtain t out where t: "run_compaction env its = Some (t, ce_filename env, f_data (ss_fd t))" "merges Ls out"
    "indexed (ce_hash env) out t"
    by (rule run_compaction_correct [OF assms(4) its(2) assms(2,3)])
  then show ?thesis
    using its(1) merges_sorted [OF t(2) assms(2)] merges_set [OF t(2)] merges_data [OF t(2)] by auto
qed

lemma two_tables:
  assumes "flushable L" "flushable M" "distinct (map fst L)" "distinct (map fst M)"
  obtains c where "cache_holds H [L, M] c"
proof -
  from indexed_exists [OF assms(1,3), of H] indexed_exists [OF assms(2,4), of H] obtain t u where
    "indexed H L t" "indexed H M u" by blast
  then show thesis using that [of "\<lparr>sc_cache = [t, u], sc_compaction_rate = 2\<rparr>"] by (simp add: cache_holds_def)
qed

definition example_env :: CompactionEnv where
  "example_env = \<lparr>ce_filename = ''lsmlite.7.sstable'', ce_created = Inr (), ce_open = Inr,
     ce_write = (\<lambda>_ b. Inr (length b)), ce_grow = (\<lambda>c n. max (2 * c) n), ce_hash = (\<lambda>s k. s), ce_ln2_hashes = (\<lambda>_ _. 7), ce_spoiled = (\<lambda>n. [])\<rparr>"

lemma example_env_calm: "compaction_calm example_env" "ce_hash example_env = (\<lambda>s k. s)" "ce_filename example_env = ''lsmlite.7.sstable''"
  by (simp_all add: example_env_def compaction_calm_def full_writes_def)

lemma example_flushable:
  "flushable [([1], Some [2]), ([3], Some [4])]" "flushable [([3], Some [5])]"
  "flushable [([1], Some [2]), ([3], Some [4]), ([3], Some [5])]"
  unfolding flushable_def by (intro conjI branching_small; simp add: heads_ok_def example_blobs)+

theorem compaction_terminates_witness:
  "\<exists>c its ts t. cache_holds (\<lambda>s k. s) [[([1], Some [2]), ([3], Some [4])], [([3], Some [5])]] c \<and>
     tables_to_iterators (ce_spoiled example_env) (clone_tables c) = Some (its, ts) \<and>
     run_compaction example_env its = Some (t, ''lsmlite.7.sstable'', f_data (ss_fd t))"
proof -
  obtain c where c: "cache_holds (ce_hash example_env) [[([1], Some [2]), ([3], Some [4])], [([3], Some [5])]] c"
    by (rule two_tables [OF example_flushable(1,2)]) simp_all
  have "\<exists>its ts t out. tables_to_iterators (ce_spoiled example_env) (clone_tables c) = Some (its, ts) \<and>
      run_compaction example_env its = Some (t, ce_filename example_env, f_data (ss_fd t)) \<and> indexed (ce_hash example_env) out t \<and>
      merges [[([1], Some [2]), ([3], Some [4])], [([3], Some [5])]] out \<and> sorted_table out \<and>
      set out \<subseteq> set (concat [[([1], Some [2]), ([3], Some [4])], [([3], Some [5])]]) \<and> (\<forall>k. (k, None) \<notin> set out)"
    by (rule compaction_terminates [OF c])
      (simp_all add: sorted_table_def example_flushable example_env_calm)
  then show ?thesis using c by (auto simp: example_env_calm)
qed

text \<open>
  What readers see after compaction.  Once the cache has been replaced by the compacted table, a key
  that no table knew is still not found, and for every other key the answer is the one of an entry
  that some table held: the value, or not found for a tombstone.  So a key held by one table only, or
  with the same payload in all of them, is answered as before.
\<close>

lemma compaction_lookup:
  assumes "cache_holds (ce_hash env) Ls c" "\<forall>L \<in> set Ls. sorted_table L" "flushable (concat Ls)" "compaction_calm env"
    and "full_reads R" "tables_to_iterators (ce_spoiled env) (clone_tables c) = Some (its, ts)"
  shows "\<exists>t. run_compaction env its = Some (t, ce_filename env, f_data (ss_fd t)) \<and>
    (\<forall>k. \<exists>e c'. cache_search (ce_hash env) R k (replace_with_compact_table t c) =
        Some (case e of Some (Some v) \<Rightarrow> Inr v | _ \<Rightarrow> Inl DiskRecordNotFound, c') \<and>
      (if newest Ls k = None then e = None else \<exists>L \<in> set Ls. \<exists>p. map_of L k = Some p \<and> e = Some p))"
proof -
  let ?H = "ce_hash env"
  have "list_all2 (indexed ?H) Ls (clone_tables c)" using assms(1) by (simp add: cache_holds_def clone_tables_def)
  from tables_to_iterators_indexed [OF this, of "ce_spoiled env"] assms(6)
  have its: "list_all2 (\<lambda>it L. yields sstable_next it (recs_of L)) its Ls" by auto
  obtain t out where t: "run_compaction env its = Some (t, ce_filename env, f_data (ss_fd t))" "merges Ls out"
    "indexed ?H out t"
    by (rule run_compaction_correct [OF assms(4) its assms(2,3)])
  have "\<exists>e c'. cache_search ?H R k (replace_with_compact_table t c) = Some (cache_answer e, c') \<and>
      (if newest Ls k = None then e = None else \<exists>L \<in> set Ls. \<exists>p. map_of L k = Some p \<and> e = Some p)" for k
  proof -
    obtain c' where c': "cache_search ?H R k (replace_with_compact_table t c) = Some (cache_answer (newest [out] k), c')"
      using cache_search_newest [OF cache_replace_holds [OF t(3)] assms(5), of k c] by blast
    have new: "newest [out] k = map_of out k" by (simp split: option.split)
    show ?thesis
    proof (cases "newest Ls k = None")
      case True
      then show ?thesis using c' new merges_lookup [OF t(2) assms(2), of k] by (auto simp: newest_None)
    next
      case False
      then obtain L p where p: "L \<in> set Ls" "map_of L k = Some p" "map_of out k = live p"
        using merges_lookup [OF t(2) assms(2), of k] unfolding newest_None by (simp only: if_False) blast
      have "cache_answer (live p) = cache_answer (Some p)" by (cases p) simp_all
      then show ?thesis using c' new p False by (intro exI [of _ "Some p"]) auto
    qed
  qed
  then show ?thesis using t(1) unfolding cache_answer_def by blast
qed

text \<open>
  C32: compaction can bring back an overwritten value.  When the newer table (first in the cache) holds a
  smaller key before the key \<open>k2\<close> and the older table starts with \<open>k2\<close>, the compacted table holds the
  older table's entry for \<open>k2\<close>: the heap compares keys only, so the older record, which waits in the
  heap already, leaves it first, and the newer one is dropped as a duplicate.
\<close>

theorem compaction_older_value_wins:
  assumes "yields sstable_next i0 (recs_of [(k1, p1), (k2, p2)])" "yields sstable_next i1 (recs_of [(k2, q2)])"
    and "k1 < k2" "flushable [(k1, p1), (k2, p2), (k2, q2)]" "compaction_calm env"
  shows "\<exists>t. run_compaction env [i0, i1] = Some (t, ce_filename env, f_data (ss_fd t)) \<and>
    indexed (ce_hash env) (emit k1 p1 (emit k2 q2 [])) t"
proof -
  let ?H = "ce_hash env" and ?W = "ce_write env"
  have W: "full_writes ?W" using assms(5) by (simp add: compaction_calm_def)
  obtain cw where cw: "compaction_writer_new (ce_ln2_hashes env) ?W (ce_filename env) (Inr ()) = Inr cw"
    "writer_holds ?H ?W [] cw" "cw_filename cw = ce_filename env"
    by (rule compaction_writer_new_holds [OF W])
  have fits: "rec_fits k1 p1" "rec_fits k2 p2" "rec_fits k2 q2" using flushable_fits [OF assms(4)] by simp_all
  have b: "key_bytes [(k1, p1), (k2, p2), (k2, q2)] < 2 ^ 32" "length (enc_blobs [(k1, p1), (k2, p2), (k2, q2)]) < 2 ^ 61"
    using assms(4) by (simp_all only: flushable_def)
  have room: "room_for [] k1 p1" "room_for (emit k1 p1 []) k2 q2"
    using b by (cases p1; simp add: room_for_def emit_def)+
  from tie_prefers_waiting [OF assms(1-3) fits cw(2) room, of "ce_grow env"] obtain its hp cw' where
    l: "hydrate 0 [i0, i1] [] = Some (its, hp)" "merge_loop ?H ?W (ce_grow env) its hp cw = Some cw'"
      "writer_holds ?H ?W (emit k1 p1 (emit k2 q2 [])) cw'" "cw_filename cw' = cw_filename cw" by blast
  have "flushable (emit k1 p1 (emit k2 q2 []))"
    by (rule flushable_mono [OF assms(4)]) (auto simp: emit_def split: option.splits)
  moreover have "distinct (map fst (emit k1 p1 (emit k2 q2 [])))" using assms(3) by (auto simp: emit_def split: option.split)
  ultimately show ?thesis
    using run_compaction_finish [OF assms(5) cw(1) l(1-3)] l(4) cw(3) by metis
qed

theorem compaction_older_value_wins_witness:
  "\<exists>t t'. run_compaction example_env [\<lparr>it_buffer = enc_blobs [([1], Some [2]), ([3], Some [4])], it_offset = 0\<rparr>,
       \<lparr>it_buffer = enc_blobs [([3], Some [5])], it_offset = 0\<rparr>] = Some (t, ''lsmlite.7.sstable'', f_data (ss_fd t)) \<and>
     sstable_search (\<lambda>s k. s) (\<lambda>_ n. Inr n) [3] t = Some (Inr [5], t')"
proof -
  let ?i = "\<lambda>kps. \<lparr>it_buffer = enc_blobs kps, it_offset = 0\<rparr>"
  have y: "yields sstable_next (?i kps) (recs_of kps)" if "length (enc_blobs kps) < 2 ^ 63" for kps
    by (rule sstable_iter.yields_enc_blobs [where pre = "[]"]) (use that in simp_all)
  have lt: "[1 :: u8] < [3]" by simp
  have "\<exists>t. run_compaction example_env [?i [([1], Some [2]), ([3], Some [4])], ?i [([3], Some [5])]] =
        Some (t, ce_filename example_env, f_data (ss_fd t)) \<and>
      indexed (ce_hash example_env) (emit [1] (Some [2]) (emit [3] (Some [5]) [])) t"
    by (rule compaction_older_value_wins [OF y y lt example_flushable(3) example_env_calm(1)]) (simp_all add: example_blobs)
  then obtain t where t: "run_compaction example_env [?i [([1], Some [2]), ([3], Some [4])], ?i [([3], Some [5])]] =
        Some (t, ''lsmlite.7.sstable'', f_data (ss_fd t))" "indexed (\<lambda>s k. s) [([1], Some [2]), ([3], Some [5])] t"
    by (auto simp: example_env_calm emit_def)
  have "\<exists>t'. sstable_search (\<lambda>s k. s) (\<lambda>_ n. Inr n) [3] t = Some (Inr [5], t')"
    by (rule sstable_search_indexed [OF t(2), of "\<lambda>_ n. Inr n" "[3]"]) (auto simp: full_reads_def)
  then show ?thesis using t(1) by blast
qed

end
