(* ===== verification/Config.thy ===== *)
theory Config
  imports Constants "HOL-Library.Multiset"
begin

text \<open>
  The configuration, \<^verbatim>\<open>src/config/mod.rs\<close>: defaults, and the conversion of parsed command-line
  parameters.  A \<^verbatim>\<open>HashMap\<close> is the list of its pairs in the order of its iterator, which the
  standard library leaves open; the keys are distinct.
\<close>

record LsmliteConfig =
  cf_max_memtable_nodes :: u64
  cf_max_memtable_size :: u64
  cf_compaction_rate :: u64
  cf_compaction_queue_size :: u64
  cf_memtable_flush_queue_size :: u64

definition config_default :: LsmliteConfig where
  "config_default =
     \<lparr>cf_max_memtable_nodes = DEFAULT_MAX_MEMTABLE_NODES,
      cf_max_memtable_size = DEFAULT_MAX_MEMTABLE_SIZE,
      cf_compaction_rate = DEFAULT_COMPACTION_RATE,
      cf_compaction_queue_size = DEFAULT_COMPACTION_QUEUE_SIZE,
      cf_memtable_flush_queue_size = DEFAULT_MEMTABLE_FLUSH_QUEUE\<rparr>"

text \<open>The five local variables of \<^verbatim>\<open>from\<close>.\<close>

record ConfigVars =
  cv_max_memtable_nodes :: "u64 option"
  cv_max_memtable_size :: "u64 option"
  cv_compaction_rate :: "u64 option"
  cv_compaction_queue_size :: "u64 option"
  cv_memtable_flush_queue_size :: "u64 option"

definition strip_prefix :: "string \<Rightarrow> string \<Rightarrow> string option" where
  "strip_prefix p s = (if take (length p) s = p then Some (drop (length p) s) else None)"

definition set_param :: "string \<Rightarrow> u64 \<Rightarrow> ConfigVars \<Rightarrow> ConfigVars option" where
  "set_param striped val v =
     (if striped = ''max_memtable_nodes'' then Some (v\<lparr>cv_max_memtable_nodes := Some val\<rparr>)
      else if striped = ''max_memtable_size'' then Some (v\<lparr>cv_max_memtable_size := Some val\<rparr>)
      else if striped = ''compaction_rate'' then Some (v\<lparr>cv_compaction_rate := Some val\<rparr>)
      else if striped = ''compaction_queue_size'' then Some (v\<lparr>cv_compaction_queue_size := Some val\<rparr>)
      else if striped = ''memtable_flush_queue_size'' then Some (v\<lparr>cv_memtable_flush_queue_size := Some val\<rparr>)
      else None)"

primrec config_loop :: "(string \<times> u64) list \<Rightarrow> ConfigVars \<Rightarrow> ConfigVars option" where
  "config_loop [] v = Some v"
| "config_loop (pv # parsed) v = do {
     striped \<leftarrow> strip_prefix ''--'' (fst pv);
     v \<leftarrow> set_param striped (snd pv) v;
     config_loop parsed v
   }"

definition unwrap_or :: "'a option \<Rightarrow> 'a \<Rightarrow> 'a" where
  "unwrap_or x d = (case x of None \<Rightarrow> d | Some v \<Rightarrow> v)"

definition config_from :: "(string \<times> u64) list \<Rightarrow> LsmliteConfig option" where
  "config_from parsed = do {
     v \<leftarrow> config_loop parsed
       \<lparr>cv_max_memtable_nodes = None, cv_max_memtable_size = None, cv_compaction_rate = None,
        cv_compaction_queue_size = None, cv_memtable_flush_queue_size = None\<rparr>;
     Some \<lparr>cf_max_memtable_nodes = unwrap_or (cv_max_memtable_nodes v) DEFAULT_MAX_MEMTABLE_NODES,
           cf_max_memtable_size = unwrap_or (cv_max_memtable_size v) DEFAULT_MAX_MEMTABLE_SIZE,
           cf_compaction_rate = unwrap_or (cv_compaction_rate v) DEFAULT_COMPACTION_RATE,
           cf_compaction_queue_size = unwrap_or (cv_compaction_queue_size v) DEFAULT_COMPACTION_QUEUE_SIZE,
           cf_memtable_flush_queue_size = unwrap_or (cv_memtable_flush_queue_size v) DEFAULT_MEMTABLE_FLUSH_QUEUE\<rparr>
   }"

section \<open>The result does not depend on the order\<close>

definition param_names :: "string set" where
  "param_names = {''--max_memtable_nodes'', ''--max_memtable_size'', ''--compaction_rate'',
     ''--compaction_queue_size'', ''--memtable_flush_queue_size''}"

text \<open>The variable a parameter name writes, as a pure lookup.\<close>

definition param :: "(string \<times> u64) list \<Rightarrow> string \<Rightarrow> u64 option \<Rightarrow> u64 option" where
  "param parsed name old = (case map_of (rev parsed) name of None \<Rightarrow> old | Some v \<Rightarrow> Some v)"

lemma param_Nil [simp]: "param [] name old = old"
  by (simp add: param_def)

lemma param_Cons: "param ((p, v) # parsed) name old = param parsed name (if p = name then Some v else old)"
  by (simp add: param_def map_add_def split: option.split)

lemma strip_prefix_Some: "strip_prefix p s = Some t \<longleftrightarrow> s = p @ t"
  unfolding strip_prefix_def by (auto, metis append_take_drop_id)

lemma config_loop_params:
  "\<forall>(p, v) \<in> set parsed. p \<in> param_names \<Longrightarrow>
   config_loop parsed v = Some
     \<lparr>cv_max_memtable_nodes = param parsed ''--max_memtable_nodes'' (cv_max_memtable_nodes v),
      cv_max_memtable_size = param parsed ''--max_memtable_size'' (cv_max_memtable_size v),
      cv_compaction_rate = param parsed ''--compaction_rate'' (cv_compaction_rate v),
      cv_compaction_queue_size = param parsed ''--compaction_queue_size'' (cv_compaction_queue_size v),
      cv_memtable_flush_queue_size = param parsed ''--memtable_flush_queue_size'' (cv_memtable_flush_queue_size v)\<rparr>"
proof (induction parsed arbitrary: v)
  case Nil
  then show ?case by simp
next
  case (Cons pv parsed)
  obtain p x where pv: "pv = (p, x)" by (cases pv)
  have "p \<in> param_names" "\<forall>(p, v) \<in> set parsed. p \<in> param_names" using Cons.prems by (simp_all add: pv)
  then show ?case
    using Cons.IH by (auto simp: pv param_names_def param_Cons strip_prefix_def set_param_def)
qed

lemma config_loop_unknown:
  "(p, x) \<in> set parsed \<Longrightarrow> p \<notin> param_names \<Longrightarrow> config_loop parsed v = None"
proof (induction parsed arbitrary: v)
  case (Cons pv parsed)
  obtain q y where pv: "pv = (q, y)" by (cases pv)
  show ?case
  proof (cases "q = p")
    case True
    then have "q \<notin> param_names" using Cons.prems by simp
    then have "set_param t y v = None" if "strip_prefix ''--'' q = Some t" for t
      using that by (auto simp: strip_prefix_Some set_param_def param_names_def)
    then show ?thesis by (cases "strip_prefix ''--'' q") (simp_all add: pv)
  next
    case False
    then have "config_loop parsed w = None" for w using Cons by (simp add: pv)
    then show ?thesis by (simp add: pv bind_eq_None_conv)
  qed
qed simp

text \<open>Two iteration orders of the same map are the same function.\<close>

lemma map_of_mset:
  assumes "distinct (map fst xs)" "mset xs = mset ys"
  shows "map_of xs = map_of ys" "distinct (map fst ys)"
proof -
  show d: "distinct (map fst ys)" using assms by (metis mset_eq_imp_distinct_iff mset_map)
  have "set xs = set ys" by (rule mset_eq_setD [OF assms(2)])
  then have "map_of xs k = Some v \<longleftrightarrow> map_of ys k = Some v" for k v
    using assms(1) d by (simp add: map_of_eq_Some_iff)
  then show "map_of xs = map_of ys" by (intro ext) (metis option.exhaust)
qed

lemma config_from_eq:
  assumes "distinct (map fst parsed)"
  shows "config_from parsed = (if fst ` set parsed \<subseteq> param_names then
     Some \<lparr>cf_max_memtable_nodes = unwrap_or (map_of parsed ''--max_memtable_nodes'') DEFAULT_MAX_MEMTABLE_NODES,
           cf_max_memtable_size = unwrap_or (map_of parsed ''--max_memtable_size'') DEFAULT_MAX_MEMTABLE_SIZE,
           cf_compaction_rate = unwrap_or (map_of parsed ''--compaction_rate'') DEFAULT_COMPACTION_RATE,
           cf_compaction_queue_size = unwrap_or (map_of parsed ''--compaction_queue_size'') DEFAULT_COMPACTION_QUEUE_SIZE,
           cf_memtable_flush_queue_size = unwrap_or (map_of parsed ''--memtable_flush_queue_size'') DEFAULT_MEMTABLE_FLUSH_QUEUE\<rparr>
     else None)"
proof (cases "fst ` set parsed \<subseteq> param_names")
  case True
  then have p: "\<forall>(p, v) \<in> set parsed. p \<in> param_names" by auto
  have r: "map_of (rev parsed) = map_of parsed" by (rule map_of_mset(1) [OF assms, symmetric]) simp
  have "param parsed name None = map_of parsed name" for name by (simp add: param_def r split: option.split)
  then show ?thesis using True by (simp add: config_from_def config_loop_params [OF p])
next
  case False
  then obtain p x where "(p, x) \<in> set parsed" "p \<notin> param_names" by fastforce
  then show ?thesis using False config_loop_unknown by (simp add: config_from_def)
qed

end
