(* ===== verification/Restart.thy ===== *)
theory Restart
  imports Wal_Recovery Config "HOL-Library.Sublist"
begin

text \<open>
  Restart: the file names of \<^verbatim>\<open>src/util/mod.rs\<close>, the directory scan of \<^verbatim>\<open>src/restart/mod.rs\<close> and the
  loading of full logs of \<^verbatim>\<open>src/restart/worker.rs\<close>.  A path is its file name (all files lie in one
  directory); names are valid UTF-8, so that \<^verbatim>\<open>to_str\<close> succeeds.
\<close>

section \<open>Strings\<close>

text \<open>\<^verbatim>\<open>str::split('.')\<close>, \<^verbatim>\<open>Path::extension\<close>, decimal printing and \<^verbatim>\<open>parse::<u128>\<close> of the standard library.\<close>

fun split_on :: "char \<Rightarrow> string \<Rightarrow> string list" where
  "split_on c [] = [[]]"
| "split_on c (x # xs) =
     (if x = c then [] # split_on c xs
      else case split_on c xs of [] \<Rightarrow> [[x]] | y # ys \<Rightarrow> (x # y) # ys)"

definition file_extension :: "string \<Rightarrow> string option" where
  "file_extension name =
     (if name = ''..'' then None
      else let r = rev name; ext = rev (takeWhile (\<lambda>x. x \<noteq> CHR ''.'') r)
           in case dropWhile (\<lambda>x. x \<noteq> CHR ''.'') r of
                [] \<Rightarrow> None
              | _ # stem \<Rightarrow> if stem = [] then None else Some ext)"

definition digit :: "nat \<Rightarrow> char" where "digit d = char_of (48 + d)"

fun show_nat :: "nat \<Rightarrow> string" where
  "show_nat n = (if n < 10 then [digit n] else show_nat (n div 10) @ [digit (n mod 10)])"

declare show_nat.simps [simp del]

definition is_digit :: "char \<Rightarrow> bool" where
  "is_digit c \<longleftrightarrow> 48 \<le> (of_char c :: nat) \<and> (of_char c :: nat) \<le> 57"

definition digits_value :: "string \<Rightarrow> nat" where
  "digits_value s = foldl (\<lambda>acc c. 10 * acc + (of_char c - 48)) 0 s"

definition parse_u128 :: "string \<Rightarrow> nat option" where
  "parse_u128 s =
     (let ds = (case s of [] \<Rightarrow> [] | c # r \<Rightarrow> if c = CHR ''+'' \<and> r \<noteq> [] then r else s)
      in if ds \<noteq> [] \<and> list_all is_digit ds \<and> digits_value ds < 2 ^ 128 then Some (digits_value ds) else None)"

section \<open>Definitions\<close>

text \<open>The file-name generators; \<open>ts\<close> is the clock in nanoseconds.\<close>

definition generate_wal_file_name :: "nat \<Rightarrow> string" where
  "generate_wal_file_name ts = ''lsmlite.wal.'' @ show_nat ts @ ''.log''"

definition generate_sstable_file_name :: "nat \<Rightarrow> string" where
  "generate_sstable_file_name ts = ''lsmlite.'' @ show_nat ts @ ''.sstable''"

datatype DatabaseFile = WalFile | SSTableFile

definition database_file_from_path :: "string \<Rightarrow> DatabaseFile option" where
  "database_file_from_path name = do {
     ext \<leftarrow> file_extension name;
     if ext = ''sstable'' then Some SSTableFile
     else if ext = ''log'' \<and> prefix ''lsmlite.wal'' name then Some WalFile
     else None
   }"

record WalArtifact =
  wa_filename :: string
  wa_ts :: nat

record SSTableArtifact =
  sa_filename :: string
  sa_ts :: nat

definition wal_artifact_new :: "string \<Rightarrow> WalArtifact option" where
  "wal_artifact_new filename = do {
     part \<leftarrow> vec_get (split_on (CHR ''.'') filename) 2;
     ts \<leftarrow> parse_u128 part;
     Some \<lparr>wa_filename = filename, wa_ts = ts\<rparr>
   }"

definition sstable_artifact_new :: "string \<Rightarrow> SSTableArtifact option" where
  "sstable_artifact_new filename = do {
     part \<leftarrow> vec_get (split_on (CHR ''.'') filename) 1;
     ts \<leftarrow> parse_u128 part;
     Some \<lparr>sa_filename = filename, sa_ts = ts\<rparr>
   }"

text \<open>Artifacts are equal by name and ordered by timestamp.\<close>

definition wal_artifact_eq :: "WalArtifact \<Rightarrow> WalArtifact \<Rightarrow> bool" where
  "wal_artifact_eq self other \<longleftrightarrow> wa_filename self = wa_filename other"

definition wal_artifact_partial_cmp :: "WalArtifact \<Rightarrow> WalArtifact \<Rightarrow> ordering option" where
  "wal_artifact_partial_cmp self other = Some (cmp (wa_ts self) (wa_ts other))"

definition wal_artifact_cmp :: "WalArtifact \<Rightarrow> WalArtifact \<Rightarrow> ordering" where
  "wal_artifact_cmp self other = the (wal_artifact_partial_cmp self other)"

definition sstable_artifact_eq :: "SSTableArtifact \<Rightarrow> SSTableArtifact \<Rightarrow> bool" where
  "sstable_artifact_eq self other \<longleftrightarrow> sa_filename self = sa_filename other"

definition sstable_artifact_partial_cmp :: "SSTableArtifact \<Rightarrow> SSTableArtifact \<Rightarrow> ordering option" where
  "sstable_artifact_partial_cmp self other = Some (cmp (sa_ts self) (sa_ts other))"

definition sstable_artifact_cmp :: "SSTableArtifact \<Rightarrow> SSTableArtifact \<Rightarrow> ordering" where
  "sstable_artifact_cmp self other = the (sstable_artifact_partial_cmp self other)"

text \<open>\<^verbatim>\<open>slice::sort_by\<close>, a stable sort by a comparison function.\<close>

primrec insert_by :: "('a \<Rightarrow> 'a \<Rightarrow> ordering) \<Rightarrow> 'a \<Rightarrow> 'a list \<Rightarrow> 'a list" where
  "insert_by c x [] = [x]"
| "insert_by c x (y # ys) = (if c x y = Greater then y # insert_by c x ys else x # y # ys)"

definition sort_by :: "('a \<Rightarrow> 'a \<Rightarrow> ordering) \<Rightarrow> 'a list \<Rightarrow> 'a list" where
  "sort_by c xs = foldr (insert_by c) xs []"

text \<open>The loop of \<^verbatim>\<open>scan_directory\<close>; the entries are what walking the directory yields.\<close>

primrec scan_loop ::
  "(io_error + string) list \<Rightarrow> SSTableArtifact list \<Rightarrow> WalArtifact list \<Rightarrow> (SSTableArtifact list \<times> WalArtifact list) option" where
  "scan_loop [] sstable_files wal_files = Some (sstable_files, wal_files)"
| "scan_loop (entry # entries) sstable_files wal_files = do {
     path \<leftarrow> (case entry of Inl _ \<Rightarrow> None | Inr path \<Rightarrow> Some path);
     case database_file_from_path path of
       None \<Rightarrow> scan_loop entries sstable_files wal_files
     | Some WalFile \<Rightarrow> do {
         a \<leftarrow> wal_artifact_new path;
         scan_loop entries sstable_files (wal_files @ [a])
       }
     | Some SSTableFile \<Rightarrow> do {
         a \<leftarrow> sstable_artifact_new path;
         scan_loop entries (sstable_files @ [a]) wal_files
       }
   }"

definition scan_directory :: "(io_error + string) list \<Rightarrow> (SSTableArtifact list \<times> WalArtifact list) option" where
  "scan_directory entries = do {
     (sstable_files, wal_files) \<leftarrow> scan_loop entries [] [];
     Some (sort_by (\<lambda>a b. sstable_artifact_cmp b a) sstable_files, sort_by wal_artifact_cmp wal_files)
   }"

text \<open>The current directory.\<close>

definition get_restart_state :: "(string \<Rightarrow> (io_error + string) list) \<Rightarrow> (SSTableArtifact list \<times> WalArtifact list) option" where
  "get_restart_state walk = scan_directory (walk ''.'')"

text \<open>
  Loading the full logs; \<open>fs\<close> gives the environment of each recovery.  The parallel map keeps the
  order of its input.
\<close>

definition load_immutable_memtable_worker ::
  "(string \<Rightarrow> RecoverEnv) \<Rightarrow> string \<Rightarrow> nat \<Rightarrow> nat \<Rightarrow> ((io_error + MemtableInner) \<times> bool) option" where
  "load_immutable_memtable_worker fs path max_size max_nodes = from_wal (fs path) max_size max_nodes"

primrec read_immutable_tables ::
  "(string \<Rightarrow> RecoverEnv) \<Rightarrow> WalArtifact list \<Rightarrow> LsmliteConfig \<Rightarrow> MemtableInner list option" where
  "read_immutable_tables fs [] config = Some []"
| "read_immutable_tables fs (w # wal_files) config = do {
     (r, removed) \<leftarrow> load_immutable_memtable_worker fs (wa_filename w)
       (unat (cf_max_memtable_size config)) (unat (cf_max_memtable_nodes config));
     t \<leftarrow> (case r of Inl _ \<Rightarrow> None | Inr t \<Rightarrow> Some t);
     ts \<leftarrow> read_immutable_tables fs wal_files config;
     Some (t # ts)
   }"

section \<open>Names\<close>

lemma split_on_nonempty [simp]: "split_on c xs \<noteq> []"
  by (cases xs) (auto split: list.split)

lemma split_on_none: "c \<notin> set xs \<Longrightarrow> split_on c xs = [xs]"
  by (induction xs) auto

lemma split_on_append: "c \<notin> set xs \<Longrightarrow> split_on c (xs @ c # ys) = xs # split_on c ys"
  by (induction xs) auto

lemma of_char_digit: "d < 10 \<Longrightarrow> of_char (digit d) = 48 + d"
  by (simp add: digit_def of_char_of)

lemma digit_props: "d < 10 \<Longrightarrow> is_digit (digit d) \<and> digit d \<noteq> CHR ''.'' \<and> digit d \<noteq> CHR ''+''"
proof -
  assume d: "d < 10"
  have o: "of_char (digit d) = 48 + d" using d by (rule of_char_digit)
  have "of_char (CHR ''.'') = (46 :: nat)" "of_char (CHR ''+'') = (43 :: nat)" by code_simp+
  then have "digit d \<noteq> CHR ''.''" "digit d \<noteq> CHR ''+''" using o by auto
  then show ?thesis using o d by (simp add: is_digit_def)
qed

lemma show_nat_chars: "x \<in> set (show_nat n) \<Longrightarrow> is_digit x \<and> x \<noteq> CHR ''.'' \<and> x \<noteq> CHR ''+''"
proof (induction n rule: show_nat.induct)
  case (1 n)
  then show ?case using digit_props [of n] digit_props [of "n mod 10"]
    by (subst (asm) show_nat.simps) (auto split: if_splits)
qed

lemma digits_value_snoc: "digits_value (s @ [c]) = 10 * digits_value s + (of_char c - 48)"
  by (simp add: digits_value_def)

lemma digits_value_show: "digits_value (show_nat n) = n"
proof (induction n rule: show_nat.induct)
  case (1 n)
  show ?case
  proof (cases "n < 10")
    case True
    then show ?thesis by (subst show_nat.simps) (simp add: digits_value_def of_char_digit)
  next
    case False
    then show ?thesis using 1 by (subst show_nat.simps) (simp add: digits_value_snoc of_char_digit)
  qed
qed

lemma show_nat_not_Nil [simp]: "show_nat n \<noteq> []"
  by (subst show_nat.simps) simp

lemma parse_show:
  assumes "n < 2 ^ 128"
  shows "parse_u128 (show_nat n) = Some n"
proof -
  obtain c r where s: "show_nat n = c # r" by (cases "show_nat n") simp_all
  have "c \<noteq> CHR ''+''" "list_all is_digit (show_nat n)" using show_nat_chars [of _ n] by (auto simp: s list_all_iff)
  then show ?thesis using assms digits_value_show [of n] by (simp add: parse_u128_def s)
qed

lemma dot_not_in_show [simp]: "CHR ''.'' \<notin> set (show_nat n)"
  using show_nat_chars by blast

lemma file_extension_last:
  assumes "CHR ''.'' \<notin> set ext" "name \<noteq> []" "ext \<noteq> []"
  shows "file_extension (name @ CHR ''.'' # ext) = Some ext"
proof -
  have t: "takeWhile (\<lambda>x. x \<noteq> CHR ''.'') (rev ext @ CHR ''.'' # rev name) = rev ext"
    "dropWhile (\<lambda>x. x \<noteq> CHR ''.'') (rev ext @ CHR ''.'' # rev name) = CHR ''.'' # rev name"
    using assms(1) by (subst takeWhile_append2, auto) (subst dropWhile_append2, auto)
  have "name @ CHR ''.'' # ext \<noteq> ''..''"
    using assms by (auto simp: append_eq_Cons_conv Cons_eq_append_conv)
  then show ?thesis using t assms(2) by (simp add: file_extension_def Let_def)
qed

lemma generated_wal:
  assumes "ts < 2 ^ 128"
  shows "database_file_from_path (generate_wal_file_name ts) = Some WalFile"
    "wal_artifact_new (generate_wal_file_name ts) = Some \<lparr>wa_filename = generate_wal_file_name ts, wa_ts = ts\<rparr>"
proof -
  have "file_extension (generate_wal_file_name ts) = Some ''log''"
    using file_extension_last [of "''log''" "''lsmlite.wal.'' @ show_nat ts"] by (simp add: generate_wal_file_name_def)
  then show "database_file_from_path (generate_wal_file_name ts) = Some WalFile"
    by (simp add: database_file_from_path_def generate_wal_file_name_def)
  have "split_on (CHR ''.'') (generate_wal_file_name ts) = [''lsmlite'', ''wal'', show_nat ts, ''log'']"
    by (simp add: generate_wal_file_name_def split_on_append)
  then show "wal_artifact_new (generate_wal_file_name ts) = Some \<lparr>wa_filename = generate_wal_file_name ts, wa_ts = ts\<rparr>"
    using parse_show [OF assms] by (simp add: wal_artifact_new_def)
qed

lemma sstable_name_extension: "file_extension (generate_sstable_file_name ts) = Some ''sstable''"
  using file_extension_last [of "''sstable''" "''lsmlite.'' @ show_nat ts"] by (simp add: generate_sstable_file_name_def)

lemma generated_sstable:
  assumes "ts < 2 ^ 128"
  shows "database_file_from_path (generate_sstable_file_name ts) = Some SSTableFile"
    "sstable_artifact_new (generate_sstable_file_name ts) = Some \<lparr>sa_filename = generate_sstable_file_name ts, sa_ts = ts\<rparr>"
proof -
  show "database_file_from_path (generate_sstable_file_name ts) = Some SSTableFile"
    by (simp add: database_file_from_path_def sstable_name_extension)
  have "split_on (CHR ''.'') (generate_sstable_file_name ts) = [''lsmlite'', show_nat ts, ''sstable'']"
    by (simp add: generate_sstable_file_name_def split_on_append)
  then show "sstable_artifact_new (generate_sstable_file_name ts) = Some \<lparr>sa_filename = generate_sstable_file_name ts, sa_ts = ts\<rparr>"
    using parse_show [OF assms] by (simp add: sstable_artifact_new_def)
qed

section \<open>Scanning\<close>

definition wal_of :: "string \<Rightarrow> WalArtifact option" where
  "wal_of name = (if database_file_from_path name = Some WalFile then wal_artifact_new name else None)"

definition sstable_of :: "string \<Rightarrow> SSTableArtifact option" where
  "sstable_of name = (if database_file_from_path name = Some SSTableFile then sstable_artifact_new name else None)"

text \<open>A name the scan can digest: not a file of the database, or one with a timestamp.\<close>

definition scannable :: "string \<Rightarrow> bool" where
  "scannable name \<longleftrightarrow> (case database_file_from_path name of None \<Rightarrow> True
     | Some WalFile \<Rightarrow> wal_artifact_new name \<noteq> None | Some SSTableFile \<Rightarrow> sstable_artifact_new name \<noteq> None)"

lemma scan_loop_collects:
  "\<forall>n \<in> set names. scannable n \<Longrightarrow>
   scan_loop (map Inr names) ss ws = Some (ss @ List.map_filter sstable_of names, ws @ List.map_filter wal_of names)"
proof (induction names arbitrary: ss ws)
  case Nil
  then show ?case by (simp add: List.map_filter_def)
next
  case (Cons n names)
  then show ?case
    by (auto simp: scannable_def map_filter_simps sstable_of_def wal_of_def split: option.splits DatabaseFile.splits)
qed

lemma mset_map_filter: "mset (List.map_filter f xs) = image_mset (the \<circ> f) (filter_mset (\<lambda>x. f x \<noteq> None) (mset xs))"
  by (simp add: List.map_filter_def comp_def)

lemma map_filter_mset_cong: "mset xs = mset ys \<Longrightarrow> mset (List.map_filter f xs) = mset (List.map_filter f ys)"
  by (simp only: mset_map_filter)

definition table_artifact :: "nat \<Rightarrow> SSTableArtifact" where
  "table_artifact ts = \<lparr>sa_filename = generate_sstable_file_name ts, sa_ts = ts\<rparr>"

definition log_artifact :: "nat \<Rightarrow> WalArtifact" where
  "log_artifact ts = \<lparr>wa_filename = generate_wal_file_name ts, wa_ts = ts\<rparr>"

lemma generated_of:
  assumes "ts < 2 ^ 128"
  shows "sstable_of (generate_sstable_file_name ts) = Some (table_artifact ts)" "wal_of (generate_sstable_file_name ts) = None"
    "wal_of (generate_wal_file_name ts) = Some (log_artifact ts)" "sstable_of (generate_wal_file_name ts) = None"
  using generated_wal [OF assms] generated_sstable [OF assms]
  by (simp_all add: sstable_of_def wal_of_def table_artifact_def log_artifact_def)

lemma map_filter_none: "(\<And>x. x \<in> set xs \<Longrightarrow> f x = None) \<Longrightarrow> List.map_filter f xs = []"
  by (simp add: List.map_filter_def filter_empty_conv)

lemma map_filter_all: "(\<And>x. x \<in> set xs \<Longrightarrow> f (g x) = Some (h x)) \<Longrightarrow> List.map_filter f (map g xs) = map h xs"
  by (induction xs) (simp_all add: map_filter_simps)

lemma map_filter_append: "List.map_filter f (xs @ ys) = List.map_filter f xs @ List.map_filter f ys"
  by (simp add: List.map_filter_def)

lemma map_filter_generated:
  assumes ts: "\<forall>ts \<in> set S \<union> set W. ts < 2 ^ 128" and os: "\<forall>n \<in> set Os. database_file_from_path n = None"
  shows "List.map_filter sstable_of (map generate_sstable_file_name S @ map generate_wal_file_name W @ Os) = map table_artifact S"
    and "List.map_filter wal_of (map generate_sstable_file_name S @ map generate_wal_file_name W @ Os) = map log_artifact W"
proof -
  have S: "ts < 2 ^ 128" if "ts \<in> set S" for ts using ts that by blast
  have W: "ts < 2 ^ 128" if "ts \<in> set W" for ts using ts that by blast
  have "List.map_filter sstable_of (map generate_sstable_file_name S) = map table_artifact S"
    "List.map_filter wal_of (map generate_wal_file_name W) = map log_artifact W"
    by (rule map_filter_all, rule generated_of, erule S W)+
  moreover have "List.map_filter sstable_of (map generate_wal_file_name W) = []"
    "List.map_filter wal_of (map generate_sstable_file_name S) = []"
    by (rule map_filter_none, use S W generated_of in auto)+
  moreover have "List.map_filter sstable_of Os = []" "List.map_filter wal_of Os = []"
    by (rule map_filter_none, use os in \<open>simp add: sstable_of_def wal_of_def\<close>)+
  ultimately show "List.map_filter sstable_of (map generate_sstable_file_name S @ map generate_wal_file_name W @ Os) = map table_artifact S"
    "List.map_filter wal_of (map generate_sstable_file_name S @ map generate_wal_file_name W @ Os) = map log_artifact W"
    by (simp_all add: map_filter_append)
qed

lemma sort_tables: "mset xs = mset (map table_artifact S) \<Longrightarrow> sort_key (\<lambda>a. - int (sa_ts a)) xs = map table_artifact (rev (sort S))"
proof -
  assume m: "mset xs = mset (map table_artifact S)"
  let ?ss = "sort_key (\<lambda>a. - int (sa_ts a)) xs"
  have "sorted (map (\<lambda>a. - int (sa_ts a)) ?ss)" by simp
  then have "sorted_wrt (\<lambda>a b. sa_ts b \<le> sa_ts a) ?ss" by (simp add: sorted_map)
  then have s: "sorted (rev (map sa_ts ?ss))" by (simp add: sorted_wrt_rev sorted_wrt_map flip: rev_map)
  have "mset (map sa_ts ?ss) = image_mset sa_ts (mset xs)" by simp
  also have "\<dots> = mset S" unfolding m by (simp add: table_artifact_def multiset.map_comp comp_def)
  finally have "mset (rev (map sa_ts ?ss)) = mset S" by simp
  with s have "rev (map sa_ts ?ss) = sort S" by (rule properties_for_sort [symmetric, rotated])
  then have ts: "map sa_ts ?ss = rev (sort S)" by (metis rev_rev_ident)
  have "set ?ss = table_artifact ` set S" using mset_eq_setD [OF m] by simp
  then have "a = table_artifact (sa_ts a)" if "a \<in> set ?ss" for a using that by (auto simp: table_artifact_def)
  then have "?ss = map table_artifact (map sa_ts ?ss)" unfolding map_map by (intro map_idI [symmetric]) simp
  then show ?thesis using ts by simp
qed

lemma sort_logs: "mset xs = mset (map log_artifact W) \<Longrightarrow> sort_key wa_ts xs = map log_artifact (sort W)"
proof -
  assume m: "mset xs = mset (map log_artifact W)"
  let ?ws = "sort_key wa_ts xs"
  have "mset (map wa_ts ?ws) = image_mset wa_ts (mset xs)" by simp
  also have "\<dots> = mset W" unfolding m by (simp add: log_artifact_def multiset.map_comp comp_def)
  finally have "map wa_ts ?ws = sort W" by (intro properties_for_sort [symmetric]) simp_all
  moreover have "set ?ws = log_artifact ` set W" using mset_eq_setD [OF m] by simp
  then have "a = log_artifact (wa_ts a)" if "a \<in> set ?ws" for a using that by (auto simp: log_artifact_def)
  then have "?ws = map log_artifact (map wa_ts ?ws)" unfolding map_map by (intro map_idI [symmetric]) simp
  ultimately show ?thesis by simp
qed

text \<open>Sorting by a comparison of keys is sorting by the key.\<close>

lemma sort_by_key:
  assumes "\<And>a b. c a b = Greater \<longleftrightarrow> f b < f a"
  shows "sort_by c xs = sort_key f xs"
proof -
  have "insert_by c x ys = insort_key f x ys" for x ys by (induction ys) (auto simp: assms)
  then have "insert_by c = insort_key f" by (intro ext)
  then show ?thesis by (simp add: sort_by_def sort_key_def)
qed

lemma sort_by_artifacts:
  "sort_by (\<lambda>a b. sstable_artifact_cmp b a) ss = sort_key (\<lambda>a. - int (sa_ts a)) ss"
  "sort_by wal_artifact_cmp ws = sort_key wa_ts ws"
  by (rule sort_by_key, simp add: sstable_artifact_cmp_def sstable_artifact_partial_cmp_def wal_artifact_cmp_def
      wal_artifact_partial_cmp_def cmp_def)+

lemma scan_directory_generated:
  assumes ts: "\<forall>ts \<in> set S \<union> set W. ts < 2 ^ 128" and os: "\<forall>n \<in> set Os. database_file_from_path n = None"
    and names: "mset names = mset (map generate_sstable_file_name S @ map generate_wal_file_name W @ Os)"
  shows "scan_directory (map Inr names) = Some (map table_artifact (rev (sort S)), map log_artifact (sort W))"
proof -
  note mf = map_filter_generated [OF ts os]
  have "set names = set (map generate_sstable_file_name S @ map generate_wal_file_name W @ Os)" by (rule mset_eq_setD [OF names])
  then have "\<forall>n \<in> set names. scannable n"
    using ts os generated_wal generated_sstable by (auto simp: scannable_def)
  note scan = scan_loop_collects [OF this, of "[]" "[]"]
  have "sort_key (\<lambda>a. - int (sa_ts a)) (List.map_filter sstable_of names) = map table_artifact (rev (sort S))"
    using map_filter_mset_cong [OF names, of sstable_of] unfolding mf by (rule sort_tables)
  moreover have "sort_key wa_ts (List.map_filter wal_of names) = map log_artifact (sort W)"
    using map_filter_mset_cong [OF names, of wal_of] unfolding mf by (rule sort_logs)
  ultimately show ?thesis using scan by (simp add: scan_directory_def sort_by_artifacts)
qed

section \<open>Loading the full logs\<close>

lemma read_immutable_tables_written:
  "list_all2 (\<lambda>w t. from_wal (fs (wa_filename w)) (unat (cf_max_memtable_size config)) (unat (cf_max_memtable_nodes config)) = Some (Inr t, True)) ws ts \<Longrightarrow>
   read_immutable_tables fs ws config = Some ts"
  by (induction rule: list_all2_induct) (simp_all add: load_immutable_memtable_worker_def)

end
