(* ===== verification/Immutable.thy ===== *)
theory Immutable
  imports Restart SSTable_Write
begin

text \<open>
  The queue of full memtables that wait for their flush, \<^verbatim>\<open>src/memtable/immutable.rs\<close>, oldest first, and
  the bounded channels between the tasks.  The lock around the queue makes each call one step.
\<close>

section \<open>Channels\<close>

datatype MemtableFlushSignal = Flush | FlushShutdown
datatype CompactionSignal = CompactionShutdown | LoadSSTable string

text \<open>
  Sending to a bounded channel of capacity \<open>cap\<close>.  A send to a full channel waits for the receiver; the
  result \<open>None\<close> says that the call does not get past the send in this state.
\<close>

definition chan_send :: "nat \<Rightarrow> 'a \<Rightarrow> 'a list \<Rightarrow> 'a list option" where
  "chan_send cap x q = (if length q < cap then Some (q @ [x]) else None)"

section \<open>Definitions\<close>

record ImmutableMemtable =
  im_table :: "MemtableInner list"

definition immutable_new_empty :: ImmutableMemtable where
  "immutable_new_empty = \<lparr>im_table = []\<rparr>"

text \<open>One \<^verbatim>\<open>Flush\<close> signal per table; the receiver is not running yet, so a full channel blocks for ever.\<close>

primrec send_flushes :: "nat \<Rightarrow> nat \<Rightarrow> MemtableFlushSignal list \<Rightarrow> MemtableFlushSignal list option" where
  "send_flushes 0 cap q = Some q"
| "send_flushes (Suc n) cap q = do { q \<leftarrow> chan_send cap Flush q; send_flushes n cap q }"

definition immutable_new ::
  "(string \<Rightarrow> RecoverEnv) \<Rightarrow> WalArtifact list \<Rightarrow> LsmliteConfig \<Rightarrow> nat \<Rightarrow>
     (ImmutableMemtable \<times> MemtableFlushSignal list) option" where
  "immutable_new fs wal_files config cap =
     (if wal_files = [] then Some (immutable_new_empty, [])
      else do {
        let n_files = length wal_files;
        table_inner \<leftarrow> read_immutable_tables fs wal_files config;
        q \<leftarrow> send_flushes n_files cap [];
        Some (\<lparr>im_table = table_inner\<rparr>, q)
      })"

definition immutable_pop :: "ImmutableMemtable \<Rightarrow> ImmutableMemtable" where
  "immutable_pop self = self\<lparr>im_table := tl (im_table self)\<rparr>"

text \<open>\<^verbatim>\<open>for inner in handle.iter().rev()\<close>\<close>

primrec search_inners :: "bytes \<Rightarrow> MemtableInner list \<Rightarrow> MemtableQuery option" where
  "search_inners key [] = Some QNone"
| "search_inners key (inner # inners) = do {
     r \<leftarrow> memtable_get key inner;
     case r of
       QData d \<Rightarrow> Some (QData d)
     | QTombstone \<Rightarrow> Some QTombstone
     | QNone \<Rightarrow> search_inners key inners
   }"

definition immutable_get :: "bytes \<Rightarrow> ImmutableMemtable \<Rightarrow> MemtableQuery option" where
  "immutable_get key self = search_inners key (rev (im_table self))"

definition immutable_insert :: "MemtableInner \<Rightarrow> ImmutableMemtable \<Rightarrow> ImmutableMemtable" where
  "immutable_insert table self = self\<lparr>im_table := im_table self @ [table]\<rparr>"

definition immutable_flush ::
  "(u64 \<Rightarrow> nat \<Rightarrow> u64) \<Rightarrow> hasher \<Rightarrow> writer \<Rightarrow> (string \<Rightarrow> io_error + unit) \<Rightarrow> ImmutableMemtable \<Rightarrow> File \<Rightarrow>
     ((io_error + unit) \<times> File \<times> string option) option" where
  "immutable_flush ln2_hashes H W remove self fd =
     (case im_table self of
        [] \<Rightarrow> None
      | head # _ \<Rightarrow> flush_memtable_inner ln2_hashes H W remove head fd)"

section \<open>Lookup\<close>

lemma search_inners_first_known:
  "\<forall>t \<in> set ts. mt_inv t \<and> coherent k t \<Longrightarrow> search_inners k ts = Some (query_of (first_known (map mt_view ts) k))"
proof (induction ts)
  case Nil
  then show ?case by simp
next
  case (Cons t ts)
  have "memtable_get k t = Some (query_of (mt_view t k))" using Cons.prems by (intro memtable_get_view) simp_all
  then show ?case using Cons by (auto simp: query_of_def split: option.split)
qed

lemma send_flushes_eq: "send_flushes n cap q = (if length q + n \<le> cap \<or> n = 0 then Some (q @ replicate n Flush) else None)"
  by (induction n arbitrary: q) (auto simp: chan_send_def replicate_append_same)

end
