(* ===== verification/Database.thy ===== *)
theory Database
  imports Immutable Sst_Cache Generation
begin

text \<open>
  The database, \<^verbatim>\<open>src/database/inner.rs\<close> and its wrapper \<^verbatim>\<open>src/database/mod.rs\<close>: the active memtable,
  the queue of full ones and the SSTable cache, with the two channels to the background tasks.  A
  client call is one step of the system (the calls await locks and channels, and the background steps
  of \<open>Background\<close> run between them); \<open>None\<close> is a panic, or a send that has to wait for the receiver.
\<close>

section \<open>Definitions\<close>

record LsmliteInner =
  db_memtable :: Memtable
  db_sstable_cache :: SSTableCache
  db_poisoned :: bool
  db_signal :: "CompactionSignal list"
  db_memtable_channel :: "MemtableFlushSignal list"
  db_immutable :: ImmutableMemtable
  db_compaction_cap :: nat
  db_flush_cap :: nat

text \<open>
  Construction: \<open>fs\<close> the environment of recovering a log, \<open>files\<close> the contents of the SSTable files,
  \<open>w\<close> the outcome of creating a log.
\<close>

definition construct_memtable ::
  "(string \<Rightarrow> RecoverEnv) \<Rightarrow> io_error + Wal \<Rightarrow> WalArtifact option \<Rightarrow> LsmliteConfig \<Rightarrow> Memtable option" where
  "construct_memtable fs w live_wal config = do {
     r \<leftarrow> (case live_wal of
             Some wal \<Rightarrow> Memtable_new_from_wal (fs (wa_filename wal))
               (unat (cf_max_memtable_size config)) (unat (cf_max_memtable_nodes config))
           | None \<Rightarrow> Some (Memtable_new (unat (cf_max_memtable_size config)) (unat (cf_max_memtable_nodes config)) w));
     case r of Inl _ \<Rightarrow> None | Inr m \<Rightarrow> Some m
   }"

definition construct_sstable_cache ::
  "(string \<Rightarrow> io_error + bytes) \<Rightarrow> SSTableArtifact list \<Rightarrow> LsmliteConfig \<Rightarrow> SSTableCache option" where
  "construct_sstable_cache files sstable_files config =
     (if sstable_files = [] then Some (cache_new (unat (cf_compaction_rate config)))
      else cache_from_restart (map (\<lambda>a. files (sa_filename a)) sstable_files) (unat (cf_compaction_rate config)))"

text \<open>\<^verbatim>\<open>wal_files.pop()\<close> takes the newest log; a channel of capacity 0 is a panic.\<close>

definition lsmlite_new ::
  "(string \<Rightarrow> RecoverEnv) \<Rightarrow> (string \<Rightarrow> io_error + bytes) \<Rightarrow> io_error + Wal \<Rightarrow>
     SSTableArtifact list \<Rightarrow> WalArtifact list \<Rightarrow> LsmliteConfig \<Rightarrow> LsmliteInner option" where
  "lsmlite_new fs files w sstable_files wal_files config = do {
     let (live, wal_files) = (if wal_files = [] then (None, []) else (Some (last wal_files), butlast wal_files));
     memtable \<leftarrow> construct_memtable fs w live config;
     sstable_cache \<leftarrow> construct_sstable_cache files sstable_files config;
     assert_that (0 < unat (cf_compaction_queue_size config));
     assert_that (0 < unat (cf_memtable_flush_queue_size config));
     (immutable, q) \<leftarrow> immutable_new fs wal_files config (unat (cf_memtable_flush_queue_size config));
     Some \<lparr>db_memtable = memtable, db_sstable_cache = sstable_cache, db_poisoned = False, db_signal = [],
           db_memtable_channel = q, db_immutable = immutable,
           db_compaction_cap = unat (cf_compaction_queue_size config),
           db_flush_cap = unat (cf_memtable_flush_queue_size config)\<rparr>
   }"

definition check_poison_flag :: "LsmliteInner \<Rightarrow> unit option" where
  "check_poison_flag self = (if db_poisoned self then None else Some ())"

definition read_memtable :: "bytes \<Rightarrow> LsmliteInner \<Rightarrow> bytes option option" where
  "read_memtable key self = do {
     r \<leftarrow> Memtable_get key (db_memtable self);
     Some (case r of QData blob \<Rightarrow> Some blob | QTombstone \<Rightarrow> None | _ \<Rightarrow> None)
   }"

definition read_immutable_table :: "bytes \<Rightarrow> LsmliteInner \<Rightarrow> bytes option option" where
  "read_immutable_table key self = do {
     r \<leftarrow> immutable_get key (db_immutable self);
     Some (case r of QData blob \<Rightarrow> Some blob | QTombstone \<Rightarrow> None | _ \<Rightarrow> None)
   }"

text \<open>The state is returned because a search moves the read position of the tables' files.\<close>

definition db_get :: "hasher \<Rightarrow> reader \<Rightarrow> bytes \<Rightarrow> LsmliteInner \<Rightarrow> (bytes option \<times> LsmliteInner) option" where
  "db_get H R key self = do {
     _ \<leftarrow> check_poison_flag self;
     m \<leftarrow> read_memtable key self;
     case m of
       Some blob \<Rightarrow> Some (Some blob, self)
     | None \<Rightarrow> do {
         i \<leftarrow> read_immutable_table key self;
         case i of
           Some blob \<Rightarrow> Some (Some blob, self)
         | None \<Rightarrow> do {
             (r, cache) \<leftarrow> cache_search H R key (db_sstable_cache self);
             let self = self\<lparr>db_sstable_cache := cache\<rparr>;
             Some (case r of Inr val \<Rightarrow> Some val | Inl _ \<Rightarrow> None, self)
           }
       }
   }"

text \<open>The environment of a write: the two attempts and the log of a fresh table.\<close>

record OpEnv =
  oe_first :: Env
  oe_second :: Env
  oe_wal :: "io_error + Wal"

definition rotate_table :: "io_error + Wal \<Rightarrow> LsmliteInner \<Rightarrow> LsmliteInner option" where
  "rotate_table w self = do {
     (full_table, memtable) \<leftarrow> (case Memtable_rotate w (db_memtable self) of Inl _ \<Rightarrow> None | Inr r \<Rightarrow> Some r);
     let self = self\<lparr>db_memtable := memtable\<rparr>;
     let self = self\<lparr>db_immutable := immutable_insert full_table (db_immutable self)\<rparr>;
     q \<leftarrow> chan_send (db_flush_cap self) Flush (db_memtable_channel self);
     Some (self\<lparr>db_memtable_channel := q\<rparr>)
   }"

definition db_set :: "OpEnv \<Rightarrow> bytes \<Rightarrow> bytes \<Rightarrow> LsmliteInner \<Rightarrow> LsmliteInner option" where
  "db_set oe key val self = do {
     _ \<leftarrow> check_poison_flag self;
     r \<leftarrow> Memtable_insert (oe_first oe) key val (db_memtable self);
     case r of
       Inr m \<Rightarrow> Some (self\<lparr>db_memtable := m\<rparr>)
     | Inl (TableFull key v) \<Rightarrow> do {
         self \<leftarrow> rotate_table (oe_wal oe) self;
         case v of
           Some blob \<Rightarrow> do {
             r \<leftarrow> Memtable_insert (oe_second oe) key blob (db_memtable self);
             Some (case r of Inr m \<Rightarrow> self\<lparr>db_memtable := m\<rparr> | Inl _ \<Rightarrow> self)
           }
         | None \<Rightarrow> None
       }
   }"

definition db_delete :: "OpEnv \<Rightarrow> bytes \<Rightarrow> LsmliteInner \<Rightarrow> LsmliteInner option" where
  "db_delete oe key self = do {
     _ \<leftarrow> check_poison_flag self;
     r \<leftarrow> Memtable_delete (oe_first oe) key (db_memtable self);
     case r of
       Inr m \<Rightarrow> Some (self\<lparr>db_memtable := m\<rparr>)
     | Inl (TableFull key v) \<Rightarrow> do {
         self \<leftarrow> rotate_table (oe_wal oe) self;
         case v of
           Some _ \<Rightarrow> None
         | None \<Rightarrow> do {
             r \<leftarrow> Memtable_delete (oe_second oe) key (db_memtable self);
             Some (case r of Inr m \<Rightarrow> self\<lparr>db_memtable := m\<rparr> | Inl _ \<Rightarrow> self)
           }
       }
   }"

text \<open>\<^verbatim>\<open>impl Drop\<close>: the shutdown signals of the two background tasks.\<close>

definition db_drop :: "LsmliteInner \<Rightarrow> LsmliteInner option" where
  "db_drop self = do {
     s \<leftarrow> chan_send (db_compaction_cap self) CompactionShutdown (db_signal self);
     q \<leftarrow> chan_send (db_flush_cap self) FlushShutdown (db_memtable_channel self);
     Some (self\<lparr>db_signal := s, db_memtable_channel := q\<rparr>)
   }"

text \<open>The public wrapper \<^verbatim>\<open>LsmLite\<close>; the reference count of \<^verbatim>\<open>Arc\<close> is left out.\<close>

record LsmLite =
  ll_inner :: LsmliteInner

definition LsmLite_new ::
  "(string \<Rightarrow> RecoverEnv) \<Rightarrow> (string \<Rightarrow> io_error + bytes) \<Rightarrow> io_error + Wal \<Rightarrow>
     SSTableArtifact list \<Rightarrow> WalArtifact list \<Rightarrow> LsmliteConfig \<Rightarrow> LsmLite option" where
  "LsmLite_new fs files w sstable_files wal_files config = do {
     inner \<leftarrow> lsmlite_new fs files w sstable_files wal_files config;
     Some \<lparr>ll_inner = inner\<rparr>
   }"

definition LsmLite_set :: "OpEnv \<Rightarrow> bytes \<Rightarrow> bytes \<Rightarrow> LsmLite \<Rightarrow> LsmLite option" where
  "LsmLite_set oe key val self = do { inner \<leftarrow> db_set oe key val (ll_inner self); Some (self\<lparr>ll_inner := inner\<rparr>) }"

definition LsmLite_get :: "hasher \<Rightarrow> reader \<Rightarrow> bytes \<Rightarrow> LsmLite \<Rightarrow> (bytes option \<times> LsmLite) option" where
  "LsmLite_get H R key self = do {
     (r, inner) \<leftarrow> db_get H R key (ll_inner self);
     Some (r, self\<lparr>ll_inner := inner\<rparr>)
   }"

definition LsmLite_delete :: "OpEnv \<Rightarrow> bytes \<Rightarrow> LsmLite \<Rightarrow> LsmLite option" where
  "LsmLite_delete oe key self = do { inner \<leftarrow> db_delete oe key (ll_inner self); Some (self\<lparr>ll_inner := inner\<rparr>) }"

section \<open>The two writes as one\<close>

definition db_write :: "OpEnv \<Rightarrow> bytes \<Rightarrow> bytes option \<Rightarrow> LsmliteInner \<Rightarrow> LsmliteInner option" where
  "db_write oe k p self = (case p of Some v \<Rightarrow> db_set oe k v self | None \<Rightarrow> db_delete oe k self)"

definition mem_write :: "Env \<Rightarrow> bytes \<Rightarrow> bytes option \<Rightarrow> Memtable \<Rightarrow> (MemtableError + Memtable) option" where
  "mem_write env k p m = do {
     r \<leftarrow> write_entry env k p (mem_inner m);
     Some (case r of Inl e \<Rightarrow> Inl e | Inr inner \<Rightarrow> Inr (m\<lparr>mem_inner := inner\<rparr>))
   }"

lemma mem_write_Some: "mem_write env k (Some v) m = Memtable_insert env k v m"
  by (simp add: mem_write_def Memtable_insert_def write_entry_def)

lemma mem_write_None: "mem_write env k None m = Memtable_delete env k m"
  by (simp add: mem_write_def Memtable_delete_def write_entry_def)

text \<open>A write that finds room, and one that rotates first.\<close>

lemma db_write_room:
  assumes "\<not> db_poisoned self" "write_entry (oe_first oe) k p (mem_inner (db_memtable self)) = Some (Inr inner)"
  shows "db_write oe k p self = Some (self\<lparr>db_memtable := (db_memtable self)\<lparr>mem_inner := inner\<rparr>\<rparr>)"
  using assms
  by (cases p) (simp_all add: db_write_def db_set_def db_delete_def check_poison_flag_def
      mem_write_Some [symmetric] mem_write_None [symmetric] mem_write_def)

lemma db_write_rotate:
  assumes "\<not> db_poisoned self" "full (mem_inner (db_memtable self))" "rotate_table (oe_wal oe) self = Some self1"
    and "write_entry (oe_second oe) k p (mem_inner (db_memtable self1)) = Some r"
  shows "db_write oe k p self = Some (case r of
    Inr inner \<Rightarrow> self1\<lparr>db_memtable := (db_memtable self1)\<lparr>mem_inner := inner\<rparr>\<rparr> | Inl _ \<Rightarrow> self1)"
  using assms write_entry_full [OF assms(2), of "oe_first oe" k p]
  by (cases p; cases r) (simp_all add: db_write_def db_set_def db_delete_def check_poison_flag_def
      mem_write_Some [symmetric] mem_write_None [symmetric] mem_write_def)

section \<open>Contents\<close>

text \<open>The layers from newest to oldest, and what they say about a key.\<close>

definition db_layers :: "entry list list \<Rightarrow> LsmliteInner \<Rightarrow> (bytes \<rightharpoonup> bytes option) list" where
  "db_layers Ls self = mt_view (mem_inner (db_memtable self)) #
     map mt_view (rev (im_table (db_immutable self))) @ map map_of Ls"

definition db_view :: "entry list list \<Rightarrow> LsmliteInner \<Rightarrow> bytes \<rightharpoonup> bytes option" where
  "db_view Ls self = first_known (db_layers Ls self)"

lemma newest_first_known: "newest Ls k = first_known (map map_of Ls) k"
  by (induction Ls) (simp_all split: option.split)

text \<open>The part of the invariant that reads and writes rest on.\<close>

definition db_ok :: "hasher \<Rightarrow> entry list list \<Rightarrow> LsmliteInner \<Rightarrow> bool" where
  "db_ok H Ls self \<longleftrightarrow> \<not> db_poisoned self \<and> mt_inv (mem_inner (db_memtable self)) \<and>
     (\<forall>t \<in> set (im_table (db_immutable self)). mt_inv t) \<and> cache_holds H Ls (db_sstable_cache self)"

definition db_coherent :: "bytes \<Rightarrow> LsmliteInner \<Rightarrow> bool" where
  "db_coherent k self \<longleftrightarrow> coherent k (mem_inner (db_memtable self)) \<and>
     (\<forall>t \<in> set (im_table (db_immutable self)). coherent k t)"

text \<open>What each part of \<^verbatim>\<open>get\<close> answers.\<close>

lemma query_data: "(case query_of e of QData blob \<Rightarrow> Some blob | QTombstone \<Rightarrow> None | _ \<Rightarrow> None) = data_of e"
  by (auto simp: query_of_def data_of_def split: option.split)

lemma cache_answer_data: "(case cache_answer e of Inr val \<Rightarrow> Some val | Inl _ \<Rightarrow> None) = data_of e"
  by (auto simp: cache_answer_def data_of_def split: option.split)

lemma read_memtable_data:
  assumes "db_ok H Ls self" "db_coherent k self"
  shows "read_memtable k self = Some (data_of (mt_view (mem_inner (db_memtable self)) k))"
  using memtable_get_view [of "mem_inner (db_memtable self)" k] assms
  by (simp add: read_memtable_def Memtable_get_def db_ok_def db_coherent_def query_data)

lemma read_immutable_data:
  assumes "db_ok H Ls self" "db_coherent k self"
  shows "read_immutable_table k self = Some (data_of (first_known (map mt_view (rev (im_table (db_immutable self)))) k))"
  using search_inners_first_known [of "rev (im_table (db_immutable self))" k] assms
  by (simp add: read_immutable_table_def immutable_get_def db_ok_def db_coherent_def query_data)

text \<open>
  What a read really returns: the first of the three layers (memtable, queue, tables) whose newest entry
  for the key is data.  A tombstone ends the search inside its layer only.
\<close>

lemma db_get_layers:
  assumes ok: "db_ok H Ls self" and co: "db_coherent k self" and R: "full_reads R"
  shows "\<exists>self'. db_get H R k self = Some (or_else (data_of (mt_view (mem_inner (db_memtable self)) k))
      (or_else (data_of (first_known (map mt_view (rev (im_table (db_immutable self)))) k)) (data_of (newest Ls k))), self') \<and>
    db_ok H Ls self'"
proof -
  let ?m = "mt_view (mem_inner (db_memtable self)) k" and ?i = "first_known (map mt_view (rev (im_table (db_immutable self)))) k"
  note m = read_memtable_data [OF ok co] and i = read_immutable_data [OF ok co] and a = cache_answer_data
  have "cache_holds H Ls (db_sstable_cache self)" using ok by (simp add: db_ok_def)
  from cache_search_newest [OF this R, of k] obtain c where
    c: "cache_search H R k (db_sstable_cache self) = Some (cache_answer (newest Ls k), c)" "cache_holds H Ls c" by blast
  have ok': "db_ok H Ls (self\<lparr>db_sstable_cache := c\<rparr>)" using ok c(2) by (simp add: db_ok_def)
  have p: "check_poison_flag self = Some ()" using ok by (simp add: check_poison_flag_def db_ok_def)
  show ?thesis
  proof (cases "data_of ?m")
    case (Some v)
    then show ?thesis using m p ok by (simp add: db_get_def)
  next
    case mNone: None
    show ?thesis
    proof (cases "data_of ?i")
      case (Some v)
      then show ?thesis using m i p ok mNone by (simp add: db_get_def)
    next
      case None
      then show ?thesis using m i p c(1) ok' mNone by (simp add: db_get_def a)
    qed
  qed
qed

end
