(* ===== verification/Background.thy ===== *)
theory Background
  imports Database Compaction_Correct
begin

text \<open>
  The two background tasks and the whole system: \<^verbatim>\<open>flush_memtable\<close> of \<^verbatim>\<open>src/memtable/inner.rs\<close>,
  \<^verbatim>\<open>sstable_background\<close> and \<^verbatim>\<open>cleanup\<close> of \<^verbatim>\<open>src/compaction/mod.rs\<close>.  The body of each task's loop is a
  function of the signal received; the interleaving of tasks and clients is a step relation.
\<close>

section \<open>Definitions\<close>

datatype FlushTask = FlushIdle | FlushAwaitAck | FlushExited
datatype LoadTask = LoadRunning | LoadExited

text \<open>
  The state of the process and of its files: the database, the SSTable files by name, the names of the
  logs that have been deleted, what the tasks are doing, the number of acknowledgements in their
  channel (capacity 1), and the time stamp of the newest file name.
\<close>

record System =
  sys_db :: LsmliteInner
  sys_disk :: "string \<rightharpoonup> bytes"
  sys_removed :: "string set"
  sys_flush_task :: FlushTask
  sys_load_task :: LoadTask
  sys_acks :: nat
  sys_clock :: nat

text \<open>The end of \<^verbatim>\<open>LsmliteInner::new\<close>: both tasks are spawned and wait for signals.\<close>

definition sys_start :: "nat \<Rightarrow> (string \<rightharpoonup> bytes) \<Rightarrow> LsmliteInner \<Rightarrow> System" where
  "sys_start now disk db = \<lparr>sys_db = db, sys_disk = disk, sys_removed = {}, sys_flush_task = FlushIdle,
     sys_load_task = LoadRunning, sys_acks = 0, sys_clock = now\<rparr>"

record FlushEnv =
  fe_filename :: string
  fe_created :: "io_error + unit"
  fe_write :: writer
  fe_remove :: "string \<Rightarrow> io_error + unit"
  fe_hash :: hasher
  fe_ln2_hashes :: "u64 \<Rightarrow> nat \<Rightarrow> u64"

definition poison :: "System \<Rightarrow> System" where
  "poison s = s\<lparr>sys_db := (sys_db s)\<lparr>db_poisoned := True\<rparr>\<rparr>"

text \<open>
  One turn of the loop of \<^verbatim>\<open>flush_memtable\<close>, up to the wait for the acknowledgement.  If the load task has
  gone, the failed send is ignored and the wait panics.  The turn is one step: what a crash between the
  creation of the file and the deletion of the log leaves is not a state of the model.
\<close>

definition flush_memtable :: "FlushEnv \<Rightarrow> MemtableFlushSignal \<Rightarrow> System \<Rightarrow> System option" where
  "flush_memtable env memtable_signal s =
     (case memtable_signal of
        FlushShutdown \<Rightarrow> Some (s\<lparr>sys_flush_task := FlushExited\<rparr>)
      | Flush \<Rightarrow>
          (let pathname = fe_filename env in
           case fe_created env of
             Inl _ \<Rightarrow> Some ((poison s)\<lparr>sys_flush_task := FlushExited\<rparr>)
           | Inr _ \<Rightarrow> do {
               (r, fd, removed) \<leftarrow> immutable_flush (fe_ln2_hashes env) (fe_hash env) (fe_write env) (fe_remove env)
                 (db_immutable (sys_db s)) file_create;
               let s = s\<lparr>sys_disk := (sys_disk s)(pathname \<mapsto> f_data fd),
                 sys_removed := (case (r, removed) of (Inr _, Some path) \<Rightarrow> insert path (sys_removed s) | _ \<Rightarrow> sys_removed s)\<rparr>;
               case r of
                 Inr _ \<Rightarrow> do {
                   assert_that (sys_load_task s = LoadRunning);
                   q \<leftarrow> chan_send (db_compaction_cap (sys_db s)) (LoadSSTable pathname) (db_signal (sys_db s));
                   Some (s\<lparr>sys_db := (sys_db s)\<lparr>db_signal := q\<rparr>, sys_flush_task := FlushAwaitAck\<rparr>)
                 }
               | Inl _ \<Rightarrow> Some (poison s)
             }))"

text \<open>
  Paths as components: \<^verbatim>\<open>read_dir(".")\<close> yields \<^verbatim>\<open>./name\<close>, and a leading \<^verbatim>\<open>.\<close> is a component of its own in
  comparisons of paths.
\<close>

datatype component = CurDir | Normal string
type_synonym PathBuf = "component list"

definition dir_entry_path :: "string \<Rightarrow> PathBuf" where
  "dir_entry_path name = [CurDir, Normal name]"

definition path_of_name :: "string \<Rightarrow> PathBuf" where
  "path_of_name name = [Normal name]"

text \<open>
  The file system as \<^verbatim>\<open>cleanup\<close> sees it: the listing of the directory, each entry a name and whether it
  is a regular file, and the outcome of deleting a file.
\<close>

record CleanupEnv =
  cl_read_dir :: "io_error + (io_error + string \<times> bool) list"
  cl_remove :: "string \<Rightarrow> io_error + unit"

primrec cleanup_loop ::
  "(string \<Rightarrow> io_error + unit) \<Rightarrow> (io_error + string \<times> bool) list \<Rightarrow> PathBuf \<Rightarrow> (string \<rightharpoonup> bytes) \<Rightarrow> (string \<rightharpoonup> bytes) option" where
  "cleanup_loop remove [] new_table_path disk = Some disk"
| "cleanup_loop remove (entry # dir) new_table_path disk = do {
     (name, is_file) \<leftarrow> (case entry of Inl _ \<Rightarrow> None | Inr e \<Rightarrow> Some e);
     let path = dir_entry_path name;
     if new_table_path = path then cleanup_loop remove dir new_table_path disk
     else if \<not> is_file then cleanup_loop remove dir new_table_path disk
     else (case file_extension name of
             None \<Rightarrow> cleanup_loop remove dir new_table_path disk
           | Some path_ext \<Rightarrow>
               if path_ext = ''sstable''
               then (case remove name of
                       Inl _ \<Rightarrow> None
                     | Inr _ \<Rightarrow> cleanup_loop remove dir new_table_path (disk(name := None)))
               else cleanup_loop remove dir new_table_path disk)
   }"

definition cleanup ::
  "CleanupEnv \<Rightarrow> SSTableCache \<Rightarrow> SSTable \<Rightarrow> PathBuf \<Rightarrow> (string \<rightharpoonup> bytes) \<Rightarrow> (SSTableCache \<times> (string \<rightharpoonup> bytes)) option" where
  "cleanup cl sstable_cache sstable new_table_path disk = do {
     let sstable_cache = replace_with_compact_table sstable sstable_cache;
     dir \<leftarrow> (case cl_read_dir cl of Inl _ \<Rightarrow> None | Inr dir \<Rightarrow> Some dir);
     disk \<leftarrow> cleanup_loop (cl_remove cl) dir new_table_path disk;
     Some (sstable_cache, disk)
   }"

text \<open>
  One turn of the loop of \<^verbatim>\<open>sstable_background\<close>, with the push into the cache, the pop from the queue, the
  compaction and the cleanup as one step, although the source releases its locks in between.
\<close>

definition sstable_background ::
  "CompactionEnv \<Rightarrow> CleanupEnv \<Rightarrow> CompactionSignal \<Rightarrow> System \<Rightarrow> System option" where
  "sstable_background env cl signal s =
     (case signal of
        CompactionShutdown \<Rightarrow> Some (s\<lparr>sys_load_task := LoadExited\<rparr>)
      | LoadSSTable path \<Rightarrow> do {
          r \<leftarrow> sstable_from_path (case sys_disk s path of None \<Rightarrow> Inl OsError | Some bs \<Rightarrow> Inr bs);
          sstable \<leftarrow> (case r of Inl _ \<Rightarrow> None | Inr t \<Rightarrow> Some t);
          let (current_len, cache) = cache_push sstable (db_sstable_cache (sys_db s));
          let db = (sys_db s)\<lparr>db_sstable_cache := cache, db_immutable := immutable_pop (db_immutable (sys_db s))\<rparr>;
          (db, disk) \<leftarrow>
            (if sc_compaction_rate cache \<le> current_len
             then do {
               (table_iters, tables) \<leftarrow> tables_to_iterators (ce_spoiled env) (clone_tables cache);
               (compact_table, compact_table_path, contents) \<leftarrow> run_compaction env table_iters;
               let disk = (sys_disk s)(compact_table_path \<mapsto> contents);
               (cache, disk) \<leftarrow> cleanup cl (cache\<lparr>sc_cache := tables\<rparr>) compact_table (path_of_name compact_table_path) disk;
               Some (db\<lparr>db_sstable_cache := cache\<rparr>, disk)
             }
             else Some (db, sys_disk s));
          acks \<leftarrow> (if sys_acks s < 1 then Some (sys_acks s + 1) else None);
          Some (s\<lparr>sys_db := db, sys_disk := disk, sys_acks := acks\<rparr>)
        })"

text \<open>Receiving: the first signal of the channel is taken out.\<close>

definition recv_flush :: "System \<Rightarrow> (MemtableFlushSignal \<times> System) option" where
  "recv_flush s = (case db_memtable_channel (sys_db s) of [] \<Rightarrow> None
     | x # q \<Rightarrow> Some (x, s\<lparr>sys_db := (sys_db s)\<lparr>db_memtable_channel := q\<rparr>\<rparr>))"

definition recv_signal :: "System \<Rightarrow> (CompactionSignal \<times> System) option" where
  "recv_signal s = (case db_signal (sys_db s) of [] \<Rightarrow> None
     | x # q \<Rightarrow> Some (x, s\<lparr>sys_db := (sys_db s)\<lparr>db_signal := q\<rparr>\<rparr>))"

end
