(* ===== verification/Transition.thy ===== *)
theory Transition
  imports Main
begin

text \<open>
  Labelled transition systems: runs, and forward simulation of a concrete system by an abstract one.
\<close>

inductive run :: "('s \<Rightarrow> 'l \<Rightarrow> 's \<Rightarrow> bool) \<Rightarrow> 's \<Rightarrow> 'l list \<Rightarrow> 's \<Rightarrow> bool" for step where
  stop: "run step s [] s"
| step: "step s l s1 \<Longrightarrow> run step s1 ls s2 \<Longrightarrow> run step s (l # ls) s2"

inductive_simps run_Nil [simp]: "run step s [] s'"
inductive_simps run_Cons: "run step s (l # ls) s'"

lemma run_append: "run step s (ls @ ls') s' \<longleftrightarrow> (\<exists>s1. run step s ls s1 \<and> run step s1 ls' s')"
  by (induction ls arbitrary: s) (auto simp: run_Cons)

lemma run_single: "run step s [l] s' \<longleftrightarrow> step s l s'"
  by (simp add: run_Cons)

text \<open>An invariant of the steps is an invariant of the runs.\<close>

lemma run_invariant:
  "run step s ls s' \<Longrightarrow> P s \<Longrightarrow> (\<And>s l s'. step s l s' \<Longrightarrow> P s \<Longrightarrow> l \<in> set ls \<Longrightarrow> P s') \<Longrightarrow> P s'"
  by (induction rule: run.induct) auto

text \<open>
  A concrete system and an abstract one with a relation between their states.  The environment may be
  restricted: \<open>ok g ls\<close> says that from the abstract state \<open>g\<close> the labels \<open>ls\<close> stay within the bounds
  the concrete system is made for.
\<close>

locale forward_simulation =
  fixes step :: "'s \<Rightarrow> 'l \<Rightarrow> 's \<Rightarrow> bool"
    and astep :: "'g \<Rightarrow> 'l \<Rightarrow> 'g \<Rightarrow> bool"
    and match :: "'g \<Rightarrow> 's \<Rightarrow> bool"
    and ok :: "'g \<Rightarrow> 'l list \<Rightarrow> bool"
  assumes simulation: "match g s \<Longrightarrow> ok g (l # ls) \<Longrightarrow> step s l s' \<Longrightarrow> \<exists>g'. astep g l g' \<and> match g' s'"
    and ok_step: "ok g (l # ls) \<Longrightarrow> astep g l g' \<Longrightarrow> ok g' ls"
begin

lemma run_simulation:
  "run step s ls s' \<Longrightarrow> match g s \<Longrightarrow> ok g (ls @ ms) \<Longrightarrow> \<exists>g'. run astep g ls g' \<and> match g' s' \<and> ok g' ms"
proof (induction arbitrary: g rule: run.induct)
  case (stop s)
  then show ?case by auto
next
  case (step s l s1 ls s2)
  from step.prems have ok: "ok g (l # ls @ ms)" by simp
  from simulation [OF step.prems(1) this step.hyps(1)] obtain g1 where
    g1: "astep g l g1" "match g1 s1" by blast
  from step.IH [OF g1(2) ok_step [OF ok g1(1)]] show ?case using g1(1) by (auto simp: run_Cons)
qed

end

end
