(* ===== verification/Lsm_Spec.thy ===== *)
theory Lsm_Spec
  imports Transition Merge_Spec Sst_Index Generation "HOL-Library.Multiset"
begin

text \<open>
  The database as an abstract machine.  Its state is a history: the writes of the current memtable
  generation, the finished generations that wait for their flush, the generations that have been
  loaded as tables, and the contents of the tables.  Compaction may yield any merge of the tables.
  A read asks the three layers one after the other.
\<close>

section \<open>The machine\<close>

datatype Label =
    Wrote bytes "bytes option"
  | Rotated bytes "bytes option"
  | Got bytes "bytes option"
  | Internal
  | Compacted

record lsm =
  l_mem :: "entry list"
  l_queue :: "entry list list"
  l_loaded :: "entry list list"
  l_tables :: "entry list list"

text \<open>A table that holds the outcome of a generation.\<close>

definition stored :: "entry list \<Rightarrow> entry list \<Rightarrow> bool" where
  "stored g t \<longleftrightarrow> sorted_table t \<and> map_of t = last_writes g"

abbreviation lsm_empty :: lsm where
  "lsm_empty \<equiv> \<lparr>l_mem = [], l_queue = [], l_loaded = [], l_tables = []\<rparr>"

text \<open>
  What a read returns: the newest data of the memtable, of the queue, or of the tables, where a tombstone
  is passed over to the next layer.  This is the answer for a tidy key, one that is clean in every
  generation still in memory.
\<close>

definition lsm_get :: "lsm \<Rightarrow> bytes \<Rightarrow> bytes option" where
  "lsm_get A k = or_else (data_of (last_writes (l_mem A) k))
     (or_else (data_of (first_known (map last_writes (rev (l_queue A))) k)) (data_of (first_known (map map_of (l_tables A)) k)))"

definition tidy :: "lsm \<Rightarrow> bytes \<Rightarrow> bool" where
  "tidy A k \<longleftrightarrow> (\<forall>g \<in> set (l_mem A # l_queue A). clean_gen k g)"

inductive lsm_step :: "lsm \<Rightarrow> Label \<Rightarrow> lsm \<Rightarrow> bool" where
  put: "lsm_step A (Wrote k p) (A\<lparr>l_mem := l_mem A @ [(k, p)]\<rparr>)"
| rotate: "lsm_step A (Rotated k p) (A\<lparr>l_queue := l_queue A @ [l_mem A], l_mem := [(k, p)]\<rparr>)"
| read: "(tidy A k \<longrightarrow> r = lsm_get A k) \<Longrightarrow> lsm_step A (Got k r) A"
| idle: "lsm_step A Internal A"
| load: "l_queue A = g # q \<Longrightarrow> stored g t \<Longrightarrow>
    lsm_step A Internal (A\<lparr>l_queue := q, l_loaded := l_loaded A @ [g], l_tables := t # l_tables A\<rparr>)"
| compact: "l_queue A = g # q \<Longrightarrow> stored g t \<Longrightarrow> merges (t # l_tables A) out \<Longrightarrow>
    lsm_step A Compacted (A\<lparr>l_queue := q, l_loaded := l_loaded A @ [g], l_tables := [out]\<rparr>)"

inductive_cases lsm_stepE: "lsm_step A l A'"

text \<open>The writes of a trace, and those a state has seen.\<close>

primrec label_writes :: "Label \<Rightarrow> entry list" where
  "label_writes (Wrote k p) = [(k, p)]"
| "label_writes (Rotated k p) = [(k, p)]"
| "label_writes (Got k r) = []"
| "label_writes Internal = []"
| "label_writes Compacted = []"

definition trace_writes :: "Label list \<Rightarrow> entry list" where
  "trace_writes ls = concat (map label_writes ls)"

lemma trace_writes_simps [simp]:
  "trace_writes [] = []" "trace_writes (l # ls) = label_writes l @ trace_writes ls"
  "trace_writes (ls @ ms) = trace_writes ls @ trace_writes ms"
  by (simp_all add: trace_writes_def)

definition lsm_writes :: "lsm \<Rightarrow> entry list" where
  "lsm_writes A = concat (l_loaded A @ l_queue A @ [l_mem A])"

text \<open>The generations a trace completes or leaves open, when the open one starts with \<open>g\<close>.\<close>

fun generations :: "entry list \<Rightarrow> Label list \<Rightarrow> entry list list" where
  "generations g [] = [g]"
| "generations g (Wrote k p # ls) = generations (g @ [(k, p)]) ls"
| "generations g (Rotated k p # ls) = g # generations [(k, p)] ls"
| "generations g (_ # ls) = generations g ls"

text \<open>The contents: the newest entry of each key.\<close>

definition lsm_view :: "lsm \<Rightarrow> bytes \<rightharpoonup> bytes option" where
  "lsm_view A = first_known (last_writes (l_mem A) # map last_writes (rev (l_queue A)) @ map map_of (l_tables A))"

lemma lsm_empty_simps [simp]: "lsm_view lsm_empty = Map.empty" "lsm_writes lsm_empty = []"
  by (rule ext, simp add: lsm_view_def last_writes_def) (simp add: lsm_writes_def)

section \<open>Without compaction: a map\<close>

definition label_effect :: "Label \<Rightarrow> (bytes \<rightharpoonup> bytes option) \<Rightarrow> (bytes \<rightharpoonup> bytes option)" where
  "label_effect l m = m ++ last_writes (label_writes l)"

lemma label_effect_simps [simp]:
  "label_effect (Wrote k p) m = m(k \<mapsto> p)" "label_effect (Rotated k p) m = m(k \<mapsto> p)"
  "label_effect (Got k r) m = m" "label_effect Internal m = m" "label_effect Compacted m = m"
  by (simp_all add: label_effect_def last_writes_def)

lemma last_writes_append: "last_writes (xs @ ys) = last_writes xs ++ last_writes ys"
  by (simp add: last_writes_def)

lemma fold_label_effect: "fold label_effect ls m = m ++ last_writes (trace_writes ls)"
proof (induction ls arbitrary: m)
  case (Cons l ls)
  then show ?case by (simp add: label_effect_def last_writes_append)
qed simp

lemma lsm_step_writes: "lsm_step A l A' \<Longrightarrow> lsm_writes A' = lsm_writes A @ label_writes l"
  by (induction rule: lsm_step.induct) (simp_all add: lsm_writes_def)

lemma lsm_run_writes: "run lsm_step A ls A' \<Longrightarrow> lsm_writes A' = lsm_writes A @ trace_writes ls"
  by (induction rule: run.induct) (simp_all add: lsm_step_writes)

lemma lsm_step_generations:
  "lsm_step A l A' \<Longrightarrow> l_loaded A' @ l_queue A' @ generations (l_mem A') ls = l_loaded A @ l_queue A @ generations (l_mem A) (l # ls)"
  by (induction rule: lsm_step.induct) simp_all

text \<open>A run splits the writes into the generations of its trace.\<close>

lemma lsm_run_generations:
  "run lsm_step A ls A' \<Longrightarrow> l_loaded A' @ l_queue A' @ [l_mem A'] = l_loaded A @ l_queue A @ generations (l_mem A) ls"
  by (induction rule: run.induct) (simp_all flip: lsm_step_generations)

lemma lsm_step_view: "lsm_step A l A' \<Longrightarrow> l \<noteq> Compacted \<Longrightarrow> lsm_view A' = label_effect l (lsm_view A)"
proof (induction rule: lsm_step.induct)
  case (rotate A k p)
  have "last_writes [(k, p)] = [k \<mapsto> p]" by (simp add: last_writes_def)
  then show ?case by (intro ext) (simp add: lsm_view_def)
next
  case (load A g q t)
  then show ?case by (simp add: lsm_view_def stored_def)
qed (simp_all add: lsm_view_def first_known_insert)

lemma lsm_run_view:
  "run lsm_step A ls A' \<Longrightarrow> Compacted \<notin> set ls \<Longrightarrow> lsm_view A' = fold label_effect ls (lsm_view A)"
  by (induction rule: run.induct) (auto simp: lsm_step_view)

text \<open>
  Only values of length \<open>n\<close> are written to the key.  Such a key is tidy, has no tombstones, and is read
  as the contents have it.
\<close>

definition keeps_length :: "bytes \<Rightarrow> nat \<Rightarrow> entry list \<Rightarrow> bool" where
  "keeps_length k n W \<longleftrightarrow> (\<forall>p. (k, p) \<in> set W \<longrightarrow> (\<exists>v. p = Some v \<and> length v = n))"

lemma keeps_length_append [simp]: "keeps_length k n (V @ W) \<longleftrightarrow> keeps_length k n V \<and> keeps_length k n W"
  by (auto simp: keeps_length_def)

lemma keeps_length_concat: "keeps_length k n (concat gs) \<longleftrightarrow> (\<forall>g \<in> set gs. keeps_length k n g)"
  by (induction gs) (auto simp: keeps_length_def)

lemma last_writes_set: "last_writes g k = Some p \<Longrightarrow> (k, p) \<in> set g"
  by (auto simp: last_writes_def dest: map_of_SomeD)

lemma keeps_length_clean: "keeps_length k n g \<Longrightarrow> clean_gen k g"
proof (induction g rule: rev_induct)
  case (snoc e g)
  obtain j p where e: "e = (j, p)" by (cases e)
  have "clean_write (last_writes g k) p" if "j = k"
  proof (cases "last_writes g k")
    case (Some q)
    from snoc.prems that obtain v where "p = Some v" "length v = n" by (auto simp: e keeps_length_def)
    moreover from snoc.prems last_writes_set [OF Some] obtain u where "q = Some u" "length u = n"
      unfolding keeps_length_def by (metis UnCI set_append)
    ultimately show ?thesis using Some by (simp add: clean_write_def)
  qed (simp add: clean_write_def)
  then show ?case using snoc by (auto simp: e clean_gen_snoc)
qed simp

abbreviation lsm_memory :: "lsm \<Rightarrow> entry list" where
  "lsm_memory A \<equiv> concat (l_queue A @ [l_mem A])"

lemma keeps_length_tidy: "keeps_length k n (lsm_memory A) \<Longrightarrow> tidy A k"
  by (auto simp: tidy_def keeps_length_concat intro: keeps_length_clean)

lemma no_tombstones:
  assumes "keeps_length k n (concat gs)"
  shows "first_known (map last_writes (rev gs)) k \<noteq> Some None"
  using assms by (fastforce simp: keeps_length_def dest!: first_known_SomeD last_writes_set)

lemma keeps_length_get:
  assumes "keeps_length k n (lsm_memory A)"
  shows "lsm_get A k = data_of (lsm_view A k)"
proof -
  have "last_writes (l_mem A) k \<noteq> Some None" "first_known (map last_writes (rev (l_queue A))) k \<noteq> Some None"
    using no_tombstones [of k n "l_queue A"] assms last_writes_set [of "l_mem A" k None] by (auto simp: keeps_length_def)
  then show ?thesis
    by (auto simp: lsm_get_def lsm_view_def first_known_append data_of_def split: option.split)
qed

text \<open>A map in which every key of \<open>K\<close> is read as it is.\<close>

definition map_step :: "bytes set \<Rightarrow> (bytes \<rightharpoonup> bytes option) \<Rightarrow> Label \<Rightarrow> (bytes \<rightharpoonup> bytes option) \<Rightarrow> bool" where
  "map_step K m l m' \<longleftrightarrow> m' = label_effect l m \<and> (\<forall>k r. l = Got k r \<longrightarrow> k \<in> K \<longrightarrow> r = data_of (m k))"

lemma keeps_length_step:
  "lsm_step A l A' \<Longrightarrow> keeps_length k n (lsm_memory A @ trace_writes (l # ls)) \<Longrightarrow> keeps_length k n (lsm_memory A' @ trace_writes ls)"
  by (induction rule: lsm_step.induct) auto

lemma lsm_run_map:
  "run lsm_step A ls A' \<Longrightarrow> Compacted \<notin> set ls \<Longrightarrow> \<forall>k \<in> K. \<exists>n. keeps_length k n (lsm_memory A @ trace_writes ls) \<Longrightarrow>
   run (map_step K) (lsm_view A) ls (lsm_view A')"
proof (induction rule: run.induct)
  case (step A l A1 ls A2)
  have "\<forall>k \<in> K. \<exists>n. keeps_length k n (lsm_memory A1 @ trace_writes ls)"
    using step.prems(2) keeps_length_step [OF step.hyps(1)] by blast
  with step have "run (map_step K) (lsm_view A1) ls (lsm_view A2)" by simp
  moreover have "r = data_of (lsm_view A k)" if "l = Got k r" "k \<in> K" for k r
  proof -
    from step.prems(2) that(2) obtain n where n: "keeps_length k n (lsm_memory A)" by auto
    show ?thesis using step.hyps(1) keeps_length_tidy [OF n] keeps_length_get [OF n] that(1) by (auto elim: lsm_stepE)
  qed
  then have "map_step K (lsm_view A) l (lsm_view A1)"
    using lsm_step_view [OF step.hyps(1)] step.prems(1) by (auto simp: map_step_def)
  ultimately show ?case by (blast intro: run.step)
qed simp

section \<open>With compaction: nothing invented, nothing forgotten\<close>

text \<open>
  The tables hold entries of the loaded generations only, no more often than these were written, and
  a key that was loaded but never deleted is in some table.
\<close>

definition lasting :: "entry list \<Rightarrow> bytes \<Rightarrow> bool" where
  "lasting W k \<longleftrightarrow> k \<in> fst ` set W \<and> (k, None) \<notin> set W"

lemma lasting_append: "lasting (V @ W) k \<longleftrightarrow>
    lasting V k \<and> k \<notin> fst ` set W \<or> k \<notin> fst ` set V \<and> lasting W k \<or> lasting V k \<and> lasting W k"
  by (auto simp: lasting_def image_iff)

definition retained :: "lsm \<Rightarrow> bool" where
  "retained A \<longleftrightarrow> (\<forall>k. lasting (concat (l_loaded A)) k \<longrightarrow> first_known (map map_of (l_tables A)) k \<noteq> None)"

definition lsm_inv :: "lsm \<Rightarrow> bool" where
  "lsm_inv A \<longleftrightarrow> (\<forall>t \<in> set (l_tables A). sorted_table t) \<and>
     mset (concat (l_tables A)) \<subseteq># mset (concat (l_loaded A)) \<and> retained A"

lemma sorted_table_distinct: "sorted_table t \<Longrightarrow> distinct (map fst t)"
  by (simp add: sorted_table_def strict_sorted_iff)

lemma mset_subset_distinct: "distinct xs \<Longrightarrow> set xs \<subseteq> set ys \<Longrightarrow> mset xs \<subseteq># mset ys"
proof (induction xs arbitrary: ys)
  case (Cons x xs)
  then obtain us vs where ys: "ys = us @ x # vs" by (auto dest: split_list)
  then have "set xs \<subseteq> set (us @ vs)" using Cons.prems by auto
  then have "mset xs \<subseteq># mset (us @ vs)" using Cons.prems(1) by (intro Cons.IH) simp_all
  then show ?case by (simp add: ys)
qed simp

lemma last_writes_None: "last_writes g k = None \<longleftrightarrow> k \<notin> fst ` set g"
  using dom_last_writes [of g] by auto

lemma net_subset:
  assumes "distinct (map fst es)" "map_of es = last_writes g"
  shows "mset es \<subseteq># mset g"
proof (rule mset_subset_distinct)
  show "distinct es" using assms(1) by (simp add: distinct_map)
  show "set es \<subseteq> set g" using assms last_writes_set [of g] by (auto simp flip: assms(2))
qed

lemma stored_subset: "stored g t \<Longrightarrow> mset t \<subseteq># mset g"
  by (auto simp: stored_def intro: net_subset sorted_table_distinct)

lemma merges_subset:
  assumes "merges P out" "\<forall>L \<in> set P. sorted_table L"
  shows "mset out \<subseteq># mset (concat P)"
proof (rule mset_subset_distinct)
  show "distinct out" using sorted_table_distinct [OF merges_sorted [OF assms]] by (simp add: distinct_map)
  show "set out \<subseteq> set (concat P)" using merges_set [OF assms(1)] by auto
qed

lemma retained_load:
  assumes "retained A" "stored g t"
  shows "retained (A\<lparr>l_queue := q, l_loaded := l_loaded A @ [g], l_tables := t # l_tables A\<rparr>)"
proof -
  have "map_of t k \<noteq> None \<or> first_known (map map_of (l_tables A)) k \<noteq> None"
    if "lasting (concat (l_loaded A) @ g) k" for k
    using that assms last_writes_None [of g k] unfolding lasting_append
    by (auto simp: retained_def stored_def lasting_def)
  then show ?thesis unfolding retained_def by (fastforce split: option.split)
qed

lemma lsm_inv_load:
  assumes "lsm_inv A" "stored g t"
  shows "lsm_inv (A\<lparr>l_queue := q, l_loaded := l_loaded A @ [g], l_tables := t # l_tables A\<rparr>)"
  using assms retained_load [of A g t q] stored_subset [OF assms(2)]
  by (auto simp: lsm_inv_def stored_def add.commute [of "mset t"] intro: subset_mset.add_mono)

lemma lsm_inv_merge:
  assumes inv: "lsm_inv A" and m: "merges (l_tables A) out"
  shows "lsm_inv (A\<lparr>l_tables := [out]\<rparr>)"
proof -
  have s: "\<forall>t \<in> set (l_tables A). sorted_table t" and sub: "mset (concat (l_tables A)) \<subseteq># mset (concat (l_loaded A))"
    using inv by (simp_all add: lsm_inv_def)
  have "map_of out k \<noteq> None" if k: "lasting (concat (l_loaded A)) k" for k
  proof -
    have "first_known (map map_of (l_tables A)) k \<noteq> None" using inv k by (auto simp: lsm_inv_def retained_def)
    then have "\<not> (\<forall>L \<in> set (l_tables A). map_of L k = None)" by (auto simp: first_known_None)
    then obtain L p where p: "L \<in> set (l_tables A)" "map_of L k = Some p" "map_of out k = live p"
      using merges_lookup [OF m s, of k] by (simp only: if_False) blast
    have "(k, p) \<in> set (concat (l_tables A))" using p(1,2) by (auto dest: map_of_SomeD)
    then have "(k, p) \<in> set (concat (l_loaded A))" using sub by (meson mset_subset_eqD set_mset_mset in_multiset_in_set)
    then show ?thesis using k p(3) by (cases p) (simp_all add: live_def lasting_def)
  qed
  then have "retained (A\<lparr>l_tables := [out]\<rparr>)" unfolding retained_def by (fastforce split: option.split)
  then show ?thesis using merges_sorted [OF m s] merges_subset [OF m s] sub by (auto simp: lsm_inv_def)
qed

lemma lsm_step_inv: "lsm_step A l A' \<Longrightarrow> lsm_inv A \<Longrightarrow> lsm_inv A'"
proof (induction rule: lsm_step.induct)
  case (load A g q t)
  then show ?case using lsm_inv_load by blast
next
  case (compact A g q t out)
  from lsm_inv_merge [OF lsm_inv_load [OF compact.prems compact.hyps(2)], of q out] compact.hyps(3) show ?case by simp
qed (simp_all add: lsm_inv_def retained_def)

lemma lsm_view_written:
  assumes "lsm_inv A" "lsm_view A k = Some p"
  shows "(k, p) \<in> set (lsm_writes A)"
proof -
  from first_known_SomeD [OF assms(2) [unfolded lsm_view_def]] obtain m where m: "m k = Some p"
    "m \<in> {last_writes (l_mem A)} \<union> last_writes ` set (l_queue A) \<union> map_of ` set (l_tables A)" by auto
  have "set (concat (l_tables A)) \<subseteq> set (concat (l_loaded A))"
    using assms(1) set_mset_mono [of "mset (concat (l_tables A))" "mset (concat (l_loaded A))"]
    by (simp only: lsm_inv_def set_mset_mset)
  then show ?thesis using m by (auto simp: lsm_writes_def dest!: last_writes_set map_of_SomeD)
qed

lemma lsm_view_known:
  assumes "lsm_inv A" "lasting (lsm_writes A) k"
  shows "lsm_view A k \<noteq> None"
proof
  assume n: "lsm_view A k = None"
  have "k \<notin> fst ` set (l_mem A)" "\<forall>g \<in> set (l_queue A). k \<notin> fst ` set g"
    "first_known (map map_of (l_tables A)) k = None"
    using n by (auto simp: lsm_view_def first_known_append first_known_None last_writes_None split: option.splits)
  moreover have "lasting (concat (l_loaded A)) k"
    using assms(2) calculation(1,2) by (auto simp: lsm_writes_def lasting_def)
  ultimately show False using assms(1) unfolding lsm_inv_def retained_def by blast
qed

text \<open>So a key to which only one payload, a value, was ever written has this value.\<close>

lemma lsm_view_constant:
  assumes "lsm_inv A" "\<forall>p. (k, p) \<in> set (lsm_writes A) \<longrightarrow> p = Some v"
  shows "lsm_view A k = (if k \<in> fst ` set (lsm_writes A) then Some (Some v) else None)"
proof (cases "lsm_view A k")
  case None
  then show ?thesis using lsm_view_known [OF assms(1), of k] assms(2) by (auto simp: lasting_def)
next
  case (Some p)
  moreover from lsm_view_written [OF assms(1) Some] have "k \<in> fst ` set (lsm_writes A)" "p = Some v"
    using assms(2) by force+
  ultimately show ?thesis by simp
qed

end
