(* ===== verification/System.thy ===== *)
theory System
  imports Background Lsm_Spec
begin

text \<open>
  The whole system as a labelled transition system, and its forward simulation by the abstract machine
  of \<open>Lsm_Spec\<close>.  The operating system does not fail in these runs, and its clock advances between two
  new file names.
\<close>

section \<open>Steps\<close>

text \<open>Environments in which nothing fails; \<open>ts\<close> is the time stamp of the new file name.\<close>

definition op_calm :: "nat \<Rightarrow> OpEnv \<Rightarrow> bool" where
  "op_calm ts oe \<longleftrightarrow> full_writes (env_write (oe_first oe)) \<and> full_writes (env_write (oe_second oe)) \<and>
     (\<exists>now. oe_wal oe = Inr (wal_new now (generate_wal_file_name ts)))"

definition flush_calm :: "hasher \<Rightarrow> nat \<Rightarrow> FlushEnv \<Rightarrow> bool" where
  "flush_calm H ts env \<longleftrightarrow> fe_created env = Inr () \<and> full_writes (fe_write env) \<and> (\<forall>p. fe_remove env p = Inr ()) \<and>
     fe_hash env = H \<and> fe_filename env = generate_sstable_file_name ts"

text \<open>The listing of the directory has the tables of the disk and the new one.\<close>

definition load_calm :: "hasher \<Rightarrow> nat \<Rightarrow> CompactionEnv \<Rightarrow> CleanupEnv \<Rightarrow> System \<Rightarrow> bool" where
  "load_calm H ts env cl s \<longleftrightarrow> compaction_calm env \<and> ce_hash env = H \<and> ce_filename env = generate_sstable_file_name ts \<and>
     (\<exists>dir. cl_read_dir cl = Inr (map Inr dir) \<and> (\<forall>n \<in> insert (ce_filename env) (dom (sys_disk s)). (n, True) \<in> set dir)) \<and>
     (\<forall>n. cl_remove cl n = Inr ())"

definition compacts :: "System \<Rightarrow> bool" where
  "compacts s \<longleftrightarrow> sc_compaction_rate (db_sstable_cache (sys_db s)) \<le> Suc (length (sc_cache (db_sstable_cache (sys_db s))))"

definition write_label :: "System \<Rightarrow> bytes \<Rightarrow> bytes option \<Rightarrow> Label" where
  "write_label s k p = (if full (mem_inner (db_memtable (sys_db s))) then Rotated k p else Wrote k p)"

inductive sys_step :: "hasher \<Rightarrow> System \<Rightarrow> Label \<Rightarrow> System \<Rightarrow> bool" for H where
  put: "op_calm ts oe \<Longrightarrow> sys_clock s < ts \<Longrightarrow> db_write oe k p (sys_db s) = Some db' \<Longrightarrow>
     sys_step H s (write_label s k p) (s\<lparr>sys_db := db', sys_clock := ts\<rparr>)"
| get: "full_reads R \<Longrightarrow> db_get H R k (sys_db s) = Some (r, db') \<Longrightarrow>
     sys_step H s (Got k r) (s\<lparr>sys_db := db'\<rparr>)"
| flush: "sys_flush_task s = FlushIdle \<Longrightarrow> recv_flush s = Some (sig, s1) \<Longrightarrow> flush_calm H ts env \<Longrightarrow> sys_clock s < ts \<Longrightarrow>
     flush_memtable env sig s1 = Some s' \<Longrightarrow> sys_step H s Internal (s'\<lparr>sys_clock := ts\<rparr>)"
| load: "sys_load_task s = LoadRunning \<Longrightarrow> recv_signal s = Some (sig, s1) \<Longrightarrow> load_calm H ts env cl s \<Longrightarrow> sys_clock s < ts \<Longrightarrow>
     sstable_background env cl sig s1 = Some s' \<Longrightarrow>
     sys_step H s (if compacts s then Compacted else Internal) (s'\<lparr>sys_clock := ts\<rparr>)"
| ack: "sys_flush_task s = FlushAwaitAck \<Longrightarrow> 0 < sys_acks s \<Longrightarrow>
     sys_step H s Internal (s\<lparr>sys_flush_task := FlushIdle, sys_acks := sys_acks s - 1\<rparr>)"

inductive_cases sys_stepE: "sys_step H s l s'"

section \<open>The relation to the abstract machine\<close>

text \<open>The file of a pending load holds the contents of the oldest table of the queue.\<close>

definition pending_load :: "hasher \<Rightarrow> lsm \<Rightarrow> System \<Rightarrow> bool" where
  "pending_load H A s \<longleftrightarrow> (\<exists>path bs t kps g q. db_signal (sys_db s) = [LoadSSTable path] \<and> sys_disk s path = Some bs \<and>
     sstable_from_fd (file_open bs) = Some (Inr t) \<and> indexed H kps t \<and> l_queue A = g # q \<and> stored g kps)"

definition pipeline :: "hasher \<Rightarrow> lsm \<Rightarrow> System \<Rightarrow> bool" where
  "pipeline H A s \<longleftrightarrow>
     (let ch = length (db_memtable_channel (sys_db s)); im = length (l_queue A) in
      case sys_flush_task s of
        FlushIdle \<Rightarrow> db_signal (sys_db s) = [] \<and> sys_acks s = 0 \<and> ch = im
      | FlushAwaitAck \<Rightarrow> (pending_load H A s \<and> sys_acks s = 0 \<and> Suc ch = im) \<or>
          (db_signal (sys_db s) = [] \<and> sys_acks s = 1 \<and> ch = im)
      | FlushExited \<Rightarrow> False)"

definition db_match :: "hasher \<Rightarrow> lsm \<Rightarrow> LsmliteInner \<Rightarrow> bool" where
  "db_match H A db \<longleftrightarrow> \<not> db_poisoned db \<and> gen_holds (l_mem A) (mem_inner (db_memtable db)) \<and>
     list_all2 gen_holds (l_queue A) (im_table (db_immutable db)) \<and> cache_holds H (l_tables A) (db_sstable_cache db) \<and>
     0 < mem_max_nodes (db_memtable db) \<and> 0 < mem_max_size (db_memtable db) \<and> 0 < db_compaction_cap db \<and>
     set (db_memtable_channel db) \<subseteq> {Flush} \<and> length (db_memtable_channel db) \<le> db_flush_cap db"

definition sys_match :: "hasher \<Rightarrow> lsm \<Rightarrow> System \<Rightarrow> bool" where
  "sys_match H A s \<longleftrightarrow> db_match H A (sys_db s) \<and> sys_load_task s = LoadRunning \<and> pipeline H A s \<and> lsm_inv A \<and>
     finite (dom (sys_disk s))"

lemma db_match_ok: "db_match H A db \<Longrightarrow> db_ok H (l_tables A) db"
  by (auto simp: db_match_def db_ok_def gen_holds_def list_all2_conv_all_nth in_set_conv_nth)

lemma db_match_view: "db_match H A db \<Longrightarrow> db_view (l_tables A) db = lsm_view A"
  using gen_views [of "l_queue A" "im_table (db_immutable db)"]
  by (simp add: db_match_def db_view_def db_layers_def lsm_view_def gen_holds_def flip: rev_map)

lemma sys_match_view: "sys_match H A s \<Longrightarrow> db_view (l_tables A) (sys_db s) = lsm_view A"
  unfolding sys_match_def by (elim conjE) (rule db_match_view)

text \<open>The traces within the bounds of the file format.\<close>

definition in_bounds :: "lsm \<Rightarrow> Label list \<Rightarrow> bool" where
  "in_bounds A ls \<longleftrightarrow> (\<forall>g \<in> set (l_queue A) \<union> set (generations (l_mem A) ls). flushable g) \<and>
     (Compacted \<in> set ls \<longrightarrow> flushable (lsm_writes A @ trace_writes ls))"

lemma in_bounds_step: "in_bounds A (l # ls) \<Longrightarrow> lsm_step A l A' \<Longrightarrow> in_bounds A' ls"
  using lsm_step_writes [of A l A'] by (cases l) (auto simp: in_bounds_def elim!: lsm_stepE)

lemma generations_head: "\<exists>h gs. generations g ls = (g @ h) # gs"
proof (induction g ls rule: generations.induct)
  case (2 g k p ls)
  then show ?case by auto
qed auto

lemma in_bounds_fits:
  assumes b: "in_bounds A (l # ls)" and kp: "(k, p) \<in> set (label_writes l)"
  shows "rec_fits k p"
proof -
  obtain h gs h' gs' where "generations (l_mem A @ [(k, p)]) ls = (l_mem A @ [(k, p)] @ h) # gs"
    "generations [(k, p)] ls = ((k, p) # h') # gs'"
    using generations_head [of "l_mem A @ [(k, p)]" ls] generations_head [of "[(k, p)]" ls] by auto
  then have "\<exists>g \<in> set (generations (l_mem A) (l # ls)). (k, p) \<in> set g" using kp by (cases l) auto
  then show "rec_fits k p" using b flushable_fits by (auto simp: in_bounds_def)
qed

lemma flushable_subset: "flushable kps \<Longrightarrow> mset out \<subseteq># mset kps \<Longrightarrow> flushable out"
proof (erule flushable_mono)
  assume m: "mset out \<subseteq># mset kps"
  show "set out \<subseteq> set kps" using set_mset_mono [OF m] by simp
  show "sum_list (map w out) \<le> sum_list (map w kps)" for w :: "entry \<Rightarrow> nat"
  proof -
    obtain M where "image_mset w (mset kps) = image_mset w (mset out) + M"
      using image_mset_subseteq_mono [OF m, of w] by (auto simp: subset_mset.le_iff_add)
    then show ?thesis by (simp flip: sum_mset_sum_list)
  qed
qed

lemma gen_holds_entries: "gen_holds g t \<Longrightarrow> mset (mt_entries t) \<subseteq># mset g"
proof (rule net_subset)
  assume "gen_holds g t"
  then obtain T es where "mt_wf t T es" "mt_view t = last_writes g" by (auto simp: gen_holds_def mt_inv_def)
  then show "distinct (map fst (mt_entries t))" "map_of (mt_entries t) = last_writes g"
    using mt_wf_distinct mt_wf_entries mt_wf_view by metis+
qed

end
