(* ===== verification/System_Correct.thy ===== *)
theory System_Correct
  imports System
begin

text \<open>
  What each step of the system does to its state, one lemma per kind of step.  \<open>Simulation\<close> and the
  theories after it build on the case distinction at the end.
\<close>

section \<open>A client write\<close>

lemma db_write_eq:
  assumes "\<not> db_poisoned self" "rec_fits k p"
  shows "db_write oe k p self =
    (if full (mem_inner (db_memtable self))
     then do {
       self1 \<leftarrow> rotate_table (oe_wal oe) self;
       r \<leftarrow> write_entry (oe_second oe) k p (mem_inner (db_memtable self1));
       Some (case r of Inr inner \<Rightarrow> self1\<lparr>db_memtable := (db_memtable self1)\<lparr>mem_inner := inner\<rparr>\<rparr> | Inl _ \<Rightarrow> self1)
     }
     else do {
       r \<leftarrow> write_entry (oe_first oe) k p (mem_inner (db_memtable self));
       case r of Inr inner \<Rightarrow> Some (self\<lparr>db_memtable := (db_memtable self)\<lparr>mem_inner := inner\<rparr>\<rparr>) | Inl _ \<Rightarrow> None
     })"
proof (cases "full (mem_inner (db_memtable self))")
  case True
  show ?thesis
  proof (cases "rotate_table (oe_wal oe) self")
    case None
    then show ?thesis using True assms write_entry_full [OF True, of "oe_first oe" k p]
      by (cases p) (simp_all add: db_write_def db_set_def db_delete_def check_poison_flag_def
          mem_write_Some [symmetric] mem_write_None [symmetric] mem_write_def)
  next
    case (Some self1)
    show ?thesis
    proof (cases "write_entry (oe_second oe) k p (mem_inner (db_memtable self1))")
      case None
      then show ?thesis using True Some assms write_entry_full [OF True, of "oe_first oe" k p]
        by (cases p) (simp_all add: db_write_def db_set_def db_delete_def check_poison_flag_def
            mem_write_Some [symmetric] mem_write_None [symmetric] mem_write_def)
    next
      case (Some r)
      then show ?thesis using db_write_rotate [OF assms(1) True \<open>rotate_table (oe_wal oe) self = Some self1\<close>] True
        \<open>rotate_table (oe_wal oe) self = Some self1\<close> by simp
    qed
  qed
next
  case False
  show ?thesis
  proof (cases "write_entry (oe_first oe) k p (mem_inner (db_memtable self))")
    case None
    then show ?thesis using False assms
      by (cases p) (simp_all add: db_write_def db_set_def db_delete_def check_poison_flag_def
          mem_write_Some [symmetric] mem_write_None [symmetric] mem_write_def)
  next
    case (Some r)
    then obtain inner where "r = Inr inner" using write_entry_Inl [OF assms(2)] False by (cases r) auto
    then show ?thesis using Some False db_write_room [OF assms(1)] by simp
  qed
qed

text \<open>The two ways a write succeeds.\<close>

lemma db_write_cases:
  assumes "db_write oe k p self = Some self'" "\<not> db_poisoned self" "rec_fits k p"
    "0 < mem_max_nodes (db_memtable self)" "0 < mem_max_size (db_memtable self)"
  obtains (room) inner where "\<not> full (mem_inner (db_memtable self))"
      "write_entry (oe_first oe) k p (mem_inner (db_memtable self)) = Some (Inr inner)"
      "self' = self\<lparr>db_memtable := (db_memtable self)\<lparr>mem_inner := inner\<rparr>\<rparr>"
    | (rotate) inner w q where "full (mem_inner (db_memtable self))" "oe_wal oe = Inr w"
      "write_entry (oe_second oe) k p (memtable_new (mem_max_size (db_memtable self)) (mem_max_nodes (db_memtable self)) w) = Some (Inr inner)"
      "chan_send (db_flush_cap self) Flush (db_memtable_channel self) = Some q"
      "self' = self\<lparr>db_memtable := (db_memtable self)\<lparr>mem_inner := inner\<rparr>,
         db_immutable := immutable_insert (mem_inner (db_memtable self)) (db_immutable self), db_memtable_channel := q\<rparr>"
proof (cases "full (mem_inner (db_memtable self))")
  case False
  then obtain r where r: "write_entry (oe_first oe) k p (mem_inner (db_memtable self)) = Some r"
    "(case r of Inr inner \<Rightarrow> Some (self\<lparr>db_memtable := (db_memtable self)\<lparr>mem_inner := inner\<rparr>\<rparr>) | Inl _ \<Rightarrow> None) = Some self'"
    using assms(1) by (auto simp: db_write_eq [OF assms(2,3)] bind_eq_Some_conv)
  then show thesis using False by (cases r) (auto intro: room)
next
  case True
  then obtain self1 r where r: "rotate_table (oe_wal oe) self = Some self1"
    "write_entry (oe_second oe) k p (mem_inner (db_memtable self1)) = Some r"
    "self' = (case r of Inr inner \<Rightarrow> self1\<lparr>db_memtable := (db_memtable self1)\<lparr>mem_inner := inner\<rparr>\<rparr> | Inl _ \<Rightarrow> self1)"
    using assms(1) by (auto simp: db_write_eq [OF assms(2,3)] bind_eq_Some_conv)
  from r(1) obtain w q where w: "oe_wal oe = Inr w"
    "chan_send (db_flush_cap self) Flush (db_memtable_channel self) = Some q"
    "self1 = self\<lparr>db_memtable := (db_memtable self)\<lparr>mem_inner := memtable_new (mem_max_size (db_memtable self)) (mem_max_nodes (db_memtable self)) w\<rparr>,
       db_immutable := immutable_insert (mem_inner (db_memtable self)) (db_immutable self), db_memtable_channel := q\<rparr>"
    by (cases "oe_wal oe")
      (auto simp: rotate_table_def Memtable_rotate_def memtable_inner_new_def bind_eq_Some_conv)
  have "\<not> full (mem_inner (db_memtable self1))" using assms(4,5) by (simp add: w(3))
  then obtain inner where i: "r = Inr inner" using r(2) write_entry_Inl [OF assms(3)] by (cases r) auto
  then show thesis using rotate [of w inner q] True w r(2,3) by (simp add: i w(3))
qed

section \<open>A client read\<close>

text \<open>A read moves the positions of the table files and nothing else.\<close>

lemma db_get_cases:
  assumes "db_get H R k db = Some (r, db')" "cache_holds H Ls (db_sstable_cache db)" "full_reads R"
  obtains c where "db' = db\<lparr>db_sstable_cache := c\<rparr>" "cache_holds H Ls c"
    "sc_compaction_rate c = sc_compaction_rate (db_sstable_cache db)"
proof -
  from cache_search_newest [OF assms(2,3), of k] obtain c where
    c: "cache_search H R k (db_sstable_cache db) = Some (cache_answer (newest Ls k), c)" "cache_holds H Ls c"
      "sc_compaction_rate c = sc_compaction_rate (db_sstable_cache db)" by blast
  have "db' = db \<or> db' = db\<lparr>db_sstable_cache := c\<rparr>"
    using assms(1) c(1) by (auto simp: db_get_def bind_eq_Some_conv split: option.splits)
  then show thesis
  proof
    assume "db' = db"
    then show thesis using that [of "db_sstable_cache db"] assms(2) by simp
  next
    assume "db' = db\<lparr>db_sstable_cache := c\<rparr>"
    then show thesis using that c by blast
  qed
qed

section \<open>The flush task\<close>

text \<open>What a flush of the oldest table leaves: its file, and the signal to load it.\<close>

lemma flush_head:
  assumes gen: "gen_holds g inner" and fl: "flushable g" and calm: "flush_calm H ts env"
    and im: "im_table imm = inner # ts'"
  obtains fd t kps where
    "immutable_flush (fe_ln2_hashes env) (fe_hash env) (fe_write env) (fe_remove env) imm file_create =
       Some (Inr (), fd, Some (wal_filename (mt_wal inner)))"
    "sstable_from_fd (file_open (f_data fd)) = Some (Inr t)" "indexed H kps t" "stored g kps"
proof -
  from gen obtain T es where wf: "mt_wf inner T es" by (auto simp: gen_holds_def mt_inv_def)
  have "flushable es" using flushable_subset [OF fl gen_holds_entries [OF gen]] mt_wf_entries [OF wf] by simp
  moreover have W: "full_writes (fe_write env)" and H: "fe_hash env = H" and rm: "\<And>p. fe_remove env p = Inr ()"
    using calm by (simp_all add: flush_calm_def)
  ultimately obtain fd t where f: "write_sstable (fe_ln2_hashes env) H (fe_write env) inner file_create = Some (Inr (), fd)"
    "sstable_from_fd (file_open (f_data fd)) = Some (Inr t)" "indexed H (tree_entries T es) t"
    using flush_indexed [OF wf W] by blast
  have "stored g (tree_entries T es)"
    using mt_wf_tree_entries [OF wf] gen by (simp add: gen_holds_def stored_def sorted_table_def)
  with f that [OF _ f(2,3)] show thesis
    by (simp add: immutable_flush_def im flush_memtable_inner_def flush_to_disk_def H rm)
qed

text \<open>The state after a turn of the flush task.\<close>

definition after_flush :: "string \<Rightarrow> bytes \<Rightarrow> string \<Rightarrow> System \<Rightarrow> System" where
  "after_flush path bs log s = s\<lparr>sys_disk := (sys_disk s)(path \<mapsto> bs), sys_removed := insert log (sys_removed s),
     sys_db := (sys_db s)\<lparr>db_memtable_channel := tl (db_memtable_channel (sys_db s)), db_signal := [LoadSSTable path]\<rparr>,
     sys_flush_task := FlushAwaitAck\<rparr>"

lemma flush_runs:
  assumes m: "sys_match H A s" and idle: "sys_flush_task s = FlushIdle" and recv: "recv_flush s = Some (sig, s1)"
    and calm: "flush_calm H ts env" and fl: "\<forall>g \<in> set (l_queue A). flushable g"
  obtains g q inner rest bs t kps where
    "flush_memtable env sig s1 = Some (after_flush (fe_filename env) bs (wal_filename (mt_wal inner)) s)"
    "db_memtable_channel (sys_db s) \<noteq> []" "db_signal (sys_db s) = []" "sys_acks s = 0"
    "l_queue A = g # q" "im_table (db_immutable (sys_db s)) = inner # rest" "gen_holds g inner"
    "sstable_from_fd (file_open bs) = Some (Inr t)" "indexed H kps t" "stored g kps"
proof -
  from recv obtain ch where ch: "db_memtable_channel (sys_db s) = sig # ch"
    "s1 = s\<lparr>sys_db := (sys_db s)\<lparr>db_memtable_channel := ch\<rparr>\<rparr>"
    by (auto simp: recv_flush_def split: list.splits)
  have sig: "sig = Flush" and p: "db_signal (sys_db s) = []" "sys_acks s = 0" "length (l_queue A) = Suc (length ch)"
    and cap: "0 < db_compaction_cap (sys_db s)" "sys_load_task s = LoadRunning"
    using m idle by (simp_all add: sys_match_def db_match_def pipeline_def ch(1) Let_def)
  obtain g q where q: "l_queue A = g # q" using p(3) by (cases "l_queue A") simp_all
  then obtain inner rest where im: "im_table (db_immutable (sys_db s)) = inner # rest" "gen_holds g inner"
    using m by (auto simp: sys_match_def db_match_def list_all2_Cons1)
  from flush_head [OF im(2) _ calm im(1)] fl q obtain fd t kps where
    f: "immutable_flush (fe_ln2_hashes env) (fe_hash env) (fe_write env) (fe_remove env) (db_immutable (sys_db s)) file_create =
       Some (Inr (), fd, Some (wal_filename (mt_wal inner)))"
    "sstable_from_fd (file_open (f_data fd)) = Some (Inr t)" "indexed H kps t" "stored g kps" by (metis list.set_intros(1))
  have "flush_memtable env sig s1 = Some (after_flush (fe_filename env) (f_data fd) (wal_filename (mt_wal inner)) s)"
    using f(1) calm cap p(1)
    by (simp add: flush_memtable_def sig ch after_flush_def flush_calm_def chan_send_def Let_def)
  from that [OF this _ p(1,2) q im f(2-4)] show thesis using ch(1) by simp
qed

section \<open>The load task\<close>

definition after_load :: "SSTableCache \<Rightarrow> (string \<rightharpoonup> bytes) \<Rightarrow> System \<Rightarrow> System" where
  "after_load c disk s = s\<lparr>sys_db := (sys_db s)\<lparr>db_signal := [], db_sstable_cache := c,
     db_immutable := immutable_pop (db_immutable (sys_db s))\<rparr>, sys_disk := disk, sys_acks := 1\<rparr>"

lemma pending:
  assumes m: "sys_match H A s" and recv: "recv_signal s = Some (sig, s1)"
  obtains path bs t kps g q inner rest where
    "sig = LoadSSTable path" "s1 = s\<lparr>sys_db := (sys_db s)\<lparr>db_signal := []\<rparr>\<rparr>" "sys_disk s path = Some bs"
    "sstable_from_fd (file_open bs) = Some (Inr t)" "indexed H kps t" "l_queue A = g # q" "stored g kps"
    "im_table (db_immutable (sys_db s)) = inner # rest"
    "sys_flush_task s = FlushAwaitAck" "sys_acks s = 0" "db_signal (sys_db s) = [LoadSSTable path]"
proof -
  from recv obtain sq where sq: "db_signal (sys_db s) = sig # sq" "s1 = s\<lparr>sys_db := (sys_db s)\<lparr>db_signal := sq\<rparr>\<rparr>"
    by (auto simp: recv_signal_def split: list.splits)
  have p: "sys_flush_task s = FlushAwaitAck" "pending_load H A s" "sys_acks s = 0"
    using m sq(1) by (auto simp: sys_match_def pipeline_def Let_def split: FlushTask.splits)
  from p(2) obtain path bs t kps g q where l: "db_signal (sys_db s) = [LoadSSTable path]" "sys_disk s path = Some bs"
    "sstable_from_fd (file_open bs) = Some (Inr t)" "indexed H kps t" "l_queue A = g # q" "stored g kps"
    unfolding pending_load_def by blast
  obtain inner rest where "im_table (db_immutable (sys_db s)) = inner # rest"
    using m l(5) by (auto simp: sys_match_def db_match_def list_all2_Cons1)
  with that l sq p show thesis by simp
qed

lemma load_runs:
  assumes m: "sys_match H A s" and recv: "recv_signal s = Some (sig, s1)" and below: "\<not> compacts s"
  obtains path bs t kps g q where
    "sstable_background env cl sig s1 =
       Some (after_load (snd (cache_push t (db_sstable_cache (sys_db s)))) (sys_disk s) s)"
    "sys_flush_task s = FlushAwaitAck" "sys_acks s = 0" "db_signal (sys_db s) = [LoadSSTable path]" "sys_disk s path = Some bs"
    "sstable_from_fd (file_open bs) = Some (Inr t)" "indexed H kps t" "l_queue A = g # q" "stored g kps"
proof -
  from pending [OF m recv] obtain path bs t kps g q inner rest where
    p: "sig = LoadSSTable path" "s1 = s\<lparr>sys_db := (sys_db s)\<lparr>db_signal := []\<rparr>\<rparr>" "sys_disk s path = Some bs"
    "sstable_from_fd (file_open bs) = Some (Inr t)" "indexed H kps t" "l_queue A = g # q" "stored g kps"
    "sys_flush_task s = FlushAwaitAck" "sys_acks s = 0" "db_signal (sys_db s) = [LoadSSTable path]" by metis
  have "sstable_background env cl sig s1 = Some (after_load (snd (cache_push t (db_sstable_cache (sys_db s)))) (sys_disk s) s)"
    using below p(3,4,9)
    by (simp add: sstable_background_def sstable_from_path_def cache_push_def compacts_def after_load_def p(1,2) Let_def)
  from that [OF this p(8,9,10,3-7)] show thesis .
qed

section \<open>Cleaning up after a compaction\<close>

lemma cleanup_loop_absent: "cleanup_loop remove dir np disk = Some disk' \<Longrightarrow> disk n = None \<Longrightarrow> disk' n = None"
proof (induction dir arbitrary: disk)
  case (Cons e dir)
  then show ?case
    by (auto simp: Let_def bind_eq_Some_conv split: if_splits option.splits sum.splits prod.splits)
qed simp

text \<open>Every listed table file goes, except one with the very path of the new table.\<close>

lemma cleanup_loop_deletes:
  "cleanup_loop remove dir np disk = Some disk' \<Longrightarrow> Inr (n, True) \<in> set dir \<Longrightarrow> file_extension n = Some ''sstable'' \<Longrightarrow>
   np \<noteq> dir_entry_path n \<Longrightarrow> disk' n = None"
proof (induction dir arbitrary: disk)
  case (Cons e dir)
  show ?case
  proof (cases "e = Inr (n, True)")
    case True
    then have "cleanup_loop remove dir np (disk(n := None)) = Some disk'"
      using Cons.prems by (simp split: sum.splits)
    then show ?thesis by (rule cleanup_loop_absent) simp
  next
    case False
    then have "Inr (n, True) \<in> set dir" using Cons.prems by auto
    moreover obtain d where "cleanup_loop remove dir np d = Some disk'"
      using Cons.prems(1) by (auto simp: Let_def bind_eq_Some_conv split: if_splits option.splits sum.splits)
    ultimately show ?thesis using Cons.IH Cons.prems by blast
  qed
qed simp

lemma path_of_name_not_listed: "path_of_name n \<noteq> dir_entry_path m"
  by (simp add: path_of_name_def dir_entry_path_def)

lemma cleanup_loop_runs:
  "(\<And>n. remove n = Inr ()) \<Longrightarrow> \<exists>disk'. cleanup_loop remove (map Inr dir) np disk = Some disk'"
  by (induction dir arbitrary: disk) (auto split: option.split)

text \<open>Deleting is all it does.\<close>

lemma cleanup_loop_shrinks: "cleanup_loop remove dir np disk = Some disk' \<Longrightarrow> disk' \<subseteq>\<^sub>m disk"
proof (induction dir arbitrary: disk)
  case (Cons e dir)
  obtain n b where e: "e = Inr (n, b)" using Cons.prems by (cases e) auto
  have "cleanup_loop remove dir np disk = Some disk' \<or> cleanup_loop remove dir np (disk(n := None)) = Some disk'"
    using Cons.prems by (auto simp: e Let_def split: if_splits option.splits sum.splits)
  moreover have "disk(n := None) \<subseteq>\<^sub>m disk" by (simp add: map_le_def)
  ultimately show ?case using Cons.IH map_le_trans by blast
qed simp

lemma compact_runs:
  assumes m: "sys_match H A s" and recv: "recv_signal s = Some (sig, s1)" and reached: "compacts s"
    and calm: "load_calm H ts env cl s" and fl: "flushable (lsm_writes A)"
  obtains path bs t kps g q c disk' out where
    "sstable_background env cl sig s1 = Some (after_load c disk' s)"
    "sys_flush_task s = FlushAwaitAck" "sys_acks s = 0" "db_signal (sys_db s) = [LoadSSTable path]" "sys_disk s path = Some bs"
    "sstable_from_fd (file_open bs) = Some (Inr t)" "indexed H kps t" "l_queue A = g # q" "stored g kps"
    "merges (kps # l_tables A) out" "cache_holds H [out] c" "sc_compaction_rate c = sc_compaction_rate (db_sstable_cache (sys_db s))"
    "\<forall>ts'. disk' (generate_sstable_file_name ts') = None" "finite (dom disk')"
proof -
  from pending [OF m recv] obtain path bs t kps g q inner rest where
    p: "sig = LoadSSTable path" "s1 = s\<lparr>sys_db := (sys_db s)\<lparr>db_signal := []\<rparr>\<rparr>" "sys_disk s path = Some bs"
    "sstable_from_fd (file_open bs) = Some (Inr t)" "indexed H kps t" "l_queue A = g # q" "stored g kps"
    "sys_flush_task s = FlushAwaitAck" "sys_acks s = 0" "db_signal (sys_db s) = [LoadSSTable path]" by metis
  let ?c = "db_sstable_cache (sys_db s)"
  have c: "cache_holds H (l_tables A) ?c" and inv: "lsm_inv A" using m by (simp_all add: sys_match_def db_match_def)
  let ?c1 = "snd (cache_push t ?c)"
  have c1: "cache_holds H (kps # l_tables A) ?c1" using cache_push_holds [OF p(5) c] by simp
  then have "list_all2 (indexed H) (kps # l_tables A) (clone_tables ?c1)" by (simp add: cache_holds_def clone_tables_def)
  from tables_to_iterators_indexed [OF this] obtain its tables where
    its: "tables_to_iterators (ce_spoiled env) (clone_tables ?c1) = Some (its, tables)"
      "list_all2 (\<lambda>it L. yields sstable_next it (recs_of L)) its (kps # l_tables A)" by blast
  have inv1: "lsm_inv (A\<lparr>l_queue := q, l_loaded := l_loaded A @ [g], l_tables := kps # l_tables A\<rparr>)"
    by (rule lsm_inv_load [OF inv p(7)])
  then have sorted: "\<forall>L \<in> set (kps # l_tables A). sorted_table L"
    and sub: "mset (concat (kps # l_tables A)) \<subseteq># mset (concat (l_loaded A @ [g]))" by (simp_all add: lsm_inv_def)
  have "mset (concat (kps # l_tables A)) \<subseteq># mset (lsm_writes A)"
    by (rule subset_mset.order_trans [OF sub]) (simp add: lsm_writes_def p(6))
  then have fl': "flushable (concat (kps # l_tables A))" by (rule flushable_subset [OF fl])
  have cc: "compaction_calm env" and H: "ce_hash env = H" and nm: "ce_filename env = generate_sstable_file_name ts"
    and rm: "\<And>n. cl_remove cl n = Inr ()" using calm by (simp_all add: load_calm_def)
  obtain u out where u: "run_compaction env its = Some (u, ce_filename env, f_data (ss_fd u))"
    "merges (kps # l_tables A) out" "indexed H out u"
    using run_compaction_correct [OF cc its(2) sorted fl'] H by metis
  obtain dir where dir: "cl_read_dir cl = Inr (map Inr dir)"
    "\<forall>n \<in> insert (ce_filename env) (dom (sys_disk s)). (n, True) \<in> set dir" using calm by (auto simp: load_calm_def)
  let ?disk = "(sys_disk s)(ce_filename env \<mapsto> f_data (ss_fd u))"
  obtain disk' where d: "cleanup_loop (cl_remove cl) (map Inr dir) (path_of_name (ce_filename env)) ?disk = Some disk'"
    using cleanup_loop_runs [of "cl_remove cl"] rm by blast
  let ?c2 = "replace_with_compact_table u (?c1\<lparr>sc_cache := tables\<rparr>)"
  have "sstable_background env cl sig s1 = Some (after_load ?c2 disk' s)"
    using reached p(3,4,9) its(1) u(1) d dir(1)
    by (simp add: sstable_background_def sstable_from_path_def cache_push_def compacts_def after_load_def p(1,2) cleanup_def Let_def
        del: tables_to_iterators.simps)
  moreover have "disk' (generate_sstable_file_name ts') = None" for ts'
  proof (cases "generate_sstable_file_name ts' \<in> dom ?disk")
    case True
    then have "Inr (generate_sstable_file_name ts', True) \<in> set (map Inr dir)" using dir(2) by (auto split: if_splits)
    from cleanup_loop_deletes [OF d this sstable_name_extension path_of_name_not_listed] show ?thesis .
  next
    case False
    then show ?thesis using cleanup_loop_absent [OF d] by (metis domIff)
  qed
  moreover have "finite (dom disk')"
    using cleanup_loop_shrinks [OF d] m by (auto simp: sys_match_def intro: finite_subset [OF map_le_implies_dom_le])
  moreover have "cache_holds H [out] ?c2" by (rule cache_replace_holds [OF u(3)])
  moreover have "sc_compaction_rate ?c2 = sc_compaction_rate ?c" by (simp add: replace_with_compact_table_def cache_push_def Let_def)
  ultimately show thesis using that p(3-10) u(2) by blast
qed

text \<open>A compaction ends with the cleanup of the directory.\<close>

lemma background_compacts:
  assumes "sstable_background env cl (LoadSSTable path) s = Some s'"
    and "sc_compaction_rate (db_sstable_cache (sys_db s)) \<le> Suc (length (sc_cache (db_sstable_cache (sys_db s))))"
  obtains dir compact_path disk where "cl_read_dir cl = Inr dir"
    "cleanup_loop (cl_remove cl) dir (path_of_name compact_path) disk = Some (sys_disk s')"
proof -
  let ?c = "db_sstable_cache (sys_db s)" and ?file = "case sys_disk s path of None \<Rightarrow> Inl OsError | Some bs \<Rightarrow> Inr bs"
  obtain t where t: "sstable_from_path ?file = Some (Inr t)"
  proof (cases "sstable_from_path ?file")
    case None
    then show ?thesis using assms(1) by (simp add: sstable_background_def)
  next
    case (Some r)
    then show ?thesis using assms(1) that by (cases r) (simp_all add: sstable_background_def)
  qed
  obtain dir where dir: "cl_read_dir cl = Inr dir"
    using assms t by (cases "cl_read_dir cl")
      (auto simp: sstable_background_def cleanup_def cache_push_def Let_def bind_eq_Some_conv)
  then show thesis
    using assms t that
    by (auto simp: sstable_background_def cleanup_def cache_push_def Let_def bind_eq_Some_conv)
qed

end
