(* ===== verification/Simulation.thy ===== *)
theory Simulation
  imports System_Correct
begin

text \<open>
  The system is simulated by the abstract machine of \<open>Lsm_Spec\<close>, the answers of its reads included.
\<close>

section \<open>The shape of a step\<close>

lemma sys_step_shapes:
  assumes m: "sys_match H A s" and b: "in_bounds A (l # ls)" and st: "sys_step H s l s'"
  obtains (room) k p env inner ts where "l = Wrote k p" "rec_fits k p" "full_writes (env_write env)" "sys_clock s < ts"
      "write_entry env k p (mem_inner (db_memtable (sys_db s))) = Some (Inr inner)"
      "s' = s\<lparr>sys_db := (sys_db s)\<lparr>db_memtable := (db_memtable (sys_db s))\<lparr>mem_inner := inner\<rparr>\<rparr>, sys_clock := ts\<rparr>"
  | (rotate) k p env inner ts now where "l = Rotated k p" "rec_fits k p" "full_writes (env_write env)" "sys_clock s < ts"
      "write_entry env k p (memtable_new (mem_max_size (db_memtable (sys_db s))) (mem_max_nodes (db_memtable (sys_db s)))
         (wal_new now (generate_wal_file_name ts))) = Some (Inr inner)"
      "length (db_memtable_channel (sys_db s)) < db_flush_cap (sys_db s)"
      "s' = s\<lparr>sys_db := (sys_db s)\<lparr>db_memtable := (db_memtable (sys_db s))\<lparr>mem_inner := inner\<rparr>,
         db_immutable := immutable_insert (mem_inner (db_memtable (sys_db s))) (db_immutable (sys_db s)),
         db_memtable_channel := db_memtable_channel (sys_db s) @ [Flush]\<rparr>, sys_clock := ts\<rparr>"
  | (read) k r R c where "l = Got k r" "full_reads R" "db_get H R k (sys_db s) = Some (r, (sys_db s)\<lparr>db_sstable_cache := c\<rparr>)"
      "cache_holds H (l_tables A) c" "s' = s\<lparr>sys_db := (sys_db s)\<lparr>db_sstable_cache := c\<rparr>\<rparr>"
  | (flush) ts bs inner rest g q t kps where "l = Internal" "sys_flush_task s = FlushIdle" "sys_clock s < ts" "sys_acks s = 0"
      "s' = (after_flush (generate_sstable_file_name ts) bs (wal_filename (mt_wal inner)) s)\<lparr>sys_clock := ts\<rparr>"
      "db_memtable_channel (sys_db s) \<noteq> []" "l_queue A = g # q" "im_table (db_immutable (sys_db s)) = inner # rest"
      "sstable_from_fd (file_open bs) = Some (Inr t)" "indexed H kps t" "stored g kps"
  | (load) ts path bs t kps g q where "l = Internal" "sys_clock s < ts"
      "s' = (after_load (snd (cache_push t (db_sstable_cache (sys_db s)))) (sys_disk s) s)\<lparr>sys_clock := ts\<rparr>"
      "sys_flush_task s = FlushAwaitAck" "sys_acks s = 0" "db_signal (sys_db s) = [LoadSSTable path]" "sys_disk s path = Some bs"
      "sstable_from_fd (file_open bs) = Some (Inr t)" "indexed H kps t" "l_queue A = g # q" "stored g kps"
  | (compact) ts kps g q c disk' out where "l = Compacted" "sys_clock s < ts"
      "s' = (after_load c disk' s)\<lparr>sys_clock := ts\<rparr>" "sys_flush_task s = FlushAwaitAck" "sys_acks s = 0"
      "l_queue A = g # q" "stored g kps" "merges (kps # l_tables A) out" "cache_holds H [out] c"
      "\<forall>ts'. disk' (generate_sstable_file_name ts') = None" "finite (dom disk')"
  | (ack) "l = Internal" "sys_flush_task s = FlushAwaitAck" "sys_acks s = 1"
      "s' = s\<lparr>sys_flush_task := FlushIdle, sys_acks := 0\<rparr>"
  using st
proof (cases rule: sys_step.cases)
  case (put ts oe k p db')
  have db: "\<not> db_poisoned (sys_db s)" "0 < mem_max_nodes (db_memtable (sys_db s))" "0 < mem_max_size (db_memtable (sys_db s))"
    using m by (simp_all add: sys_match_def db_match_def)
  have kp: "(k, p) \<in> set (label_writes l)" by (simp add: put(1) write_label_def)
  have fits: "rec_fits k p" by (rule in_bounds_fits [OF b kp])
  from put(3) obtain now where oe: "full_writes (env_write (oe_first oe))" "full_writes (env_write (oe_second oe))"
    "oe_wal oe = Inr (wal_new now (generate_wal_file_name ts))" by (auto simp: op_calm_def)
  from put(5) db(1) fits db(2,3) show thesis
  proof (cases rule: db_write_cases)
    case (room inner)
    then show thesis
      using put(1,2,4) fits oe(1) by (intro that(1) [of k p "oe_first oe" ts inner]) (simp_all add: write_label_def)
  next
    case (rotate inner w q)
    have "q = db_memtable_channel (sys_db s) @ [Flush]" "length (db_memtable_channel (sys_db s)) < db_flush_cap (sys_db s)"
      using rotate(4) by (simp_all add: chan_send_def split: if_splits)
    then show thesis
      using rotate put(1,2,4) fits oe by (intro that(2) [of k p "oe_second oe" ts now inner]) (simp_all add: write_label_def)
  qed
next
  case (get R k r db')
  have "cache_holds H (l_tables A) (db_sstable_cache (sys_db s))" using m by (simp add: sys_match_def db_match_def)
  from db_get_cases [OF get(4) this get(3)] obtain c where "db' = (sys_db s)\<lparr>db_sstable_cache := c\<rparr>" "cache_holds H (l_tables A) c"
    by blast
  then show thesis using get by (intro that(3) [of k r R c]) simp_all
next
  case (flush sig s1 ts env s2)
  have fl: "\<forall>g \<in> set (l_queue A). flushable g" using b by (simp add: in_bounds_def)
  have n: "fe_filename env = generate_sstable_file_name ts" using flush(5) by (simp add: flush_calm_def)
  from flush_runs [OF m flush(3-5) fl] obtain g q inner rest bs t kps where
    f: "flush_memtable env sig s1 = Some (after_flush (fe_filename env) bs (wal_filename (mt_wal inner)) s)"
    "sys_acks s = 0" "db_memtable_channel (sys_db s) \<noteq> []" "l_queue A = g # q" "im_table (db_immutable (sys_db s)) = inner # rest"
    "sstable_from_fd (file_open bs) = Some (Inr t)" "indexed H kps t" "stored g kps" by metis
  then show thesis using that(4) [OF flush(1,3,6) f(2) _ f(3-8)] flush(2,7) by (simp add: n)
next
  case (load sig s1 ts env cl s2)
  show thesis
  proof (cases "compacts s")
    case False
    from load_runs [OF m load(4) False, of env cl] obtain path bs t kps g q where
      r: "sstable_background env cl sig s1 =
        Some (after_load (snd (cache_push t (db_sstable_cache (sys_db s)))) (sys_disk s) s)"
      "sys_flush_task s = FlushAwaitAck" "sys_acks s = 0" "db_signal (sys_db s) = [LoadSSTable path]" "sys_disk s path = Some bs"
      "sstable_from_fd (file_open bs) = Some (Inr t)" "indexed H kps t" "l_queue A = g # q" "stored g kps" by metis
    then show thesis using that(5) [OF _ load(6) _ r(2-9)] load(1,2,7) False by simp
  next
    case True
    then have "flushable (lsm_writes A)"
      using b load(1) flushable_subset [of "lsm_writes A @ trace_writes (l # ls)" "lsm_writes A"] by (simp add: in_bounds_def)
    from compact_runs [OF m load(4) True load(5) this] obtain path bs t kps g q c disk' out where
      r: "sstable_background env cl sig s1 = Some (after_load c disk' s)" "sys_flush_task s = FlushAwaitAck" "sys_acks s = 0"
      "l_queue A = g # q" "stored g kps" "merges (kps # l_tables A) out" "cache_holds H [out] c"
      "\<forall>ts'. disk' (generate_sstable_file_name ts') = None" "finite (dom disk')" by metis
    then show thesis using that(6) [OF _ load(6) _ r(2-9)] load(1,2,7) True by simp
  qed
next
  case ack
  then have "sys_acks s = 1" using m by (auto simp: sys_match_def pipeline_def Let_def)
  then show thesis using ack by (intro that(7)) simp_all
qed

section \<open>Simulation\<close>

lemma pending_load_cong:
  assumes "pending_load H A s" "db_signal (sys_db s') = db_signal (sys_db s)" "sys_disk s' = sys_disk s"
    "\<exists>gs. l_queue A' = l_queue A @ gs"
  shows "pending_load H A' s'"
  using assms unfolding pending_load_def by fastforce

lemma in_tl: "x \<in> set (tl xs) \<Longrightarrow> x \<in> set xs"
  by (cases xs) simp_all

lemma list_all2_tl: "list_all2 P (x # xs) ys \<Longrightarrow> list_all2 P xs (tl ys)"
  by (cases ys) simp_all

text \<open>One lemma per kind of step, with the abstract state it leads to.\<close>

lemma match_room:
  assumes m: "sys_match H A s" and fits: "rec_fits k p"
    and w: "write_entry env k p (mem_inner (db_memtable (sys_db s))) = Some (Inr inner)"
    and s': "s' = s\<lparr>sys_db := (sys_db s)\<lparr>db_memtable := (db_memtable (sys_db s))\<lparr>mem_inner := inner\<rparr>\<rparr>, sys_clock := ts\<rparr>"
  shows "sys_match H (A\<lparr>l_mem := l_mem A @ [(k, p)]\<rparr>) s'"
proof -
  let ?A = "A\<lparr>l_mem := l_mem A @ [(k, p)]\<rparr>"
  have "gen_holds (l_mem ?A) inner"
    using gen_holds_write [OF _ fits w, of "l_mem A"] m by (simp add: sys_match_def db_match_def)
  moreover have "pipeline H ?A s'"
    using m pending_load_cong [of H A s s' ?A] s'
    by (auto simp: sys_match_def pipeline_def Let_def split: FlushTask.splits)
  ultimately show ?thesis using m lsm_step_inv [OF lsm_step.put] by (simp add: s' sys_match_def db_match_def)
qed

lemma match_rotate:
  assumes m: "sys_match H A s" and fits: "rec_fits k p"
    and w: "write_entry env k p (memtable_new ms mn w) = Some (Inr inner)"
    and room: "length (db_memtable_channel (sys_db s)) < db_flush_cap (sys_db s)"
    and s': "s' = s\<lparr>sys_db := (sys_db s)\<lparr>db_memtable := (db_memtable (sys_db s))\<lparr>mem_inner := inner\<rparr>,
         db_immutable := immutable_insert (mem_inner (db_memtable (sys_db s))) (db_immutable (sys_db s)),
         db_memtable_channel := db_memtable_channel (sys_db s) @ [Flush]\<rparr>, sys_clock := ts\<rparr>"
  shows "sys_match H (A\<lparr>l_queue := l_queue A @ [l_mem A], l_mem := [(k, p)]\<rparr>) s'"
proof -
  let ?A = "A\<lparr>l_queue := l_queue A @ [l_mem A], l_mem := [(k, p)]\<rparr>"
  have "gen_holds (l_mem ?A) inner" using gen_holds_write [OF gen_holds_new fits w] by simp
  moreover have "pipeline H ?A s'"
    using m pending_load_cong [of H A s s' ?A] s'
    by (auto simp: sys_match_def pipeline_def Let_def split: FlushTask.splits)
  ultimately show ?thesis using m room lsm_step_inv [OF lsm_step.rotate]
    by (simp add: s' sys_match_def db_match_def immutable_insert_def list_all2_appendI)
qed

lemma match_read:
  assumes m: "sys_match H A s" and c: "cache_holds H (l_tables A) c"
  shows "sys_match H A (s\<lparr>sys_db := (sys_db s)\<lparr>db_sstable_cache := c\<rparr>\<rparr>)" (is "sys_match H A ?s'")
proof -
  have "pipeline H A ?s'"
    using m pending_load_cong [of H A s ?s' A]
    by (auto simp: sys_match_def pipeline_def Let_def split: FlushTask.splits)
  then show ?thesis using m c by (simp add: sys_match_def db_match_def)
qed

lemma match_flush:
  assumes m: "sys_match H A s" and idle: "sys_flush_task s = FlushIdle" and ch: "db_memtable_channel (sys_db s) \<noteq> []"
    and q: "l_queue A = g # q" and f: "sstable_from_fd (file_open bs) = Some (Inr t)" "indexed H kps t" "stored g kps"
  shows "sys_match H A ((after_flush path bs log s)\<lparr>sys_clock := ts\<rparr>)" (is "sys_match H A ?s'")
proof -
  have "pending_load H A ?s'" using f q by (simp add: pending_load_def after_flush_def) blast
  then show ?thesis using m idle ch
    by (cases "db_memtable_channel (sys_db s)") (simp_all add: after_flush_def sys_match_def db_match_def pipeline_def Let_def)
qed

lemma match_load:
  assumes m: "sys_match H A s" and w: "sys_flush_task s = FlushAwaitAck" "sys_acks s = 0"
    and q: "l_queue A = g # q" "indexed H kps t" "stored g kps"
  shows "sys_match H (A\<lparr>l_queue := q, l_loaded := l_loaded A @ [g], l_tables := kps # l_tables A\<rparr>)
    ((after_load (snd (cache_push t (db_sstable_cache (sys_db s)))) (sys_disk s) s)\<lparr>sys_clock := ts\<rparr>)"
proof -
  have c: "cache_holds H (l_tables A) (db_sstable_cache (sys_db s))" using m by (simp add: sys_match_def db_match_def)
  show ?thesis using m w q cache_push_holds [OF q(2) c] lsm_inv_load [of A g kps q, OF _ q(3)]
    by (auto simp: after_load_def sys_match_def db_match_def pipeline_def Let_def immutable_pop_def pending_load_def dest: list_all2_tl)
qed

lemma match_compact:
  assumes m: "sys_match H A s" and w: "sys_flush_task s = FlushAwaitAck" "sys_acks s = 0" "finite (dom disk')"
    and q: "l_queue A = g # q" "stored g kps" "merges (kps # l_tables A) out" "cache_holds H [out] c"
  shows "sys_match H (A\<lparr>l_queue := q, l_loaded := l_loaded A @ [g], l_tables := [out]\<rparr>) ((after_load c disk' s)\<lparr>sys_clock := ts\<rparr>)"
  using m w q lsm_step_inv [OF lsm_step.compact [OF q(1-3)]]
  by (auto simp: after_load_def sys_match_def db_match_def pipeline_def Let_def immutable_pop_def dest: list_all2_tl)

lemma match_ack:
  assumes "sys_match H A s" "sys_flush_task s = FlushAwaitAck" "sys_acks s = 1"
  shows "sys_match H A (s\<lparr>sys_flush_task := FlushIdle, sys_acks := 0\<rparr>)"
  using assms by (auto simp: sys_match_def pipeline_def Let_def)

text \<open>A read of a tidy key has the machine's answer.\<close>

lemma tidy_coherent:
  assumes "db_match H A db" "tidy A k"
  shows "db_coherent k db"
proof -
  have q: "list_all2 gen_holds (l_queue A) (im_table (db_immutable db))" and m: "gen_holds (l_mem A) (mem_inner (db_memtable db))"
    using assms(1) by (simp_all add: db_match_def)
  have "coherent k t" if "t \<in> set (im_table (db_immutable db))" for t
  proof -
    from q that obtain g where "g \<in> set (l_queue A)" "gen_holds g t"
      by (metis in_set_conv_nth list_all2_conv_all_nth)
    then show ?thesis using assms(2) by (auto simp: tidy_def dest: gen_holdsD(3))
  qed
  then show ?thesis using m assms(2) by (auto simp: db_coherent_def tidy_def dest: gen_holdsD(3))
qed

lemma read_answer:
  assumes m: "db_match H A db" and t: "tidy A k" and R: "full_reads R"
  shows "\<exists>db'. db_get H R k db = Some (lsm_get A k, db')"
proof -
  have "mt_view (mem_inner (db_memtable db)) = last_writes (l_mem A)"
    "map mt_view (rev (im_table (db_immutable db))) = map last_writes (rev (l_queue A))"
    using m gen_views [of "l_queue A" "im_table (db_immutable db)"] by (simp_all add: db_match_def gen_holds_def flip: rev_map)
  then show ?thesis
    using db_get_layers [OF db_match_ok [OF m] tidy_coherent [OF m t] R] by (auto simp: lsm_get_def newest_first_known)
qed

lemma read_label:
  assumes "sys_match H A s" "full_reads R" "db_get H R k (sys_db s) = Some (r, db')"
  shows "lsm_step A (Got k r) A"
  using read_answer [of H A "sys_db s" k R] assms by (intro lsm_step.read) (auto simp: sys_match_def)

lemma sys_simulation:
  assumes m: "sys_match H A s" and b: "in_bounds A (l # ls)" and st: "sys_step H s l s'"
  shows "\<exists>A'. lsm_step A l A' \<and> sys_match H A' s'"
  using m b st
proof (cases rule: sys_step_shapes)
  case (room k p env inner ts)
  then show ?thesis using match_room [OF m room(2,5,6)] lsm_step.put by blast
next
  case (rotate k p env inner ts now)
  then show ?thesis using match_rotate [OF m rotate(2,5-7)] lsm_step.rotate by blast
next
  case (read k r R c)
  then show ?thesis using match_read [OF m read(4)] read_label [OF m read(2,3)] by blast
next
  case (flush ts bs inner rest g q t kps)
  then show ?thesis using match_flush [OF m flush(2,6,7,9-11)] lsm_step.idle by blast
next
  case (load ts path bs t kps g q)
  then show ?thesis using match_load [OF m load(4,5,10,9,11)] lsm_step.load [OF load(10,11)] by blast
next
  case (compact ts kps g q c disk' out)
  then show ?thesis using match_compact [OF m compact(4,5,11,6-9)] lsm_step.compact [OF compact(6-8)] by blast
next
  case ack
  then show ?thesis using match_ack [OF m ack(2,3)] lsm_step.idle by blast
qed

interpretation sys: forward_simulation "sys_step H" lsm_step "sys_match H" in_bounds for H
  using sys_simulation in_bounds_step by unfold_locales


section \<open>The queue drains\<close>

text \<open>A step of a background task.\<close>

definition internal :: "hasher \<Rightarrow> System \<Rightarrow> System \<Rightarrow> bool" where
  "internal H s s' \<longleftrightarrow> sys_step H s Internal s' \<or> sys_step H s Compacted s'"

text \<open>Steps the background tasks still have to make.\<close>

definition flush_work :: "System \<Rightarrow> nat" where
  "flush_work s = 3 * length (db_memtable_channel (sys_db s)) +
     (case sys_flush_task s of FlushAwaitAck \<Rightarrow> (if sys_acks s = 0 then 2 else 1) | _ \<Rightarrow> 0)"

text \<open>Everything written so far fits into one table.\<close>

definition drain_match :: "hasher \<Rightarrow> lsm \<Rightarrow> System \<Rightarrow> bool" where
  "drain_match H A s \<longleftrightarrow> sys_match H A s \<and> flushable (lsm_writes A)"

lemma drain_bounds:
  assumes "flushable (lsm_writes A)" "l \<in> {Internal, Compacted}"
  shows "in_bounds A [l]"
proof -
  have "flushable g" if "g \<in> set (l_queue A) \<union> {l_mem A}" for g
  proof -
    have "mset g \<subseteq># mset (lsm_writes A)"
      using that by (auto simp: lsm_writes_def dest!: split_list)
    then show ?thesis by (rule flushable_subset [OF assms(1)])
  qed
  then show ?thesis using assms by (auto simp: in_bounds_def)
qed

lemma internal_step:
  assumes st: "internal H s s'" and dm: "drain_match H A s"
  shows "flush_work s' < flush_work s" "\<exists>A'. drain_match H A' s' \<and> lsm_writes A' = lsm_writes A"
proof -
  from st obtain l where l: "sys_step H s l s'" "l \<in> {Internal, Compacted}" by (auto simp: internal_def)
  have m: "sys_match H A s" and b: "in_bounds A [l]" using dm drain_bounds [OF _ l(2)] by (simp_all add: drain_match_def)
  from m b l(1) show "flush_work s' < flush_work s"
  proof (cases rule: sys_step_shapes)
    case (flush ts bs inner rest g q t kps)
    then show ?thesis by (cases "db_memtable_channel (sys_db s)") (simp_all add: flush_work_def after_flush_def)
  qed (use l(2) in \<open>simp_all add: flush_work_def after_load_def\<close>)
  from sys_simulation [OF m b l(1)] obtain A' where A': "lsm_step A l A'" "sys_match H A' s'" by blast
  moreover have "lsm_writes A' = lsm_writes A" using lsm_step_writes [OF A'(1)] l(2) by auto
  ultimately show "\<exists>A'. drain_match H A' s' \<and> lsm_writes A' = lsm_writes A" using dm by (auto simp: drain_match_def)
qed

lemma calm_flush_env: "\<exists>env. flush_calm H ts env"
  by (intro exI [of _ "\<lparr>fe_filename = generate_sstable_file_name ts, fe_created = Inr (), fe_write = \<lambda>_ buf. Inr (length buf),
      fe_remove = \<lambda>_. Inr (), fe_hash = H, fe_ln2_hashes = \<lambda>_ _. 0\<rparr>"]) (simp add: flush_calm_def full_writes_def)

lemma calm_load_env:
  assumes "finite (dom (sys_disk s))"
  shows "\<exists>env cl. load_calm H ts env cl s"
proof -
  obtain ns where ns: "set ns = insert (generate_sstable_file_name ts) (dom (sys_disk s))"
    using assms finite_list [of "insert (generate_sstable_file_name ts) (dom (sys_disk s))"] by auto
  let ?env = "\<lparr>ce_filename = generate_sstable_file_name ts, ce_created = Inr (), ce_open = Inr, ce_write = \<lambda>_ b. Inr (length b),
    ce_grow = \<lambda>c n. max (2 * c) n, ce_hash = H, ce_ln2_hashes = \<lambda>_ _. 1, ce_spoiled = \<lambda>n. []\<rparr>"
  let ?cl = "\<lparr>cl_read_dir = Inr (map Inr (map (\<lambda>n. (n, True)) ns)), cl_remove = \<lambda>_. Inr ()\<rparr>"
  have "load_calm H ts ?env ?cl s"
    unfolding load_calm_def using ns
    by (intro conjI exI [of _ "map (\<lambda>n. (n, True)) ns"]) (auto simp: compaction_calm_def full_writes_def)
  then show ?thesis by blast
qed


text \<open>A pending load can be carried out, with a compaction when the cache is full.\<close>

lemma load_progress:
  assumes m: "sys_match H A s" and fl: "flushable (lsm_writes A)" and w: "sys_flush_task s = FlushAwaitAck" "sys_acks s = 0"
  shows "\<exists>s'. sys_step H s (if compacts s then Compacted else Internal) s'"
proof -
  have "pending_load H A s" using m w by (simp add: sys_match_def pipeline_def Let_def)
  then obtain sig s1 where recv: "recv_signal s = Some (sig, s1)" by (auto simp: pending_load_def recv_signal_def)
  have run: "sys_load_task s = LoadRunning" "finite (dom (sys_disk s))" using m by (simp_all add: sys_match_def)
  obtain env cl where env: "load_calm H (Suc (sys_clock s)) env cl s" using calm_load_env [OF run(2)] by blast
  have "\<exists>s'. sstable_background env cl sig s1 = Some s'"
    using load_runs [OF m recv, of env cl] compact_runs [OF m recv _ env fl] by metis
  then obtain s' where "sstable_background env cl sig s1 = Some s'" by blast
  from sys_step.load [OF run(1) recv env _ this] show ?thesis by auto
qed

text \<open>A background task can move as long as a table waits.\<close>

lemma internal_progress:
  assumes dm: "drain_match H A s" and ne: "im_table (db_immutable (sys_db s)) \<noteq> []"
  shows "\<exists>s'. internal H s s'"
proof -
  have m: "sys_match H A s" and fl: "flushable (lsm_writes A)" using dm by (simp_all add: drain_match_def)
  have q: "l_queue A \<noteq> []" using m ne by (auto simp: sys_match_def db_match_def)
  show ?thesis
  proof (cases "sys_flush_task s")
    case FlushIdle
    then have "length (db_memtable_channel (sys_db s)) = length (l_queue A)"
      using m by (simp add: sys_match_def pipeline_def Let_def)
    then obtain sig s1 where recv: "recv_flush s = Some (sig, s1)"
      using q by (cases "db_memtable_channel (sys_db s)") (auto simp: recv_flush_def)
    obtain env where env: "flush_calm H (Suc (sys_clock s)) env" using calm_flush_env by blast
    have "\<forall>g \<in> set (l_queue A). flushable g" using drain_bounds [OF fl, of Internal] by (simp add: in_bounds_def)
    from flush_runs [OF m FlushIdle recv env this] obtain s' where "flush_memtable env sig s1 = Some s'" by metis
    then show ?thesis using sys_step.flush [OF FlushIdle recv env] by (auto simp: internal_def)
  next
    case FlushAwaitAck
    show ?thesis
    proof (cases "sys_acks s = 0")
      case True
      from load_progress [OF m fl FlushAwaitAck True] show ?thesis by (auto simp: internal_def split: if_splits)
    next
      case False
      then show ?thesis using sys_step.ack [OF FlushAwaitAck, of H] by (auto simp: internal_def)
    qed
  next
    case FlushExited
    then show ?thesis using m by (simp add: sys_match_def pipeline_def Let_def)
  qed
qed

lemma internal_runs:
  "((internal H) ^^ n) s s' \<Longrightarrow> drain_match H A s \<Longrightarrow>
   n + flush_work s' \<le> flush_work s \<and> (\<exists>A'. drain_match H A' s' \<and> lsm_writes A' = lsm_writes A)"
proof (induction n arbitrary: s')
  case 0
  then show ?case by auto
next
  case (Suc n)
  then obtain s1 where s1: "((internal H) ^^ n) s s1" "internal H s1 s'" by auto
  from Suc.IH [OF s1(1) Suc.prems(2)] obtain A1 where
    A1: "n + flush_work s1 \<le> flush_work s" "drain_match H A1 s1" "lsm_writes A1 = lsm_writes A" by blast
  with internal_step [OF s1(2) A1(2)] show ?case by auto
qed

lemma drain_exists:
  "drain_match H A s \<Longrightarrow> \<exists>n s'. ((internal H) ^^ n) s s' \<and> im_table (db_immutable (sys_db s')) = []"
proof (induction "flush_work s" arbitrary: s A rule: less_induct)
  case less
  show ?case
  proof (cases "im_table (db_immutable (sys_db s)) = []")
    case True
    then show ?thesis by (intro exI [of _ 0] exI [of _ s]) simp
  next
    case False
    from internal_progress [OF less.prems False] obtain s1 where s1: "internal H s s1" by blast
    from internal_step(2) [OF s1 less.prems] obtain A1 where "drain_match H A1 s1" by blast
    with less.hyps [of s1 A1] internal_step(1) [OF s1 less.prems] obtain n s' where
      "((internal H) ^^ n) s1 s'" "im_table (db_immutable (sys_db s')) = []" by auto
    then show ?thesis using s1 relpowp_Suc_I2 [of "internal H" s s1 n s'] by blast
  qed
qed

end
