(* ===== verification/Restart_Correct.thy ===== *)
theory Restart_Correct
  imports Database
begin

text \<open>
  Opening a database from the files of an earlier run: the directory scan of \<open>Restart\<close> composed with the
  construction of \<open>Database\<close>.
\<close>

section \<open>Logs and table files on disk\<close>

text \<open>A log that holds the writes \<open>kps\<close> of some table with these limits.\<close>

definition log_holds :: "LsmliteConfig \<Rightarrow> (string \<Rightarrow> RecoverEnv) \<Rightarrow> string \<Rightarrow> entry list \<Rightarrow> bool" where
  "log_holds config fs name kps \<longleftrightarrow>
     (\<exists>w0 t w. written (unat (cf_max_memtable_size config)) (unat (cf_max_memtable_nodes config)) w0 kps t \<and>
       length (enc_blobs kps) < 2 ^ 63 \<and> re_file (fs name) = Inr (enc_blobs kps) \<and>
       re_new_wal (fs name) = Inr w \<and> re_remove (fs name) = Inr ())"

definition file_holds :: "hasher \<Rightarrow> (string \<Rightarrow> io_error + bytes) \<Rightarrow> string \<Rightarrow> entry list \<Rightarrow> bool" where
  "file_holds H files name L \<longleftrightarrow>
     (\<exists>bs t. files name = Inr bs \<and> sstable_from_fd (file_open bs) = Some (Inr t) \<and> indexed H L t)"

lemma log_recovers:
  assumes "log_holds config fs name kps"
  shows "\<exists>t. from_wal (fs name) (unat (cf_max_memtable_size config)) (unat (cf_max_memtable_nodes config)) = Some (Inr t, True) \<and>
    gen_holds kps t"
proof -
  from assms obtain w0 t w where
    wr: "written (unat (cf_max_memtable_size config)) (unat (cf_max_memtable_nodes config)) w0 kps t"
    and f: "length (enc_blobs kps) < 2 ^ 63" "re_file (fs name) = Inr (enc_blobs kps)"
      "re_new_wal (fs name) = Inr w" "re_remove (fs name) = Inr ()" unfolding log_holds_def by blast
  show ?thesis using from_wal_written [OF wr f] written_gen_holds [OF wr] by simp
qed

lemma logs_recover:
  assumes "\<forall>ts \<in> set W. log_holds config fs (generate_wal_file_name ts) (K ts)"
  shows "\<exists>tables. read_immutable_tables fs (map log_artifact W) config = Some tables \<and>
    list_all2 gen_holds (map K W) tables"
  using assms
proof (induction W)
  case Nil
  then show ?case by simp
next
  case (Cons ts W)
  then obtain tables where t: "read_immutable_tables fs (map log_artifact W) config = Some tables"
    "list_all2 gen_holds (map K W) tables" by auto
  from Cons.prems log_recovers [of config fs "generate_wal_file_name ts" "K ts"] obtain t where
    "from_wal (fs (generate_wal_file_name ts)) (unat (cf_max_memtable_size config)) (unat (cf_max_memtable_nodes config)) = Some (Inr t, True)"
    "gen_holds (K ts) t" by auto
  moreover have "wa_filename (log_artifact ts) = generate_wal_file_name ts" by (simp add: log_artifact_def)
  ultimately show ?case using t by (intro exI [of _ "t # tables"]) (simp add: load_immutable_memtable_worker_def)
qed

lemma construct_memtable_log:
  assumes "log_holds config fs (wa_filename a) kps"
  shows "\<exists>m. construct_memtable fs w (Some a) config = Some m \<and> gen_holds kps (mem_inner m) \<and>
    mem_max_size m = unat (cf_max_memtable_size config) \<and> mem_max_nodes m = unat (cf_max_memtable_nodes config)"
  using log_recovers [OF assms] by (auto simp: construct_memtable_def Memtable_new_from_wal_def)

lemma construct_sstable_cache_files:
  assumes "\<forall>ts \<in> set S. file_holds H files (generate_sstable_file_name ts) (L ts)"
  shows "\<exists>c. construct_sstable_cache files (map table_artifact S) config = Some c \<and> cache_holds H (map L S) c"
proof (cases S)
  case Nil
  then show ?thesis using cache_new_holds by (simp add: construct_sstable_cache_def)
next
  case (Cons ts S')
  have "list_all2 (\<lambda>L c. \<exists>bs t. c = Inr bs \<and> sstable_from_fd (file_open bs) = Some (Inr t) \<and> indexed H L t)
      (map L S) (map (\<lambda>a. files (sa_filename a)) (map table_artifact S))"
    using assms by (auto simp: list_all2_conv_all_nth file_holds_def table_artifact_def)
  from load_tables_holds [OF this] obtain tables where
    "load_tables (map (\<lambda>a. files (sa_filename a)) (map table_artifact S)) = Some tables"
    "list_all2 (indexed H) (map L S) tables" by blast
  then have "construct_sstable_cache files (map table_artifact S) config =
      Some \<lparr>sc_cache = tables, sc_compaction_rate = unat (cf_compaction_rate config)\<rparr>"
    "cache_holds H (map L S) \<lparr>sc_cache = tables, sc_compaction_rate = unat (cf_compaction_rate config)\<rparr>"
    using Cons by (simp_all add: construct_sstable_cache_def cache_from_restart_def cache_holds_def del: load_tables.simps)
  then show ?thesis by blast
qed

section \<open>The whole construction\<close>

lemma immutable_new_logs:
  assumes "\<forall>ts \<in> set W. log_holds config fs (generate_wal_file_name ts) (K ts)" and "length W \<le> cap"
  shows "\<exists>imm. immutable_new fs (map log_artifact W) config cap = Some (imm, replicate (length W) Flush) \<and>
    list_all2 gen_holds (map K W) (im_table imm)"
proof (cases "W = []")
  case True
  then show ?thesis by (simp add: immutable_new_def immutable_new_empty_def)
next
  case False
  then show ?thesis using logs_recover [OF assms(1)] assms(2) by (auto simp: immutable_new_def send_flushes_eq)
qed

text \<open>
  A database made from the logs \<open>W\<close> with the histories \<open>K\<close>: the last log is the memtable, the others are
  the queue, with a flush pending for each.
\<close>

definition reopened :: "LsmliteConfig \<Rightarrow> nat list \<Rightarrow> (nat \<Rightarrow> entry list) \<Rightarrow> LsmliteInner \<Rightarrow> bool" where
  "reopened config W K db \<longleftrightarrow>
     gen_holds (if W = [] then [] else K (last W)) (mem_inner (db_memtable db)) \<and>
     list_all2 gen_holds (map K (butlast W)) (im_table (db_immutable db)) \<and>
     db_memtable_channel db = replicate (length W - 1) Flush \<and> db_signal db = [] \<and>
     mem_max_size (db_memtable db) = unat (cf_max_memtable_size config) \<and>
     mem_max_nodes (db_memtable db) = unat (cf_max_memtable_nodes config) \<and>
     db_flush_cap db = unat (cf_memtable_flush_queue_size config) \<and>
     db_compaction_cap db = unat (cf_compaction_queue_size config)"

lemma lsmlite_new_restores:
  assumes S: "\<forall>ts \<in> set S. file_holds H files (generate_sstable_file_name ts) (L ts)"
    and W: "\<forall>ts \<in> set W. log_holds config fs (generate_wal_file_name ts) (K ts)"
    and cap: "0 < unat (cf_compaction_queue_size config)" "0 < unat (cf_memtable_flush_queue_size config)"
      "length W \<le> Suc (unat (cf_memtable_flush_queue_size config))"
  shows "\<exists>db. lsmlite_new fs files (Inr w) (map table_artifact S) (map log_artifact W) config = Some db \<and>
    db_ok H (map L S) db \<and> reopened config W K db \<and>
    db_view (map L S) db = first_known (map (last_writes \<circ> K) (rev W) @ map (map_of \<circ> L) S)"
proof -
  from construct_sstable_cache_files [OF S, of config] obtain c where
    c: "construct_sstable_cache files (map table_artifact S) config = Some c" "cache_holds H (map L S) c" by blast
  show ?thesis
  proof (cases W rule: rev_cases)
    case Nil
    let ?m = "memtable_new (unat (cf_max_memtable_size config)) (unat (cf_max_memtable_nodes config)) w"
    have m: "first_known (Map.empty # ms) = first_known ms" for ms by (rule ext) simp
    show ?thesis using c cap Nil
      by (simp add: lsmlite_new_def construct_memtable_def Memtable_new_def memtable_inner_new_def immutable_new_def
          immutable_new_empty_def db_ok_def db_view_def db_layers_def reopened_def m gen_holds_new)
  next
    case (snoc W' ts)
    have "length W' \<le> unat (cf_memtable_flush_queue_size config)" using cap(3) snoc by simp
    moreover have "\<forall>ts \<in> set W'. log_holds config fs (generate_wal_file_name ts) (K ts)" using W snoc by simp
    ultimately obtain imm where
      imm: "immutable_new fs (map log_artifact W') config (unat (cf_memtable_flush_queue_size config)) = Some (imm, replicate (length W') Flush)"
      "list_all2 gen_holds (map K W') (im_table imm)"
      using immutable_new_logs by blast
    have inv: "\<forall>t \<in> set (im_table imm). mt_inv t"
      using imm(2) by (auto simp: list_all2_conv_all_nth in_set_conv_nth dest!: gen_holdsD(1))
    have "log_holds config fs (wa_filename (log_artifact ts)) (K ts)" using W snoc by (simp add: log_artifact_def)
    from construct_memtable_log [OF this, of "Inr w"] obtain m where
      m: "construct_memtable fs (Inr w) (Some (log_artifact ts)) config = Some m" "gen_holds (K ts) (mem_inner m)"
      "mem_max_size m = unat (cf_max_memtable_size config)"
      "mem_max_nodes m = unat (cf_max_memtable_nodes config)" by blast
    show ?thesis using c cap imm inv m snoc gen_views [OF imm(2)] gen_holdsD(1,2) [OF m(2)]
      by (simp add: lsmlite_new_def reopened_def db_ok_def db_view_def db_layers_def flip: rev_map)
  qed
qed


text \<open>The scan of a directory and the construction on what it finds.\<close>

lemma open_directory:
  assumes "\<forall>ts \<in> set S \<union> set W. ts < 2 ^ 128" "\<forall>n \<in> set Os. database_file_from_path n = None"
    and "mset names = mset (map generate_sstable_file_name S @ map generate_wal_file_name W @ Os)"
    and "\<forall>ts \<in> set S. file_holds H files (generate_sstable_file_name ts) (L ts)"
    and "\<forall>ts \<in> set W. log_holds config fs (generate_wal_file_name ts) (K ts)"
    and "0 < unat (cf_compaction_queue_size config)" "0 < unat (cf_memtable_flush_queue_size config)"
      "length W \<le> Suc (unat (cf_memtable_flush_queue_size config))"
  shows "\<exists>ss ws db. scan_directory (map Inr names) = Some (ss, ws) \<and>
    lsmlite_new fs files (Inr w) ss ws config = Some db \<and> db_ok H (map L (rev (sort S))) db \<and> reopened config (sort W) K db \<and>
    db_view (map L (rev (sort S))) db =
      first_known (map (last_writes \<circ> K) (rev (sort W)) @ map (map_of \<circ> L) (rev (sort S)))"
proof -
  have "\<forall>ts \<in> set (rev (sort S)). file_holds H files (generate_sstable_file_name ts) (L ts)"
    "\<forall>ts \<in> set (sort W). log_holds config fs (generate_wal_file_name ts) (K ts)"
    "length (sort W) \<le> Suc (unat (cf_memtable_flush_queue_size config))" using assms(4,5,8) by simp_all
  from lsmlite_new_restores [OF this(1,2) assms(6,7) this(3), of w] scan_directory_generated [OF assms(1-3)]
  show ?thesis by simp
qed

end
