(* ===== verification/Crash.thy ===== *)
theory Crash
  imports Simulation Restart_Correct "HOL-Library.Sublist"
begin

text \<open>
  Crashes.  When the process stops, the files are left: the SSTables on disk and what has reached the
  logs of the memtables.  A log that the flush task has deleted is gone; what is still in a log buffer
  is lost.
\<close>

section \<open>What a crash leaves\<close>

definition crash_logs :: "System \<Rightarrow> (string \<times> bytes) list" where
  "crash_logs s = filter (\<lambda>(n, _). n \<notin> sys_removed s)
     (map (\<lambda>t. (wal_filename (mt_wal t), f_data (wal_fd (mt_wal t))))
        (im_table (db_immutable (sys_db s)) @ [mem_inner (db_memtable (sys_db s))]))"

text \<open>The files as a restart reads them; \<open>w\<close> are the logs it creates.\<close>

definition crash_files :: "System \<Rightarrow> string \<Rightarrow> io_error + bytes" where
  "crash_files s n = (case sys_disk s n of None \<Rightarrow> Inl OsError | Some bs \<Rightarrow> Inr bs)"

definition crash_fs :: "(string \<Rightarrow> Wal) \<Rightarrow> System \<Rightarrow> string \<Rightarrow> RecoverEnv" where
  "crash_fs w s n = \<lparr>re_file = (case map_of (crash_logs s) n of None \<Rightarrow> Inl OsError | Some bs \<Rightarrow> Inr bs),
     re_new_wal = Inr (w n), re_remove = Inr ()\<rparr>"

section \<open>The files of a running system\<close>

lemma written_name: "written ms mn w0 kps t \<Longrightarrow> wal_filename (mt_wal t) = wal_filename w0"
proof (induction rule: written.induct)
  case fresh
  then show ?case by simp
next
  case (store kps self env k p self')
  have "wal_filename (write_log env b w) = wal_filename w" for b w
    by (simp add: write_log_def wal_flush_def Let_def)
  then show ?case using write_entry_replays(2) [OF store.hyps(3,4)] store.IH by simp
qed

definition logged :: "nat \<Rightarrow> nat \<Rightarrow> nat \<Rightarrow> entry list \<Rightarrow> MemtableInner \<Rightarrow> bool" where
  "logged ms mn ts g t \<longleftrightarrow> (\<exists>now. written ms mn (wal_new now (generate_wal_file_name ts)) g t)"

lemma logged_name: "logged ms mn ts g t \<Longrightarrow> wal_filename (mt_wal t) = generate_wal_file_name ts"
  by (auto simp: logged_def wal_new_def dest!: written_name)

lemma logged_write:
  "logged ms mn ts g t \<Longrightarrow> full_writes (env_write env) \<Longrightarrow> rec_fits k p \<Longrightarrow> write_entry env k p t = Some (Inr t') \<Longrightarrow>
   logged ms mn ts (g @ [(k, p)]) t'"
  by (auto simp: logged_def intro: written.store)

lemma logged_new: "logged ms mn ts [] (memtable_new ms mn (wal_new now (generate_wal_file_name ts)))"
  by (auto simp: logged_def intro: written.fresh)

lemma show_nat_inj: "show_nat m = show_nat n \<Longrightarrow> m = n"
  using digits_value_show by metis

lemma names_inj:
  "generate_wal_file_name m = generate_wal_file_name n \<longleftrightarrow> m = n"
  "generate_sstable_file_name m = generate_sstable_file_name n \<longleftrightarrow> m = n"
  by (auto simp: generate_wal_file_name_def generate_sstable_file_name_def dest: show_nat_inj)

text \<open>The oldest table of the queue is on disk already when its load is pending.\<close>

definition awaiting :: "System \<Rightarrow> bool" where
  "awaiting s \<longleftrightarrow> sys_flush_task s = FlushAwaitAck \<and> sys_acks s = 0"

definition flushed :: "lsm \<Rightarrow> System \<Rightarrow> entry list list" where
  "flushed A s = (if awaiting s then take 1 (l_queue A) else [])"

definition table_file :: "hasher \<Rightarrow> (string \<rightharpoonup> bytes) \<Rightarrow> nat \<Rightarrow> entry list \<Rightarrow> bool" where
  "table_file H disk ts g \<longleftrightarrow> (\<exists>L bs t. stored g L \<and> disk (generate_sstable_file_name ts) = Some bs \<and>
     sstable_from_fd (file_open bs) = Some (Inr t) \<and> indexed H L t)"

text \<open>Time stamps in the order of creation, up to the clock.\<close>

definition stamps :: "nat list \<Rightarrow> nat \<Rightarrow> bool" where
  "stamps W c \<longleftrightarrow> sorted_wrt (<) W \<and> (\<forall>x \<in> set W. x \<le> c)"

lemma stamps_later: "stamps W c \<Longrightarrow> c < c' \<Longrightarrow> stamps W c'"
  by (auto simp: stamps_def)

lemma stamps_snoc: "stamps W c \<Longrightarrow> c < ts \<Longrightarrow> stamps (W @ [ts]) ts"
  by (auto simp: stamps_def sorted_wrt_append)

lemma stamps_tl: "stamps W c \<Longrightarrow> stamps (tl W) c"
  by (cases W) (simp_all add: stamps_def)

definition tables_at :: "hasher \<Rightarrow> nat list \<Rightarrow> (string \<rightharpoonup> bytes) \<Rightarrow> entry list list \<Rightarrow> bool" where
  "tables_at H S disk gs \<longleftrightarrow> dom disk = generate_sstable_file_name ` set S \<and> list_all2 (table_file H disk) S gs"

lemma tables_at_snoc:
  assumes "tables_at H S disk gs" "stamps S c" "c < ts" "table_file H (disk(generate_sstable_file_name ts \<mapsto> bs)) ts g"
  shows "tables_at H (S @ [ts]) (disk(generate_sstable_file_name ts \<mapsto> bs)) (gs @ [g])"
proof -
  let ?d = "disk(generate_sstable_file_name ts \<mapsto> bs)"
  have "table_file H ?d x y" if "x \<in> set S" "table_file H disk x y" for x y
    using that assms(2,3) by (auto simp: table_file_def names_inj stamps_def)
  moreover have "list_all2 (table_file H disk) S gs" using assms(1) by (simp add: tables_at_def)
  ultimately have "list_all2 (table_file H ?d) S gs" by (auto simp: list_all2_conv_all_nth)
  then show ?thesis using assms(1,4) by (auto simp: tables_at_def list_all2_appendI)
qed

text \<open>The logs with time stamps \<open>W\<close> belong to the tables \<open>ts\<close> with the histories \<open>gs\<close>.\<close>

definition logs_at :: "nat \<Rightarrow> nat \<Rightarrow> nat list \<Rightarrow> entry list list \<Rightarrow> MemtableInner list \<Rightarrow> bool" where
  "logs_at ms mn W gs ts \<longleftrightarrow> length W = length gs \<and> length gs = length ts \<and>
     (\<forall>i < length W. logged ms mn (W ! i) (gs ! i) (ts ! i))"

lemma logs_at_snoc: "logs_at ms mn (W @ [w]) (gs @ [g]) (ts @ [t]) \<longleftrightarrow> logs_at ms mn W gs ts \<and> logged ms mn w g t"
  by (auto simp: logs_at_def nth_append less_Suc_eq)

lemma logs_at_Cons: "logs_at ms mn (w # W) (g # gs) (t # ts) \<longleftrightarrow> logged ms mn w g t \<and> logs_at ms mn W gs ts"
  by (auto simp: logs_at_def less_Suc_eq_0_disj)

lemma logs_at_snocD: "logs_at ms mn W (gs @ [g]) ts \<Longrightarrow> \<exists>V w. W = V @ [w]"
  by (cases W rule: rev_cases) (auto simp: logs_at_def)

lemma logs_at_ConsD: "logs_at ms mn W (g # gs) ts \<Longrightarrow> \<exists>w V. W = w # V"
  by (cases W) (auto simp: logs_at_def)

text \<open>The first \<open>n\<close> logs have been deleted, the others not.\<close>

definition deleted :: "nat \<Rightarrow> nat list \<Rightarrow> string set \<Rightarrow> nat \<Rightarrow> bool" where
  "deleted n W R c \<longleftrightarrow> R \<subseteq> generate_wal_file_name ` {..c} \<and>
     (\<forall>x \<in> set (take n W). generate_wal_file_name x \<in> R) \<and> (\<forall>x \<in> set (drop n W). generate_wal_file_name x \<notin> R)"

lemma deleted_later: "deleted n W R c \<Longrightarrow> c < c' \<Longrightarrow> deleted n W R c'"
  by (auto simp: deleted_def)

lemma deleted_snoc: "deleted n W R c \<Longrightarrow> c < ts \<Longrightarrow> n \<le> length W \<Longrightarrow> deleted n (W @ [ts]) R ts"
  by (auto simp: deleted_def names_inj)

lemma deleted_first:
  "deleted 0 (w # W) R c \<Longrightarrow> stamps (w # W) c \<Longrightarrow> deleted 1 (w # W) (insert (generate_wal_file_name w) R) c"
  by (auto simp: deleted_def stamps_def names_inj)

lemma deleted_tl: "deleted 1 W R c \<Longrightarrow> deleted 0 (tl W) R c"
  by (cases W) (auto simp: deleted_def)

text \<open>
  \<open>S\<close> are the time stamps of the tables on disk, \<open>W\<close> those of the logs of the queue and of the memtable,
  both oldest first.
\<close>

definition files_at :: "hasher \<Rightarrow> nat \<Rightarrow> nat \<Rightarrow> nat \<Rightarrow> nat list \<Rightarrow> nat list \<Rightarrow> lsm \<Rightarrow> System \<Rightarrow> bool" where
  "files_at H ms mn cap S W A s \<longleftrightarrow> stamps S (sys_clock s) \<and> stamps W (sys_clock s) \<and>
     tables_at H S (sys_disk s) (l_loaded A @ flushed A s) \<and>
     logs_at ms mn W (l_queue A @ [l_mem A]) (im_table (db_immutable (sys_db s)) @ [mem_inner (db_memtable (sys_db s))]) \<and>
     deleted (length (flushed A s)) W (sys_removed s) (sys_clock s) \<and>
     mem_max_size (db_memtable (sys_db s)) = ms \<and> mem_max_nodes (db_memtable (sys_db s)) = mn \<and> db_flush_cap (sys_db s) = cap"

definition crash_match :: "hasher \<Rightarrow> nat \<Rightarrow> nat \<Rightarrow> nat \<Rightarrow> lsm \<Rightarrow> System \<Rightarrow> bool" where
  "crash_match H ms mn cap A s \<longleftrightarrow> sys_match H A s \<and> (\<exists>S W. files_at H ms mn cap S W A s)"

definition crash_ok :: "lsm \<Rightarrow> Label list \<Rightarrow> bool" where
  "crash_ok A ls \<longleftrightarrow> in_bounds A ls \<and> Compacted \<notin> set ls"


section \<open>Every step keeps the files in order\<close>

lemma awaiting_simps [simp]:
  "awaiting (s\<lparr>sys_db := db, sys_clock := ts\<rparr>) = awaiting s" "awaiting (s\<lparr>sys_db := db\<rparr>) = awaiting s"
  "awaiting ((after_load c disk s)\<lparr>sys_clock := ts\<rparr>) = False"
  "awaiting (s\<lparr>sys_flush_task := FlushIdle, sys_acks := n\<rparr>) = False"
  by (simp_all add: awaiting_def after_load_def)

lemma awaiting_queue: "sys_match H A s \<Longrightarrow> awaiting s \<Longrightarrow> l_queue A \<noteq> []"
  by (auto simp: sys_match_def pipeline_def Let_def awaiting_def)

lemma files_room:
  assumes f: "files_at H ms mn cap S W A s" and fits: "rec_fits k p" and ts: "sys_clock s < ts"
    and w: "full_writes (env_write env)" "write_entry env k p (mem_inner (db_memtable (sys_db s))) = Some (Inr inner)"
    and s': "s' = s\<lparr>sys_db := (sys_db s)\<lparr>db_memtable := (db_memtable (sys_db s))\<lparr>mem_inner := inner\<rparr>\<rparr>, sys_clock := ts\<rparr>"
  shows "files_at H ms mn cap S W (A\<lparr>l_mem := l_mem A @ [(k, p)]\<rparr>) s'"
proof -
  note f' = f [unfolded files_at_def]
  have fl: "flushed (A\<lparr>l_mem := l_mem A @ [(k, p)]\<rparr>) s' = flushed A s" by (simp add: flushed_def s')
  obtain V v where W: "W = V @ [v]" using f' logs_at_snocD by blast
  have "logs_at ms mn W (l_queue A @ [l_mem A @ [(k, p)]]) (im_table (db_immutable (sys_db s)) @ [inner])"
    using f' logged_write [OF _ w(1) fits w(2)] by (simp add: W logs_at_snoc)
  then show ?thesis unfolding files_at_def fl
    using f' ts by (simp add: s' stamps_later [OF _ ts] deleted_later [OF _ ts])
qed

lemma files_rotate:
  assumes m: "sys_match H A s" and f: "files_at H ms mn cap S W A s" and fits: "rec_fits k p" and ts: "sys_clock s < ts"
    and w: "full_writes (env_write env)"
      "write_entry env k p (memtable_new (mem_max_size (db_memtable (sys_db s))) (mem_max_nodes (db_memtable (sys_db s)))
         (wal_new now (generate_wal_file_name ts))) = Some (Inr inner)"
    and s': "s' = s\<lparr>sys_db := (sys_db s)\<lparr>db_memtable := (db_memtable (sys_db s))\<lparr>mem_inner := inner\<rparr>,
         db_immutable := immutable_insert (mem_inner (db_memtable (sys_db s))) (db_immutable (sys_db s)),
         db_memtable_channel := db_memtable_channel (sys_db s) @ [Flush]\<rparr>, sys_clock := ts\<rparr>"
  shows "files_at H ms mn cap S (W @ [ts]) (A\<lparr>l_queue := l_queue A @ [l_mem A], l_mem := [(k, p)]\<rparr>) s'"
proof -
  note f' = f [unfolded files_at_def]
  let ?A = "A\<lparr>l_queue := l_queue A @ [l_mem A], l_mem := [(k, p)]\<rparr>"
  have fl: "flushed ?A s' = flushed A s" using awaiting_queue [OF m] by (cases "l_queue A") (auto simp: flushed_def s')
  have "length (flushed A s) \<le> length W" using f' by (auto simp: flushed_def logs_at_def)
  note d = deleted_snoc [OF _ ts this]
  have "logged (mem_max_size (db_memtable (sys_db s))) (mem_max_nodes (db_memtable (sys_db s))) ts ([] @ [(k, p)]) inner"
    by (rule logged_write [OF logged_new w(1) fits w(2)])
  then have "logs_at ms mn (W @ [ts]) ((l_queue A @ [l_mem A]) @ [[(k, p)]])
      ((im_table (db_immutable (sys_db s)) @ [mem_inner (db_memtable (sys_db s))]) @ [inner])"
    using f' unfolding logs_at_snoc by simp
  then show ?thesis unfolding files_at_def fl
    using f' by (simp add: s' immutable_insert_def stamps_later [OF _ ts] stamps_snoc [OF _ ts] d)
qed

lemma files_read:
  "files_at H ms mn cap S W A s \<Longrightarrow> files_at H ms mn cap S W A (s\<lparr>sys_db := (sys_db s)\<lparr>db_sstable_cache := c\<rparr>\<rparr>)"
  by (simp add: files_at_def flushed_def)

lemma files_ack:
  assumes "files_at H ms mn cap S W A s" "sys_acks s = 1"
  shows "files_at H ms mn cap S W A (s\<lparr>sys_flush_task := FlushIdle, sys_acks := 0\<rparr>)"
proof -
  have "flushed A s = []" using assms(2) by (simp add: flushed_def awaiting_def)
  then show ?thesis using assms(1) by (simp add: files_at_def flushed_def)
qed

lemma files_flush:
  assumes f: "files_at H ms mn cap S W A s" and idle: "sys_flush_task s = FlushIdle" "sys_acks s = 0" and ts: "sys_clock s < ts"
    and q: "l_queue A = g # q" "im_table (db_immutable (sys_db s)) = inner # rest"
    and t: "sstable_from_fd (file_open bs) = Some (Inr t)" "indexed H kps t" "stored g kps"
    and s': "s' = (after_flush (generate_sstable_file_name ts) bs (wal_filename (mt_wal inner)) s)\<lparr>sys_clock := ts\<rparr>"
  shows "files_at H ms mn cap (S @ [ts]) W A s'"
proof -
  note f' = f [unfolded files_at_def]
  have fl: "flushed A s = []" "flushed A s' = [g]"
    using idle q(1) by (simp_all add: flushed_def awaiting_def s' after_flush_def)
  have "logs_at ms mn W (g # q @ [l_mem A]) (inner # rest @ [mem_inner (db_memtable (sys_db s))])" using f' q by simp
  then obtain w V where W: "W = w # V" using logs_at_ConsD by blast
  then have "wal_filename (mt_wal inner) = generate_wal_file_name w"
    using f' q by (auto simp: logs_at_Cons intro: logged_name)
  moreover have "deleted 1 W (insert (generate_wal_file_name w) (sys_removed s)) ts"
    using f' ts unfolding W fl by (intro deleted_later [OF deleted_first]) simp_all
  moreover have "table_file H ((sys_disk s)(generate_sstable_file_name ts \<mapsto> bs)) ts g" using t by (auto simp: table_file_def)
  then have "tables_at H (S @ [ts]) ((sys_disk s)(generate_sstable_file_name ts \<mapsto> bs)) (l_loaded A @ [g])"
    using f' ts fl(1) tables_at_snoc [of H S "sys_disk s" "l_loaded A" "sys_clock s" ts bs g] by simp
  ultimately show ?thesis unfolding files_at_def fl
    using f' by (simp add: s' after_flush_def stamps_later [OF _ ts] stamps_snoc [OF _ ts])
qed

lemma files_load:
  assumes f: "files_at H ms mn cap S W A s" and w: "sys_flush_task s = FlushAwaitAck" "sys_acks s = 0" and ts: "sys_clock s < ts"
    and q: "l_queue A = g # q" and s': "s' = (after_load c (sys_disk s) s)\<lparr>sys_clock := ts\<rparr>"
  shows "files_at H ms mn cap S (tl W) (A\<lparr>l_queue := q, l_loaded := l_loaded A @ [g], l_tables := kps # l_tables A\<rparr>) s'"
proof -
  note f' = f [unfolded files_at_def]
  let ?A = "A\<lparr>l_queue := q, l_loaded := l_loaded A @ [g], l_tables := kps # l_tables A\<rparr>"
  have fl: "flushed A s = [g]" "flushed ?A s' = []" using w q(1) by (simp_all add: flushed_def awaiting_def s' after_load_def)
  have l: "logs_at ms mn W (g # q @ [l_mem A]) (im_table (db_immutable (sys_db s)) @ [mem_inner (db_memtable (sys_db s))])"
    using f' q by simp
  then obtain v V where W: "W = v # V" using logs_at_ConsD by blast
  from l obtain inner rest where im: "im_table (db_immutable (sys_db s)) = inner # rest"
    by (cases "im_table (db_immutable (sys_db s))") (auto simp: logs_at_def)
  have "deleted 0 V (sys_removed s) ts" using f' ts deleted_tl [of W] by (simp add: fl W deleted_later [OF _ ts])
  moreover have "logs_at ms mn V (q @ [l_mem A]) (rest @ [mem_inner (db_memtable (sys_db s))])"
    using l by (simp add: W im logs_at_Cons)
  moreover have "stamps V ts" using f' ts stamps_tl [of W "sys_clock s"] by (simp add: W stamps_later [OF _ ts])
  ultimately show ?thesis unfolding files_at_def fl
    using f' by (simp add: s' after_load_def immutable_pop_def im W fl stamps_later [OF _ ts])
qed

section \<open>Simulation with the files\<close>

interpretation crash: forward_simulation "sys_step H" lsm_step "crash_match H ms mn cap" crash_ok for H ms mn cap
proof
  fix A s l ls s'
  assume cm: "crash_match H ms mn cap A s" and ok: "crash_ok A (l # ls)" and st: "sys_step H s l s'"
  then obtain S W where m: "sys_match H A s" and f: "files_at H ms mn cap S W A s" and b: "in_bounds A (l # ls)" and l: "l \<noteq> Compacted"
    by (auto simp: crash_match_def crash_ok_def)
  from m b st show "\<exists>A'. lsm_step A l A' \<and> crash_match H ms mn cap A' s'"
  proof (cases rule: sys_step_shapes)
    case (room k p env inner ts)
    then show ?thesis using match_room [OF m room(2,5,6)] files_room [OF f room(2,4,3,5,6)] lsm_step.put
      unfolding crash_match_def by blast
  next
    case (rotate k p env inner ts now)
    then show ?thesis using match_rotate [OF m rotate(2,5-7)] files_rotate [OF m f rotate(2,4,3,5,7)] lsm_step.rotate
      unfolding crash_match_def by blast
  next
    case (read k r R c)
    then show ?thesis using match_read [OF m read(4)] files_read [OF f] read_label [OF m read(2,3)] unfolding crash_match_def by blast
  next
    case (flush ts bs inner rest g q t kps)
    then show ?thesis using match_flush [OF m flush(2,6,7,9-11)] files_flush [OF f flush(2,4,3,7-11,5)] lsm_step.idle
      unfolding crash_match_def by blast
  next
    case (load ts path bs t kps g q)
    then show ?thesis
      using match_load [OF m load(4,5,10,9,11)] files_load [OF f load(4,5,2,10,3)] lsm_step.load [OF load(10,11)]
      unfolding crash_match_def by blast
  next
    case (compact ts kps g q c disk' out)
    then show ?thesis using l by simp
  next
    case ack
    then show ?thesis using match_ack [OF m ack(2,3)] files_ack [OF f ack(3)] lsm_step.idle unfolding crash_match_def by blast
  qed
next
  fix A l ls A'
  assume "crash_ok A (l # ls)" "lsm_step A l A'"
  then show "crash_ok A' ls" using in_bounds_step by (auto simp: crash_ok_def)
qed

section \<open>What a log keeps\<close>

text \<open>
  Of a generation the log file keeps a prefix.  What is lost, without its last record, is less than the
  buffer of the log.
\<close>

definition survives :: "entry list \<Rightarrow> entry list \<Rightarrow> bool" where
  "survives kept g \<longleftrightarrow> (\<exists>lost. g = kept @ lost \<and> length (enc_blobs (butlast lost)) < DEFAULT_WAL_BUFFER_SIZE)"

lemma survives_refl: "survives g g"
  by (simp add: survives_def DEFAULT_WAL_BUFFER_SIZE_def)

lemma survives_prefix: "survives kept g \<Longrightarrow> prefix kept g"
  by (auto simp: survives_def)

lemma written_survives:
  assumes w: "written ms mn (wal_new now name) g t"
  obtains kept w0 t' where "survives kept g" "f_data (wal_fd (mt_wal t)) = enc_blobs kept" "written ms mn w0 kept t'"
proof -
  from written_log [OF w] obtain kept lost where g: "g = kept @ lost"
    "f_data (wal_fd (mt_wal t)) = enc_blobs kept" "wal_buffer (mt_wal t) = enc_blobs lost" by blast
  have "length (enc_blobs (butlast lost)) < DEFAULT_WAL_BUFFER_SIZE"
    using w
  proof (cases rule: written.cases)
    case fresh
    then show ?thesis using g by (simp add: DEFAULT_WAL_BUFFER_SIZE_def)
  next
    case (store kps self env k p)
    show ?thesis
    proof (cases lost rule: rev_cases)
      case (snoc xs x)
      have "length (enc_blobs lost) < DEFAULT_WAL_BUFFER_SIZE + length (enc_blob k p)"
        using write_entry_replays(2) [OF store(4,5)] write_log_unflushed [of env "enc_blob k p" "mt_wal self"] g(3) by simp
      moreover have "x = (k, p)" using store(1) g(1) snoc by simp
      ultimately show ?thesis by (simp add: snoc)
    qed (simp add: DEFAULT_WAL_BUFFER_SIZE_def)
  qed
  then have "survives kept g" using g(1) by (auto simp: survives_def)
  moreover obtain t' where "written ms mn (wal_new now name) kept t'" using written_prefix [OF w g(1)] by blast
  ultimately show thesis using that g(2) by blast
qed

lemma filter_drop:
  assumes "\<forall>x \<in> set (take n xs). \<not> P x" "\<forall>x \<in> set (drop n xs). P x"
  shows "filter P xs = drop n xs"
proof -
  have "filter P xs = filter P (take n xs) @ filter P (drop n xs)" by (simp flip: filter_append)
  then show ?thesis using assms by (simp add: filter_empty_conv)
qed

lemma logs_at_names: "logs_at ms mn W gs ts \<Longrightarrow> map (\<lambda>t. wal_filename (mt_wal t)) ts = map generate_wal_file_name W"
  by (rule nth_equalityI) (auto simp: logs_at_def dest: logged_name)

text \<open>The logs a crash leaves, with the histories they keep.\<close>

definition kept_logs :: "nat \<Rightarrow> nat \<Rightarrow> nat list \<Rightarrow> entry list list \<Rightarrow> entry list list \<Rightarrow> (string \<times> bytes) list \<Rightarrow> bool" where
  "kept_logs ms mn V gs ks logs \<longleftrightarrow> logs = zip (map generate_wal_file_name V) (map enc_blobs ks) \<and>
     length V = length ks \<and> list_all2 survives ks gs \<and> (\<forall>k \<in> set ks. \<exists>w0 t. written ms mn w0 k t)"

lemma logs_at_kept:
  assumes "logs_at ms mn V gs ts"
  shows "\<exists>ks. kept_logs ms mn V gs ks (map (\<lambda>t. (wal_filename (mt_wal t), f_data (wal_fd (mt_wal t)))) ts)"
proof -
  have l: "length V = length ts" "length gs = length ts" using assms by (simp_all add: logs_at_def)
  have "\<forall>i < length ts. \<exists>k. survives k (gs ! i) \<and> f_data (wal_fd (mt_wal (ts ! i))) = enc_blobs k \<and> (\<exists>w0 t. written ms mn w0 k t)"
    using assms written_survives unfolding logs_at_def logged_def by metis
  then obtain ks where ks: "length ks = length ts" "\<forall>i < length ts. survives (ks ! i) (gs ! i) \<and>
      f_data (wal_fd (mt_wal (ts ! i))) = enc_blobs (ks ! i) \<and> (\<exists>w0 t. written ms mn w0 (ks ! i) t)"
    unfolding Skolem_list_nth by blast
  have "map (\<lambda>t. (wal_filename (mt_wal t), f_data (wal_fd (mt_wal t)))) ts =
      zip (map (\<lambda>t. wal_filename (mt_wal t)) ts) (map (\<lambda>t. f_data (wal_fd (mt_wal t))) ts)"
    by (simp add: zip_map_map zip_same_conv_map)
  also have "map (\<lambda>t. f_data (wal_fd (mt_wal t))) ts = map enc_blobs ks" using ks by (auto intro: nth_equalityI)
  finally show ?thesis using ks l
    by (intro exI [of _ ks]) (auto simp: kept_logs_def logs_at_names [OF assms] list_all2_conv_all_nth in_set_conv_nth)
qed

lemma crash_logs_kept:
  assumes f: "files_at H ms mn cap S W A s" and n: "n = length (flushed A s)"
  shows "\<exists>ks. kept_logs ms mn (drop n W) (drop n (l_queue A @ [l_mem A])) ks (crash_logs s)"
proof -
  let ?ts = "im_table (db_immutable (sys_db s)) @ [mem_inner (db_memtable (sys_db s))]"
  let ?log = "\<lambda>t. (wal_filename (mt_wal t), f_data (wal_fd (mt_wal t)))"
  have l: "logs_at ms mn W (l_queue A @ [l_mem A]) ?ts" and d: "deleted n W (sys_removed s) (sys_clock s)"
    using f by (simp_all add: files_at_def n)
  define xs where "xs = map ?log ?ts"
  have names: "map fst xs = map generate_wal_file_name W" using logs_at_names [OF l] by (simp add: xs_def comp_def)
  have "map fst (take n xs) = map generate_wal_file_name (take n W)" "map fst (drop n xs) = map generate_wal_file_name (drop n W)"
    using names by (simp_all flip: take_map drop_map)
  from this [THEN arg_cong, of set] have "fst ` set (take n xs) = generate_wal_file_name ` set (take n W)"
    "fst ` set (drop n xs) = generate_wal_file_name ` set (drop n W)" by (simp_all only: set_map)
  moreover have "generate_wal_file_name ` set (take n W) \<subseteq> sys_removed s" "generate_wal_file_name ` set (drop n W) \<inter> sys_removed s = {}"
    using d unfolding deleted_def by (simp add: image_subset_iff, auto)
  ultimately have "fst ` set (take n xs) \<subseteq> sys_removed s" "fst ` set (drop n xs) \<inter> sys_removed s = {}" by simp_all
  then have "filter (\<lambda>(m, _). m \<notin> sys_removed s) xs = drop n xs" by (intro filter_drop) auto
  then have c: "crash_logs s = map ?log (drop n ?ts)" by (simp only: crash_logs_def xs_def drop_map)
  have "logs_at ms mn (drop n W) (drop n (l_queue A @ [l_mem A])) (drop n ?ts)"
    using l unfolding logs_at_def by (simp del: drop_append)
  from logs_at_kept [OF this] show ?thesis unfolding c .
qed

section \<open>Restart after a crash\<close>

lemma stamps_distinct: "stamps W c \<Longrightarrow> distinct W"
  by (simp add: stamps_def strict_sorted_iff)

lemma stamps_sort: "stamps W c \<Longrightarrow> sort W = W"
  by (simp add: stamps_def strict_sorted_iff sort_key_id_if_sorted)

lemma stamps_drop: "stamps W c \<Longrightarrow> stamps (drop n W) c"
  by (auto simp: stamps_def sorted_wrt_drop dest: in_set_dropD)

text \<open>The values of a function that is tabulated over distinct arguments.\<close>

definition table_fun :: "'a list \<Rightarrow> 'b list \<Rightarrow> 'a \<Rightarrow> 'b" where
  "table_fun xs ys x = the (map_of (zip xs ys) x)"

lemma table_fun_nth: "distinct xs \<Longrightarrow> length xs = length ys \<Longrightarrow> i < length xs \<Longrightarrow> table_fun xs ys (xs ! i) = ys ! i"
  by (simp add: table_fun_def map_of_zip_nth)

lemma map_table_fun: "distinct xs \<Longrightarrow> length xs = length ys \<Longrightarrow> map (table_fun xs ys) xs = ys"
  by (auto intro: nth_equalityI simp: table_fun_nth)

lemma kept_log_holds:
  assumes k: "kept_logs (unat (cf_max_memtable_size config)) (unat (cf_max_memtable_nodes config)) V gs ks (crash_logs s)"
    and V: "distinct V" and fl: "\<forall>g \<in> set gs. flushable g" and ts: "ts \<in> set V"
  shows "log_holds config (crash_fs w s) (generate_wal_file_name ts) (table_fun V ks ts)"
proof -
  from ts obtain i where i: "i < length V" "ts = V ! i" by (auto simp: in_set_conv_nth)
  have l: "length V = length ks" "length gs = length ks" using k by (auto simp: kept_logs_def dest: list_all2_lengthD)
  have ki: "table_fun V ks ts = ks ! i" using i l(1) V by (simp add: table_fun_nth)
  have "distinct (map generate_wal_file_name V)" using V by (simp add: distinct_map inj_on_def names_inj)
  then have "map_of (zip (map generate_wal_file_name V) (map enc_blobs ks)) (map generate_wal_file_name V ! i) = Some (map enc_blobs ks ! i)"
    using i l(1) by (intro map_of_zip_nth) simp_all
  then have m: "map_of (crash_logs s) (generate_wal_file_name ts) = Some (enc_blobs (ks ! i))"
    using i l(1) k by (simp add: kept_logs_def)
  have "survives (ks ! i) (gs ! i)" using k i l by (simp add: kept_logs_def list_all2_conv_all_nth)
  then obtain lost where g: "gs ! i = ks ! i @ lost" by (auto simp: survives_def)
  have "flushable (gs ! i)" using fl i l by simp
  then have "length (enc_blobs (ks ! i)) < 2 ^ 63" by (simp add: flushable_def g)
  moreover have "ks ! i \<in> set ks" using i l by simp
  ultimately show ?thesis using k m unfolding log_holds_def ki kept_logs_def by (fastforce simp: crash_fs_def)
qed

lemma tables_at_files:
  assumes t: "tables_at H S (sys_disk s) gs" and d: "distinct S"
  shows "\<exists>Ls. length Ls = length S \<and> list_all2 stored gs Ls \<and>
    (\<forall>ts \<in> set S. file_holds H (crash_files s) (generate_sstable_file_name ts) (table_fun S Ls ts))"
proof -
  have g: "length gs = length S" "\<forall>i < length S. table_file H (sys_disk s) (S ! i) (gs ! i)"
    using t by (simp_all add: tables_at_def list_all2_conv_all_nth)
  then have "\<forall>i < length S. \<exists>L. stored (gs ! i) L \<and> file_holds H (crash_files s) (generate_sstable_file_name (S ! i)) L"
    by (fastforce simp: table_file_def file_holds_def crash_files_def)
  then obtain Ls where Ls: "length Ls = length S"
    "\<forall>i < length S. stored (gs ! i) (Ls ! i) \<and> file_holds H (crash_files s) (generate_sstable_file_name (S ! i)) (Ls ! i)"
    unfolding Skolem_list_nth by blast
  then show ?thesis using g(1) d
    by (intro exI [of _ Ls]) (auto simp: list_all2_conv_all_nth in_set_conv_nth table_fun_nth)
qed

lemma first_known_generations: "first_known (map last_writes (rev gs)) = last_writes (concat gs)"
proof (induction gs)
  case Nil
  then show ?case by (simp add: last_writes_def fun_eq_iff)
next
  case (Cons g gs)
  then show ?case by (intro ext) (simp add: first_known_append last_writes_append map_add_def split: option.split)
qed

text \<open>The database's own files in a listing of the directory.\<close>

definition lists_files :: "System \<Rightarrow> string list \<Rightarrow> bool" where
  "lists_files s names \<longleftrightarrow> distinct names \<and>
     {n \<in> set names. database_file_from_path n \<noteq> None} = dom (sys_disk s) \<union> fst ` set (crash_logs s)"

lemma listing_mset:
  assumes l: "lists_files s names" and S: "dom (sys_disk s) = generate_sstable_file_name ` set S" "distinct S"
    and V: "fst ` set (crash_logs s) = generate_wal_file_name ` set V" "distinct V"
    and ts: "\<forall>ts \<in> set S \<union> set V. ts < 2 ^ 128"
  shows "mset names = mset (map generate_sstable_file_name S @ map generate_wal_file_name V @
    filter (\<lambda>n. database_file_from_path n = None) names)"
proof -
  let ?own = "\<lambda>n. database_file_from_path n \<noteq> None" and ?gs = "map generate_sstable_file_name S @ map generate_wal_file_name V"
  have ne: "generate_sstable_file_name x \<noteq> generate_wal_file_name y" if "x \<in> set S" "y \<in> set V" for x y
    using generated_sstable(1) [of x] generated_wal(1) [of y] ts that by auto
  have "distinct ?gs" using S(2) V(2) ne by (auto simp: distinct_map inj_on_def names_inj)
  moreover have "set ?gs = set (filter ?own names)" using l S(1) V(1) by (simp add: lists_files_def)
  ultimately have "mset ?gs = mset (filter ?own names)"
    using l by (simp only: lists_files_def set_eq_iff_mset_eq_distinct distinct_filter)
  then have "mset (?gs @ filter (\<lambda>n. \<not> ?own n) names) = mset (filter ?own names) + mset (filter (\<lambda>n. \<not> ?own n) names)"
    by (simp only: mset_append)
  also have "\<dots> = mset names" by (simp flip: multiset_partition)
  finally show ?thesis by simp
qed

text \<open>Tables that hold their generations one by one satisfy the invariant of the machine.\<close>

lemma stored_inv:
  assumes st: "list_all2 stored gs Ls" and A: "l_loaded A = gs" "l_tables A = rev Ls"
  shows "lsm_inv A"
proof -
  have m: "map map_of Ls = map last_writes gs" using st by (induction rule: list_all2_induct) (simp_all add: stored_def)
  have sub: "mset (concat Ls) \<subseteq># mset (concat gs)"
    using st by (induction rule: list_all2_induct) (auto intro: subset_mset.add_mono stored_subset)
  have "map map_of (rev Ls) = map last_writes (rev gs)" using m by (simp flip: rev_map)
  then have "first_known (map map_of (rev Ls)) = last_writes (concat gs)" by (simp add: first_known_generations)
  then have "retained A" using A by (auto simp: retained_def lasting_def last_writes_None)
  moreover have "\<forall>t \<in> set Ls. sorted_table t" using st by (auto simp: list_all2_conv_all_nth in_set_conv_nth stored_def)
  moreover have "mset (concat (rev Ls)) = mset (concat Ls)" by (simp add: mset_concat flip: rev_map)
  ultimately show ?thesis using sub A by (simp add: lsm_inv_def)
qed

lemma reopened_match:
  assumes "db_ok H Ls db" "reopened config V K db" "V \<noteq> []"
    and "length V \<le> Suc (unat (cf_memtable_flush_queue_size config))"
    and "0 < unat (cf_max_memtable_nodes config)" "0 < unat (cf_max_memtable_size config)" "0 < unat (cf_compaction_queue_size config)"
  shows "db_match H \<lparr>l_mem = K (last V), l_queue = map K (butlast V), l_loaded = gs, l_tables = Ls\<rparr> db"
  using assms by (auto simp: db_match_def reopened_def db_ok_def)

lemma logs_count:
  assumes m: "sys_match H A s" and f: "files_at H ms mn cap S W A s"
  shows "length (drop (length (flushed A s)) W) \<le> Suc cap" "length (flushed A s) < length W"
proof -
  have "length W = Suc (length (l_queue A))" using f by (simp add: files_at_def logs_at_def)
  moreover have "length (l_queue A) - length (flushed A s) = length (db_memtable_channel (sys_db s))"
    "length (flushed A s) \<le> length (l_queue A)"
    using m by (auto simp: sys_match_def pipeline_def Let_def flushed_def awaiting_def split: FlushTask.splits)
  ultimately show "length (drop (length (flushed A s)) W) \<le> Suc cap" "length (flushed A s) < length W"
    using m f by (auto simp: sys_match_def db_match_def files_at_def)
qed

text \<open>
  The machine a restart continues: the generations in SSTables are loaded, the logs are the queue and
  the memtable.
\<close>

definition restarted :: "nat \<Rightarrow> entry list list \<Rightarrow> entry list list \<Rightarrow> lsm" where
  "restarted n ks Ls = \<lparr>l_mem = last ks, l_queue = butlast (drop n ks), l_loaded = take n ks, l_tables = Ls\<rparr>"

lemma restarted_view:
  assumes "list_all2 stored (take n ks) Ls" "n < length ks"
  shows "lsm_view (restarted n ks (rev Ls)) = last_writes (concat ks)"
proof -
  have "map map_of Ls = map last_writes (take n ks)"
    using assms(1) by (induction rule: list_all2_induct) (simp_all add: stored_def)
  then have t: "map map_of (rev Ls) = map last_writes (rev (take n ks))" by (simp flip: rev_map)
  obtain xs x where xs: "drop n ks = xs @ [x]" using assms(2) by (cases "drop n ks" rule: rev_cases) auto
  then have ks: "ks = take n ks @ xs @ [x]" using append_take_drop_id [of n ks] by simp
  have "last ks = x" using last_drop [OF assms(2)] xs by simp
  moreover have r: "rev ks = x # rev xs @ rev (take n ks)" using arg_cong [OF ks, of rev] by (simp only: rev_append) simp
  note first_known_generations [of ks, unfolded r]
  ultimately show ?thesis by (simp add: lsm_view_def restarted_def t xs)
qed

text \<open>
  What a crash leaves, by time stamp: tables \<open>S\<close> with the generations \<open>gs\<close>, logs \<open>V\<close> with the prefixes \<open>ks\<close> of
  the generations \<open>hs\<close>.
\<close>

lemma crash_artifacts:
  assumes cm: "crash_match H (unat (cf_max_memtable_size config)) (unat (cf_max_memtable_nodes config)) cap A s" and b: "in_bounds A []"
  obtains S V gs hs ks Ls where "stamps S (sys_clock s)" "stamps V (sys_clock s)" "V \<noteq> []" "length V \<le> Suc cap"
    "dom (sys_disk s) = generate_sstable_file_name ` set S" "fst ` set (crash_logs s) = generate_wal_file_name ` set V"
    "l_loaded A @ l_queue A @ [l_mem A] = gs @ hs" "length V = length ks" "list_all2 survives ks hs"
    "length S = length Ls" "list_all2 stored gs Ls"
    "\<forall>ts \<in> set S. file_holds H (crash_files s) (generate_sstable_file_name ts) (table_fun S Ls ts)"
    "\<And>w. \<forall>ts \<in> set V. log_holds config (crash_fs w s) (generate_wal_file_name ts) (table_fun V ks ts)"
proof -
  from cm obtain S W where m: "sys_match H A s"
    and f: "files_at H (unat (cf_max_memtable_size config)) (unat (cf_max_memtable_nodes config)) cap S W A s"
    by (auto simp: crash_match_def)
  define n where "n = length (flushed A s)"
  define hs where "hs = drop n (l_queue A @ [l_mem A])"
  have S: "stamps S (sys_clock s)" and W: "stamps W (sys_clock s)" and t: "tables_at H S (sys_disk s) (l_loaded A @ flushed A s)"
    using f by (simp_all add: files_at_def)
  have V: "stamps (drop n W) (sys_clock s)" "drop n W \<noteq> []" "length (drop n W) \<le> Suc cap"
    using stamps_drop [OF W] logs_count [OF m f] by (simp_all add: n_def)
  from crash_logs_kept [OF f n_def] obtain ks where
    k: "kept_logs (unat (cf_max_memtable_size config)) (unat (cf_max_memtable_nodes config)) (drop n W) hs ks (crash_logs s)"
    by (auto simp: hs_def)
  have lk: "length (drop n W) = length ks" using k by (simp add: kept_logs_def)
  from tables_at_files [OF t stamps_distinct [OF S]] obtain Ls where
    Ls: "length Ls = length S" "list_all2 stored (l_loaded A @ flushed A s) Ls"
      "\<forall>ts \<in> set S. file_holds H (crash_files s) (generate_sstable_file_name ts) (table_fun S Ls ts)" by blast
  have "\<forall>g \<in> set hs. flushable g" using b by (auto simp: hs_def in_bounds_def dest!: in_set_dropD)
  note logs = kept_log_holds [OF k stamps_distinct [OF V(1)] this]
  have "take n (l_queue A @ [l_mem A]) = flushed A s"
    using awaiting_queue [OF m] by (cases "l_queue A") (auto simp: n_def flushed_def)
  then have "l_loaded A @ l_queue A @ [l_mem A] = (l_loaded A @ flushed A s) @ hs"
    using append_take_drop_id [of n "l_queue A @ [l_mem A]"] by (simp add: hs_def)
  moreover have "fst ` set (crash_logs s) = generate_wal_file_name ` set (drop n W)"
    using k lk by (simp add: kept_logs_def flip: set_map)
  ultimately show thesis using S V t lk k Ls logs
    by (intro that [of S "drop n W" "l_loaded A @ flushed A s" hs ks Ls]) (simp_all add: tables_at_def kept_logs_def)
qed

lemma crash_restores:
  assumes cm: "crash_match H (unat (cf_max_memtable_size config)) (unat (cf_max_memtable_nodes config))
      (unat (cf_memtable_flush_queue_size config)) A s"
    and b: "in_bounds A []" and clock: "sys_clock s < 2 ^ 128" and names: "lists_files s names"
    and cap: "0 < unat (cf_compaction_queue_size config)" "0 < unat (cf_memtable_flush_queue_size config)"
  obtains ss ws db n ks Ls where "scan_directory (map Inr names) = Some (ss, ws)"
    "lsmlite_new (crash_fs w s) (crash_files s) (Inr w0) ss ws config = Some db"
    "list_all2 survives ks (l_loaded A @ l_queue A @ [l_mem A])" "n = card (dom (sys_disk s))" "n < length ks"
    "take n ks = take n (l_loaded A @ l_queue A @ [l_mem A])"
    "list_all2 stored (take n ks) Ls" "db_match H (restarted n ks (rev Ls)) db" "db_signal db = []"
    "length (db_memtable_channel db) = length (l_queue (restarted n ks (rev Ls)))"
proof -
  obtain S V gs hs ks Ls where S: "stamps S (sys_clock s)" and V: "stamps V (sys_clock s)" "V \<noteq> []"
      "length V \<le> Suc (unat (cf_memtable_flush_queue_size config))"
    and own: "dom (sys_disk s) = generate_sstable_file_name ` set S" "fst ` set (crash_logs s) = generate_wal_file_name ` set V"
    and all: "l_loaded A @ l_queue A @ [l_mem A] = gs @ hs"
    and k: "length V = length ks" "list_all2 survives ks hs" and Ls: "length S = length Ls" "list_all2 stored gs Ls"
      "\<forall>ts \<in> set S. file_holds H (crash_files s) (generate_sstable_file_name ts) (table_fun S Ls ts)"
    and logs: "\<And>w. \<forall>ts \<in> set V. log_holds config (crash_fs w s) (generate_wal_file_name ts) (table_fun V ks ts)"
    by (rule crash_artifacts [OF cm b]) blast
  have ts: "\<forall>ts \<in> set S \<union> set V. ts < 2 ^ 128" using S V(1) clock by (auto simp: stamps_def)
  note names = listing_mset [OF names own(1) stamps_distinct [OF S] own(2) stamps_distinct [OF V(1)] ts]
  have "\<forall>n \<in> set (filter (\<lambda>n. database_file_from_path n = None) names). database_file_from_path n = None" by simp
  note open_directory [OF ts this names Ls(3) logs cap V(3), of w w0]
  moreover have "map (table_fun S Ls) (rev (sort S)) = rev Ls"
    using map_table_fun [OF stamps_distinct [OF S] Ls(1)] by (simp add: stamps_sort [OF S] flip: rev_map)
  ultimately obtain ss ws db where db: "scan_directory (map Inr names) = Some (ss, ws)"
    "lsmlite_new (crash_fs w s) (crash_files s) (Inr w0) ss ws config = Some db"
    "db_ok H (rev Ls) db" "reopened config V (table_fun V ks) db" by (auto simp: stamps_sort [OF V(1)])
  have "0 < unat (cf_max_memtable_nodes config)" "0 < unat (cf_max_memtable_size config)"
    using cm by (auto simp: crash_match_def sys_match_def db_match_def files_at_def)
  note match = reopened_match [OF db(3,4) V(2,3) this cap(1), of gs]
  have "map (table_fun V ks) V = ks" by (rule map_table_fun [OF stamps_distinct [OF V(1)] k(1)])
  then have "table_fun V ks (last V) = last ks" "map (table_fun V ks) (butlast V) = butlast ks" and ne: "ks \<noteq> []"
    using V(2) by (metis last_map, metis map_butlast, auto)
  then have "db_match H (restarted (length gs) (gs @ ks) (rev Ls)) db" using match by (simp add: restarted_def)
  moreover have "list_all2 survives (gs @ ks) (gs @ hs)" using k(2) survives_refl by (auto intro!: list_all2_appendI list.rel_refl)
  moreover have "length gs = card (dom (sys_disk s))"
    using own(1) stamps_distinct [OF S] list_all2_lengthD [OF Ls(2)] Ls(1)
    by (simp add: card_image inj_on_def names_inj distinct_card)
  moreover have "length (db_memtable_channel db) = length (butlast ks)" "db_signal db = []"
    using db(4) k(1) by (simp_all add: reopened_def)
  ultimately show thesis
    using db(1,2) Ls(2) ne all by (intro that [of ss ws db "gs @ ks" "length gs" Ls]) (simp_all add: restarted_def)
qed

text \<open>The running system after the restart, with an arbitrary new time.\<close>

lemma restarted_match:
  assumes "db_match H (restarted n ks (rev Ls)) db" "list_all2 stored (take n ks) Ls" "db_signal db = []"
    and "length (db_memtable_channel db) = length (l_queue (restarted n ks (rev Ls)))" "finite (dom disk)"
  shows "sys_match H (restarted n ks (rev Ls)) (sys_start now disk db)"
  using assms stored_inv [OF assms(2), of "restarted n ks (rev Ls)"]
  by (simp add: sys_match_def sys_start_def pipeline_def restarted_def)

section \<open>Logs after a restart\<close>

lemma feed_keeps_wal: "feed insert_record_from_wal rs table = Some t \<Longrightarrow> mt_wal t = mt_wal table"
proof (induction rs arbitrary: table)
  case (Cons r rs)
  then obtain t1 where t1: "insert_record_from_wal r table = Some t1" "feed insert_record_from_wal rs t1 = Some t"
    by (auto simp: bind_eq_Some_conv)
  then have "mt_wal t1 = mt_wal table"
    by (auto simp: insert_record_from_wal_def bind_eq_Some_conv dest: insert_node_keeps_wal split: if_splits)
  then show ?case using Cons.IH [OF t1(2)] by simp
qed simp

lemma from_wal_log_new:
  assumes "from_wal env ms mn = Some (Inr t, removed)"
  shows "re_new_wal env = Inr (mt_wal t)" "removed"
proof -
  obtain contents where c: "re_file env = Inr contents" using assms by (cases "re_file env") (simp_all add: from_wal_def)
  obtain w where w: "re_new_wal env = Inr w"
    using assms c by (cases "re_new_wal env") (simp_all add: from_wal_def memtable_inner_new_def)
  have "replay_loop (wal_iterator_new contents) (memtable_new ms mn w) = Some t"
    using assms c w by (cases "re_remove env") (auto simp: from_wal_def memtable_inner_new_def bind_eq_Some_conv)
  moreover from replay_loop_yields [OF this] obtain rs where "yields wal_next (wal_iterator_new contents) rs" by blast
  ultimately have "feed insert_record_from_wal rs (memtable_new ms mn w) = Some t" using replay_loop_feed by simp
  from feed_keeps_wal [OF this] show "re_new_wal env = Inr (mt_wal t)" using w by (simp add: memtable_new_def)
  show removed using assms c w by (cases "re_remove env") (auto simp: from_wal_def memtable_inner_new_def bind_eq_Some_conv)
qed

text \<open>
  The logs after a restart: those of the directory that the construction has replayed without
  deleting them, and those of its tables.
\<close>

definition log_removed :: "LsmliteConfig \<Rightarrow> (string \<Rightarrow> RecoverEnv) \<Rightarrow> WalArtifact \<Rightarrow> bool" where
  "log_removed config fs a =
     (case from_wal (fs (wa_filename a)) (unat (cf_max_memtable_size config)) (unat (cf_max_memtable_nodes config)) of
        None \<Rightarrow> False | Some (_, removed) \<Rightarrow> removed)"

definition restart_logs :: "LsmliteConfig \<Rightarrow> (string \<Rightarrow> RecoverEnv) \<Rightarrow> WalArtifact list \<Rightarrow> System \<Rightarrow> (string \<times> bytes) list" where
  "restart_logs config fs ws s =
     List.map_filter (\<lambda>a. if log_removed config fs a then None
       else (case re_file (fs (wa_filename a)) of Inl _ \<Rightarrow> None | Inr bs \<Rightarrow> Some (wa_filename a, bs))) ws @ crash_logs s"

lemma read_immutable_tables_logs:
  "read_immutable_tables fs ws config = Some ts \<Longrightarrow>
   (\<forall>t \<in> set ts. \<exists>n. re_new_wal (fs n) = Inr (mt_wal t)) \<and> (\<forall>a \<in> set ws. log_removed config fs a)"
proof (induction ws arbitrary: ts)
  case (Cons a ws)
  from Cons.prems obtain r b where r: "from_wal (fs (wa_filename a))
      (unat (cf_max_memtable_size config)) (unat (cf_max_memtable_nodes config)) = Some (r, b)"
    by (auto simp: bind_eq_Some_conv load_immutable_memtable_worker_def)
  with Cons.prems obtain u us where u: "r = Inr u" "read_immutable_tables fs ws config = Some us" "ts = u # us"
    by (cases r) (auto simp: bind_eq_Some_conv load_immutable_memtable_worker_def)
  note new = from_wal_log_new [OF r [unfolded u(1)]]
  have "log_removed config fs a" using r new(2) by (simp add: log_removed_def)
  then show ?case using Cons.IH [OF u(2)] new(1) u(3) by auto
qed simp

lemma construct_memtable_logs:
  assumes "construct_memtable fs w a config = Some m"
  shows "w = Inr (mt_wal (mem_inner m)) \<or> (\<exists>n. re_new_wal (fs n) = Inr (mt_wal (mem_inner m)))"
    "a = Some x \<Longrightarrow> log_removed config fs x"
proof -
  have "case a of None \<Rightarrow> w = Inr (mt_wal (mem_inner m))
    | Some x \<Rightarrow> re_new_wal (fs (wa_filename x)) = Inr (mt_wal (mem_inner m)) \<and> log_removed config fs x"
  proof (cases a)
    case None
    then show ?thesis using assms
      by (cases w) (auto simp: construct_memtable_def Memtable_new_def memtable_inner_new_def memtable_new_def)
  next
    case (Some x)
    let ?f = "from_wal (fs (wa_filename x)) (unat (cf_max_memtable_size config)) (unat (cf_max_memtable_nodes config))"
    obtain r b where f: "?f = Some (r, b)"
      using assms Some by (cases ?f) (auto simp: construct_memtable_def Memtable_new_from_wal_def)
    then obtain t where t: "r = Inr t" "mem_inner m = t"
      using assms Some by (cases r) (auto simp: construct_memtable_def Memtable_new_from_wal_def)
    show ?thesis using from_wal_log_new [OF f [unfolded t(1)]] f t(2) Some by (simp add: log_removed_def)
  qed
  then show "w = Inr (mt_wal (mem_inner m)) \<or> (\<exists>n. re_new_wal (fs n) = Inr (mt_wal (mem_inner m)))"
    "a = Some x \<Longrightarrow> log_removed config fs x" by (auto split: option.splits)
qed

lemma lsmlite_new_logs:
  assumes "lsmlite_new fs files w ss ws config = Some db"
  shows "t \<in> insert (mem_inner (db_memtable db)) (set (im_table (db_immutable db))) \<Longrightarrow>
      w = Inr (mt_wal t) \<or> (\<exists>n. re_new_wal (fs n) = Inr (mt_wal t))"
    "a \<in> set ws \<Longrightarrow> log_removed config fs a"
proof -
  obtain live rest q where l: "(live, rest) = (if ws = [] then (None, []) else (Some (last ws), butlast ws))"
    "construct_memtable fs w live config = Some (db_memtable db)"
    "immutable_new fs rest config (unat (cf_memtable_flush_queue_size config)) = Some (db_immutable db, q)"
    using assms by (auto simp: lsmlite_new_def bind_eq_Some_conv split: if_splits)
  from l(3) obtain ts where ts: "read_immutable_tables fs rest config = Some ts" "im_table (db_immutable db) = ts"
    by (cases "db_immutable db") (auto simp: immutable_new_def immutable_new_empty_def bind_eq_Some_conv split: if_splits)
  note r = read_immutable_tables_logs [OF ts(1)] and m = construct_memtable_logs [OF l(2)]
  show "w = Inr (mt_wal t) \<or> (\<exists>n. re_new_wal (fs n) = Inr (mt_wal t))"
    if "t \<in> insert (mem_inner (db_memtable db)) (set (im_table (db_immutable db)))"
    using that m(1) r ts(2) by auto
  show "log_removed config fs a" if "a \<in> set ws"
  proof -
    have "ws \<noteq> []" using that by auto
    then have ws: "ws = rest @ [last ws]" "live = Some (last ws)" using l(1) by (auto split: if_splits)
    have "a \<in> set rest \<or> a = last ws" using that by (subst (asm) ws(1)) auto
    then show ?thesis using m(2) r ws(2) by auto
  qed
qed

lemma restart_logs_new:
  assumes "lsmlite_new fs files w ss ws config = Some db"
  shows "restart_logs config fs ws s = crash_logs s"
  using lsmlite_new_logs(2) [OF assms] by (induction ws) (simp_all add: restart_logs_def map_filter_simps)

end
