(* ===== verification/Failures.thy ===== *)
theory Failures
  imports Crash
begin

text \<open>
  Failed flushes.  What \<^verbatim>\<open>flush_memtable\<close> of \<^verbatim>\<open>src/memtable/inner.rs\<close> leaves behind when the table cannot be
  created, written or its log cannot be deleted, and what a restart makes of an SSTable file that
  does not open.
\<close>

section \<open>The poisoned database\<close>

lemma poisoned_calls:
  assumes "db_poisoned self"
  shows "db_get H R k self = None" "db_set oe k v self = None" "db_delete oe k self = None"
  using assms by (simp_all add: db_get_def db_set_def db_delete_def check_poison_flag_def)

lemma flush_poisons:
  assumes "flush_memtable env Flush s = Some s'" "\<not> db_poisoned (sys_db s)" "db_poisoned (sys_db s')"
  shows "sys_db s' = (sys_db s)\<lparr>db_poisoned := True\<rparr>" "sys_removed s' = sys_removed s"
    "n \<noteq> fe_filename env \<Longrightarrow> sys_disk s' n = sys_disk s n" "sys_load_task s' = sys_load_task s" "sys_acks s' = sys_acks s"
proof -
  consider (created) e where "fe_created env = Inl e" "s' = (poison s)\<lparr>sys_flush_task := FlushExited\<rparr>"
    | (failed) fd :: File where "s' = poison (s\<lparr>sys_disk := (sys_disk s)(fe_filename env \<mapsto> f_data fd)\<rparr>)"
  proof (cases "fe_created env")
    case (Inl e)
    then show thesis using assms(1) by (intro created) (simp_all add: flush_memtable_def)
  next
    case (Inr u)
    then obtain r fd removed where f: "immutable_flush (fe_ln2_hashes env) (fe_hash env) (fe_write env) (fe_remove env)
        (db_immutable (sys_db s)) file_create = Some (r, fd, removed)"
      using assms(1) by (auto simp: flush_memtable_def bind_eq_Some_conv Let_def)
    then obtain e where "r = Inl e" using assms Inr by (cases r) (auto simp: flush_memtable_def bind_eq_Some_conv Let_def)
    then show thesis using assms(1) f Inr by (intro failed [of fd]) (simp add: flush_memtable_def)
  qed
  then show "sys_db s' = (sys_db s)\<lparr>db_poisoned := True\<rparr>" "sys_removed s' = sys_removed s"
    "n \<noteq> fe_filename env \<Longrightarrow> sys_disk s' n = sys_disk s n" "sys_load_task s' = sys_load_task s" "sys_acks s' = sys_acks s"
    by (cases; simp add: poison_def)+
qed

lemma poisoned_crash_logs:
  "sys_db s' = (sys_db s)\<lparr>db_poisoned := True\<rparr> \<Longrightarrow> sys_removed s' = sys_removed s \<Longrightarrow> crash_logs s' = crash_logs s"
  by (simp add: crash_logs_def)

section \<open>A file that does not open\<close>

text \<open>The scan of the directory takes every file with the extension of an SSTable.\<close>

lemma scan_loop_takes:
  "scan_loop entries ss ws = Some (ss', ws') \<Longrightarrow>
   n \<in> sa_filename ` set ss \<or> Inr n \<in> set entries \<and> database_file_from_path n = Some SSTableFile \<Longrightarrow> n \<in> sa_filename ` set ss'"
proof (induction entries arbitrary: ss ws)
  case (Cons entry entries)
  then obtain path where path: "entry = Inr path" by (cases entry) auto
  have name: "sstable_artifact_new path = Some a \<Longrightarrow> sa_filename a = path" for a
    by (auto simp: sstable_artifact_new_def bind_eq_Some_conv)
  from Cons.prems(1) consider "database_file_from_path path = None" "scan_loop entries ss ws = Some (ss', ws')"
    | a where "database_file_from_path path = Some WalFile" "scan_loop entries ss (ws @ [a]) = Some (ss', ws')"
    | a where "sstable_artifact_new path = Some a" "scan_loop entries (ss @ [a]) ws = Some (ss', ws')"
    unfolding path by (auto simp: bind_eq_Some_conv split: option.splits DatabaseFile.splits)
  then show ?case
  proof cases
    case 1
    then show ?thesis using Cons.IH [OF 1(2)] Cons.prems(2) path by auto
  next
    case (2 a)
    then show ?thesis using Cons.IH [OF 2(2)] Cons.prems(2) path by auto
  next
    case (3 a)
    then show ?thesis using Cons.IH [OF 3(2)] Cons.prems(2) path name [OF 3(1)] by auto
  qed
qed simp

lemma scan_directory_takes:
  assumes "scan_directory (map Inr names) = Some (ss, ws)" "n \<in> set names" "database_file_from_path n = Some SSTableFile"
  shows "n \<in> sa_filename ` set ss"
proof -
  from assms(1) obtain ss0 ws0 where l: "scan_loop (map Inr names) [] [] = Some (ss0, ws0)" "set ss = set ss0"
    by (auto simp: scan_directory_def bind_eq_Some_conv sort_by_artifacts)
  show ?thesis using scan_loop_takes [OF l(1), of n] assms(2,3) l(2) by simp
qed

lemma load_tables_broken:
  "c \<in> set cs \<Longrightarrow> \<forall>t. sstable_from_path c \<noteq> Some (Inr t) \<Longrightarrow> load_tables cs = None"
proof (induction cs)
  case (Cons c' cs)
  then show ?case
    by (cases "sstable_from_path c'") (auto simp: bind_eq_None_conv split: sum.split)
qed simp

lemma lsmlite_new_broken:
  assumes "scan_directory (map Inr names) = Some (ss, ws)" "n \<in> set names" "database_file_from_path n = Some SSTableFile"
    and "\<forall>t. sstable_from_path (files n) \<noteq> Some (Inr t)"
  shows "lsmlite_new fs files w ss ws config = None"
proof -
  from scan_directory_takes [OF assms(1-3)] have "files n \<in> set (map (\<lambda>a. files (sa_filename a)) ss)" "ss \<noteq> []" by auto
  then have "construct_sstable_cache files ss config = None"
    using load_tables_broken [OF _ assms(4)] by (simp add: construct_sstable_cache_def cache_from_restart_def)
  then show ?thesis by (auto simp: lsmlite_new_def Let_def bind_eq_None_conv)
qed

text \<open>A file without a complete header does not open.\<close>

lemma empty_table_broken: "sstable_from_path (Inr []) = Some (Inl (IOError UnexpectedEof))"
  by (simp add: sstable_from_path_def sstable_from_fd_def validate_buffer_and_get_version_def file_read_exact_def file_open_def Let_def)

lemma flush_disk_full:
  assumes "im_table (db_immutable (sys_db s)) \<noteq> []" "fe_created env = Inr u" "fe_write env file_create LSMLITE_SSTABLE_HEADER = Inl e"
  shows "flush_memtable env Flush s = Some (poison (s\<lparr>sys_disk := (sys_disk s)(fe_filename env \<mapsto> [])\<rparr>))"
proof -
  obtain t ts where t: "im_table (db_immutable (sys_db s)) = t # ts" using assms(1) by (cases "im_table (db_immutable (sys_db s))") auto
  have "write_sstable (fe_ln2_hashes env) (fe_hash env) (fe_write env) t file_create = Some (Inl e, file_create)"
    using assms(3) by (simp add: write_sstable_def write_then_def file_write_def Let_def)
  then have "immutable_flush (fe_ln2_hashes env) (fe_hash env) (fe_write env) (fe_remove env) (db_immutable (sys_db s)) file_create =
      Some (Inl e, file_create, None)"
    by (simp add: immutable_flush_def t flush_memtable_inner_def flush_to_disk_def)
  then show ?thesis using assms(2) by (simp add: flush_memtable_def file_create_def)
qed

end
