(* ===== verification/Sample_Run.thy ===== *)
theory Sample_Run
  imports Failures Store_Props
begin

text \<open>
  The database right after its creation in an empty directory, its first steps, and the runs that the
  properties of \<open>System_Props\<close> are tried on.
\<close>

section \<open>A database that has just been created\<close>

lemma fresh_database:
  assumes "lsmlite_new fs files (Inr w) [] [] config = Some db"
    and "0 < unat (cf_max_memtable_nodes config)" "0 < unat (cf_max_memtable_size config)"
  shows "finite (dom disk) \<Longrightarrow> sys_match H lsm_empty (sys_start now disk db)"
    "w = wal_new t (generate_wal_file_name now) \<Longrightarrow> crash_match H (unat (cf_max_memtable_size config))
       (unat (cf_max_memtable_nodes config)) (unat (cf_memtable_flush_queue_size config)) lsm_empty (sys_start now Map.empty db)"
    "mem_inner (db_memtable db) = memtable_new (unat (cf_max_memtable_size config)) (unat (cf_max_memtable_nodes config)) w"
    "\<not> db_poisoned db" "0 < unat (cf_compaction_queue_size config)" "0 < unat (cf_memtable_flush_queue_size config)"
proof -
  let ?m = "memtable_new (unat (cf_max_memtable_size config)) (unat (cf_max_memtable_nodes config)) w"
  have db: "db = \<lparr>db_memtable = \<lparr>mem_inner = ?m, mem_max_size = unat (cf_max_memtable_size config),
      mem_max_nodes = unat (cf_max_memtable_nodes config)\<rparr>, db_sstable_cache = cache_new (unat (cf_compaction_rate config)),
      db_poisoned = False, db_signal = [], db_memtable_channel = [], db_immutable = immutable_new_empty,
      db_compaction_cap = unat (cf_compaction_queue_size config), db_flush_cap = unat (cf_memtable_flush_queue_size config)\<rparr>"
    and cap: "0 < unat (cf_compaction_queue_size config)" "0 < unat (cf_memtable_flush_queue_size config)"
    using assms(1) by (auto simp: lsmlite_new_def construct_memtable_def Memtable_new_def memtable_inner_new_def
        immutable_new_def construct_sstable_cache_def bind_eq_Some_conv assert_that_def split: if_splits)
  have m: "sys_match H lsm_empty (sys_start now disk db)" if "finite (dom disk)" for disk
    using that cap assms(2,3) cache_new_holds
    by (simp add: db sys_match_def db_match_def sys_start_def gen_holds_new immutable_new_empty_def pipeline_def
        lsm_inv_def retained_def lasting_def)
  then show "finite (dom disk) \<Longrightarrow> sys_match H lsm_empty (sys_start now disk db)" .
  show "crash_match H (unat (cf_max_memtable_size config)) (unat (cf_max_memtable_nodes config))
      (unat (cf_memtable_flush_queue_size config)) lsm_empty (sys_start now Map.empty db)"
    if "w = wal_new t (generate_wal_file_name now)"
  proof -
    have "files_at H (unat (cf_max_memtable_size config)) (unat (cf_max_memtable_nodes config))
      (unat (cf_memtable_flush_queue_size config)) [] [now] lsm_empty (sys_start now Map.empty db)"
      using that logged_new by (simp add: files_at_def sys_start_def db immutable_new_empty_def stamps_def tables_at_def
          flushed_def awaiting_def logs_at_def deleted_def)
    then show ?thesis using m [of Map.empty] by (auto simp: crash_match_def)
  qed
  show "mem_inner (db_memtable db) = ?m" "\<not> db_poisoned db" by (simp_all add: db)
qed (use assms in \<open>auto simp: lsmlite_new_def bind_eq_Some_conv assert_that_def split: if_splits\<close>)

text \<open>The first write of a fresh database is a step.\<close>

lemma first_write:
  assumes "lsmlite_new fs files (Inr w) [] [] config = Some db"
    and "0 < unat (cf_max_memtable_nodes config)" "0 < unat (cf_max_memtable_size config)" "rec_fits k p"
  shows "\<exists>s'. run (sys_step H) (sys_start now disk db) [Wrote k p] s' \<and> sys_disk s' = disk \<and> sys_clock s' = Suc now \<and>
    im_table (db_immutable (sys_db s')) = im_table (db_immutable db) \<and> sys_removed s' = {} \<and>
    wal_filename (mt_wal (mem_inner (db_memtable (sys_db s')))) = wal_filename w"
proof -
  note fresh = fresh_database(3,4) [OF assms(1-3)]
  let ?m = "mem_inner (db_memtable db)"
  let ?oe = "\<lparr>oe_first = calm_env, oe_second = calm_env, oe_wal = Inr (wal_new 0 (generate_wal_file_name (Suc now)))\<rparr>"
  have m: "mt_inv ?m" "\<not> full ?m" "mt_view ?m = Map.empty" using assms(2,3) by (simp_all add: fresh(1))
  obtain inner where i: "write_entry calm_env k p ?m = Some (Inr inner)"
    by (rule write_entry_stored [OF m(1) assms(4) m(2), of calm_env]) (simp add: m(3))
  let ?db = "db\<lparr>db_memtable := (db_memtable db)\<lparr>mem_inner := inner\<rparr>\<rparr>"
  have "db_write ?oe k p (sys_db (sys_start now disk db)) = Some ?db"
    using db_write_room [OF fresh(2), of ?oe k p inner] i by (simp add: sys_start_def)
  then have "sys_step H (sys_start now disk db) (write_label (sys_start now disk db) k p)
      ((sys_start now disk db)\<lparr>sys_db := ?db, sys_clock := Suc now\<rparr>)"
    by (intro sys_step.put [of "Suc now" ?oe]) (auto simp: op_calm_def sys_start_def)
  then have "run (sys_step H) (sys_start now disk db) [Wrote k p] ((sys_start now disk db)\<lparr>sys_db := ?db, sys_clock := Suc now\<rparr>)"
    using m(2) by (simp add: run_single write_label_def sys_start_def)
  moreover have "wal_filename (mt_wal inner) = wal_filename w"
    using write_entry_replays(2) [OF assms(4) i] by (simp add: fresh(1) memtable_new_def)
  ultimately show ?thesis by (intro exI) (auto simp: sys_start_def)
qed

abbreviation example_fs :: "string \<Rightarrow> RecoverEnv" where
  "example_fs \<equiv> \<lambda>_. \<lparr>re_file = Inl OsError, re_new_wal = Inl OsError, re_remove = Inr ()\<rparr>"

lemma config_default_positive:
  "0 < unat (cf_max_memtable_nodes config_default)" "0 < unat (cf_max_memtable_size config_default)"
  "0 < unat (cf_compaction_queue_size config_default)" "unat (cf_memtable_flush_queue_size config_default) = 100"
  by (simp_all add: config_default_def DEFAULT_MAX_MEMTABLE_NODES_def DEFAULT_MAX_MEMTABLE_SIZE_def
      DEFAULT_COMPACTION_QUEUE_SIZE_def DEFAULT_MEMTABLE_FLUSH_QUEUE_def)

lemma example_database:
  obtains db where "lsmlite_new example_fs (\<lambda>_. Inl OsError) (Inr w) [] [] config_default = Some db"
  using lsmlite_new_restores [of "[]" _ "\<lambda>_. Inl OsError" _ "[]" config_default example_fs _ w] config_default_positive
  by auto

lemma example_write:
  obtains db s where "lsmlite_new example_fs (\<lambda>_. Inl OsError) (Inr (wal_new 0 (generate_wal_file_name 0))) [] [] config_default = Some db"
    "run (sys_step H) (sys_start 0 Map.empty db) [Wrote [1] (Some [2])] s" "in_bounds lsm_empty [Wrote [1] (Some [2])]"
    "sys_disk s = Map.empty" "sys_clock s = 1" "sys_removed s = {}" "im_table (db_immutable (sys_db s)) = []"
    "wal_filename (mt_wal (mem_inner (db_memtable (sys_db s)))) = generate_wal_file_name 0"
proof -
  obtain db where db: "lsmlite_new example_fs (\<lambda>_. Inl OsError) (Inr (wal_new 0 (generate_wal_file_name 0))) [] [] config_default = Some db"
    by (rule example_database)
  have fits: "rec_fits [1] (Some [2])" "flushable [([1], Some [2])]"
    by (simp add: rec_fits_def example_blobs) (intro flushable_mono [OF example_flushable(1)]; simp)
  then have "in_bounds lsm_empty [Wrote [1] (Some [2])]" by (simp add: in_bounds_def)
  moreover have "im_table (db_immutable db) = []"
    using db by (auto simp: lsmlite_new_def immutable_new_def immutable_new_empty_def bind_eq_Some_conv)
  ultimately show thesis using first_write [OF db config_default_positive(1,2) fits(1), of H 0 Map.empty] db that by auto
qed

text \<open>A run from the empty database, as a run of the machine.\<close>

lemma fresh_run:
  assumes "lsmlite_new fs files (Inr w) [] [] config = Some db" "finite (dom disk)"
    and "0 < unat (cf_max_memtable_nodes config)" "0 < unat (cf_max_memtable_size config)"
    and "run (sys_step H) (sys_start now disk db) ls s" "in_bounds lsm_empty ls" "keeps_length k n (trace_writes ls)"
  obtains A where "run lsm_step lsm_empty ls A" "sys_match H A s" "lsm_writes A = trace_writes ls" "keeps_length k n (lsm_memory A)"
proof -
  have "sys_match H lsm_empty (sys_start now disk db)" by (rule fresh_database(1) [OF assms(1,3,4,2)])
  then obtain A where A: "run lsm_step lsm_empty ls A" "sys_match H A s" using sys.run_simulation [OF assms(5), of lsm_empty "[]"] assms(6) by auto
  have w: "lsm_writes A = trace_writes ls" using lsm_run_writes [OF A(1)] by simp
  then have "keeps_length k n (lsm_memory A)" using assms(7) by (simp add: lsm_writes_def flip: w)
  with A w show thesis by (rule that)
qed

text \<open>A read of a key with values of one length.\<close>

lemma steady_read:
  assumes "sys_match H A s" "keeps_length k n (lsm_memory A)" "full_reads R"
  shows "\<exists>db'. db_get H R k (sys_db s) = Some (data_of (lsm_view A k), db')"
  using read_answer [OF _ keeps_length_tidy [OF assms(2)] assms(3)] assms(1) keeps_length_get [OF assms(2)]
  by (simp add: sys_match_def)

section \<open>Steps with known outcomes\<close>

lemma room_step:
  assumes m: "sys_match H A s" and fits: "rec_fits k p" and i: "write_entry calm_env k p (mem_inner (db_memtable (sys_db s))) = Some (Inr inner)"
  defines "s' \<equiv> s\<lparr>sys_db := (sys_db s)\<lparr>db_memtable := (db_memtable (sys_db s))\<lparr>mem_inner := inner\<rparr>\<rparr>, sys_clock := Suc (sys_clock s)\<rparr>"
  shows "sys_step H s (Wrote k p) s'" "sys_match H (A\<lparr>l_mem := l_mem A @ [(k, p)]\<rparr>) s'"
proof -
  let ?oe = "\<lparr>oe_first = calm_env, oe_second = calm_env, oe_wal = Inr (wal_new 0 (generate_wal_file_name (Suc (sys_clock s))))\<rparr>"
  have nf: "\<not> full (mem_inner (db_memtable (sys_db s)))" and np: "\<not> db_poisoned (sys_db s)"
    using i write_entry_full [of "mem_inner (db_memtable (sys_db s))" calm_env k p] m by (auto simp: sys_match_def db_match_def)
  have "sys_step H s (write_label s k p) s'"
    unfolding s'_def by (rule sys_step.put [of "Suc (sys_clock s)" ?oe]) (use db_write_room [OF np, of ?oe k p inner] i in \<open>auto simp: op_calm_def\<close>)
  then show "sys_step H s (Wrote k p) s'" using nf by (simp add: write_label_def)
  show "sys_match H (A\<lparr>l_mem := l_mem A @ [(k, p)]\<rparr>) s'" using match_room [OF m fits i] by (simp add: s'_def)
qed

lemma rotate_step:
  assumes m: "sys_match H A s" and fits: "rec_fits k p" and f: "full (mem_inner (db_memtable (sys_db s)))"
    and i: "write_entry calm_env k p (memtable_new (mem_max_size (db_memtable (sys_db s))) (mem_max_nodes (db_memtable (sys_db s)))
      (wal_new 0 (generate_wal_file_name (Suc (sys_clock s))))) = Some (Inr inner)"
    and room: "length (db_memtable_channel (sys_db s)) < db_flush_cap (sys_db s)"
  defines "s' \<equiv> s\<lparr>sys_db := (sys_db s)\<lparr>db_memtable := (db_memtable (sys_db s))\<lparr>mem_inner := inner\<rparr>,
     db_immutable := immutable_insert (mem_inner (db_memtable (sys_db s))) (db_immutable (sys_db s)),
     db_memtable_channel := db_memtable_channel (sys_db s) @ [Flush]\<rparr>, sys_clock := Suc (sys_clock s)\<rparr>"
  shows "sys_step H s (Rotated k p) s'" "sys_match H (A\<lparr>l_queue := l_queue A @ [l_mem A], l_mem := [(k, p)]\<rparr>) s'"
proof -
  let ?w = "wal_new 0 (generate_wal_file_name (Suc (sys_clock s)))"
  let ?oe = "\<lparr>oe_first = calm_env, oe_second = calm_env, oe_wal = Inr ?w\<rparr>" and ?db = "sys_db s"
  let ?m = "memtable_new (mem_max_size (db_memtable ?db)) (mem_max_nodes (db_memtable ?db)) ?w"
  let ?db1 = "?db\<lparr>db_memtable := (db_memtable ?db)\<lparr>mem_inner := ?m\<rparr>,
     db_immutable := immutable_insert (mem_inner (db_memtable ?db)) (db_immutable ?db), db_memtable_channel := db_memtable_channel ?db @ [Flush]\<rparr>"
  have np: "\<not> db_poisoned ?db" using m by (simp add: sys_match_def db_match_def)
  have "rotate_table (oe_wal ?oe) ?db = Some ?db1"
    using room by (simp add: rotate_table_def Memtable_rotate_def memtable_inner_new_def chan_send_def)
  from db_write_rotate [OF np f this, of k p "Inr inner"] i have "db_write ?oe k p ?db = Some (sys_db s')" by (simp add: s'_def)
  then have "sys_step H s (write_label s k p) (s\<lparr>sys_db := sys_db s', sys_clock := Suc (sys_clock s)\<rparr>)"
    by (intro sys_step.put [of "Suc (sys_clock s)" ?oe]) (auto simp: op_calm_def)
  then show "sys_step H s (Rotated k p) s'" using f by (simp add: write_label_def s'_def)
  show "sys_match H (A\<lparr>l_queue := l_queue A @ [l_mem A], l_mem := [(k, p)]\<rparr>) s'"
    using match_rotate [OF m fits i room refl] by (simp add: s'_def)
qed

lemma flush_step:
  assumes m: "sys_match H A s" and idle: "sys_flush_task s = FlushIdle" and q: "l_queue A \<noteq> []" and fl: "\<forall>g \<in> set (l_queue A). flushable g"
  obtains bs where "sys_step H s Internal ((after_flush (generate_sstable_file_name (Suc (sys_clock s))) bs
      (wal_filename (mt_wal (hd (im_table (db_immutable (sys_db s)))))) s)\<lparr>sys_clock := Suc (sys_clock s)\<rparr>)"
    "sys_match H A ((after_flush (generate_sstable_file_name (Suc (sys_clock s))) bs
      (wal_filename (mt_wal (hd (im_table (db_immutable (sys_db s)))))) s)\<lparr>sys_clock := Suc (sys_clock s)\<rparr>)"
proof -
  have "length (db_memtable_channel (sys_db s)) = length (l_queue A)"
    using m idle by (simp add: sys_match_def pipeline_def Let_def)
  then obtain sig s1 where recv: "recv_flush s = Some (sig, s1)"
    using q by (cases "db_memtable_channel (sys_db s)") (auto simp: recv_flush_def)
  obtain env where env: "flush_calm H (Suc (sys_clock s)) env" using calm_flush_env by blast
  then have n: "fe_filename env = generate_sstable_file_name (Suc (sys_clock s))" by (simp add: flush_calm_def)
  from flush_runs [OF m idle recv env fl] obtain g gs inner rest bs t kps where
    f: "flush_memtable env sig s1 = Some (after_flush (fe_filename env) bs (wal_filename (mt_wal inner)) s)"
    "im_table (db_immutable (sys_db s)) = inner # rest" "db_memtable_channel (sys_db s) \<noteq> []" "l_queue A = g # gs"
    "sstable_from_fd (file_open bs) = Some (Inr t)" "indexed H kps t" "stored g kps" by metis
  show thesis using sys_step.flush [OF idle recv env _ f(1)] match_flush [OF m idle f(3-7)] f(2) that [of bs] by (simp add: n)
qed

section \<open>A database with two slots per memtable\<close>

abbreviation two_slot_config :: "u64 \<Rightarrow> LsmliteConfig" where
  "two_slot_config r \<equiv> config_default\<lparr>cf_max_memtable_nodes := 2, cf_compaction_rate := r\<rparr>"

lemma two_slots:
  assumes "0 < ms" "rec_fits k p" "rec_fits k' p'" "k \<noteq> k'"
  obtains t u where "write_entry calm_env k p (memtable_new ms 2 (wal_new 0 name)) = Some (Inr t)"
    "write_entry calm_env k' p' t = Some (Inr u)" "full u"
    "f_data (wal_fd (mt_wal u)) = enc_blob k p" "wal_filename (mt_wal u) = name"
proof -
  let ?w = "wal_new 0 name" and ?m = "memtable_new ms 2 (wal_new 0 name)"
  obtain t where t: "write_entry calm_env k p ?m = Some (Inr t)"
    using assms(1) by (rule_tac write_entry_stored [of ?m k p calm_env, OF _ assms(2)]) simp_all
  have wt: "written ms 2 ?w [(k, p)] t" using written.store [OF written.fresh _ assms(2) t] by simp
  have "length (mt_arena t) = 1"
    using mt_inv_size [OF written_view(1) [OF wt]] written_view(2) [OF wt] by (simp add: last_writes_def)
  then have nf: "\<not> full t" using written_first_size [OF wt] written_capacity [OF wt] assms(1) by (simp add: full_def)
  have "may_replace k' (mt_view t k') p'" using assms(4) written_view(2) [OF wt] by (simp add: last_writes_def)
  from write_entry_stored [OF written_view(1) [OF wt] assms(3) nf this] obtain u where
    u: "write_entry calm_env k' p' t = Some (Inr u)" by blast
  have wu: "written ms 2 ?w [(k, p), (k', p')] u" using written.store [OF wt _ assms(3) u] by simp
  have "length (mt_arena u) = 2"
    using mt_inv_size [OF written_view(1) [OF wu]] written_view(2) [OF wu] assms(4) by (simp add: last_writes_def)
  then have "full u" using written_capacity [OF wu] by (simp add: full_def)
  moreover have "mt_wal u = write_log calm_env (enc_blob k' p') (write_log calm_env (enc_blob k p) ?w)"
    using write_entry_replays(2) [OF assms(3) u] write_entry_replays(2) [OF assms(2) t] by simp
  then have "f_data (wal_fd (mt_wal u)) = enc_blob k p" "wal_filename (mt_wal u) = name"
    by (simp_all add: write_log_def needs_flush_def wal_new_def wal_flush_def file_write_def
        file_create_def calm_env_def Let_def DEFAULT_WAL_BUFFER_FLUSH_TIME_def)
  ultimately show thesis using that t u by blast
qed

text \<open>
  Four writes, the third of which rotates the memtable, and the flush of the first two: the table is on
  disk and about to be loaded, the log of the new memtable has the third write, its buffer the fourth.
\<close>

abbreviation sample_trace :: "Label list" where
  "sample_trace \<equiv> [Wrote [1] (Some [2]), Wrote [3] (Some [4]), Rotated [5] (Some [6]), Wrote [7] (Some [8]), Internal]"

lemma sample_fits: "rec_fits [1] (Some [2])" "rec_fits [3] (Some [4])" "rec_fits [5] (Some [6])" "rec_fits [7] (Some [8])"
  and sample_flushable: "flushable [([1], Some [2]), ([3], Some [4]), ([5], Some [6]), ([7], Some [8])]"
proof -
  have e: "enc_blob [5] (Some [6]) = [0, 4, 1, 5, 1, 6]" "enc_blob [7] (Some [8]) = [0, 4, 1, 7, 1, 8]"
    "rec_head [5] [6] = [0, 4, 1, 5, 1]" "rec_head [7] [8] = [0, 4, 1, 7, 1]" by code_simp+
  show "rec_fits [1] (Some [2])" "rec_fits [3] (Some [4])" "rec_fits [5] (Some [6])" "rec_fits [7] (Some [8])"
    by (simp_all add: rec_fits_def example_blobs e)
  show "flushable [([1], Some [2]), ([3], Some [4]), ([5], Some [6]), ([7], Some [8])]"
    unfolding flushable_def by (intro conjI branching_small; simp add: heads_ok_def example_blobs e)
qed

lemma sample_bounds: "in_bounds lsm_empty (sample_trace @ [Compacted])" "in_bounds lsm_empty sample_trace"
proof -
  have "flushable [([1], Some [2]), ([3], Some [4])]" "flushable [([5], Some [6]), ([7], Some [8])]"
    by (rule flushable_mono [OF sample_flushable]; simp)+
  then show "in_bounds lsm_empty (sample_trace @ [Compacted])" "in_bounds lsm_empty sample_trace"
    using sample_flushable by (simp_all add: in_bounds_def)
qed

lemma two_slot_database:
  obtains db where "lsmlite_new example_fs (\<lambda>_. Inl OsError) (Inr (wal_new 0 name)) [] [] (two_slot_config r) = Some db"
    "mem_inner (db_memtable db) = memtable_new (unat (cf_max_memtable_size config_default)) 2 (wal_new 0 name)"
    "mem_max_size (db_memtable db) = unat (cf_max_memtable_size config_default)" "mem_max_nodes (db_memtable db) = 2"
    "im_table (db_immutable db) = []" "db_memtable_channel db = []" "0 < db_flush_cap db" "sc_compaction_rate (db_sstable_cache db) = unat r"
proof -
  from lsmlite_new_restores [of "[]" _ "\<lambda>_. Inl OsError" "\<lambda>_. []" "[]" "two_slot_config r" example_fs "\<lambda>_. []" "wal_new 0 name"]
  obtain db where db: "lsmlite_new example_fs (\<lambda>_. Inl OsError) (Inr (wal_new 0 name)) [] [] (two_slot_config r) = Some db"
    using config_default_positive by auto
  then show thesis
    by (intro that [OF db]) (auto simp: lsmlite_new_def construct_memtable_def Memtable_new_def memtable_inner_new_def cache_new_def
        immutable_new_def immutable_new_empty_def construct_sstable_cache_def bind_eq_Some_conv assert_that_def split: if_splits)
qed

lemma sample_run:
  obtains db s where "lsmlite_new example_fs (\<lambda>_. Inl OsError) (Inr (wal_new 0 (generate_wal_file_name 0))) [] [] (two_slot_config r) = Some db"
    "run (sys_step H) (sys_start 0 Map.empty db) sample_trace s"
    "sys_match H \<lparr>l_mem = [([5], Some [6]), ([7], Some [8])], l_queue = [[([1], Some [2]), ([3], Some [4])]], l_loaded = [], l_tables = []\<rparr> s"
    "sys_clock s = 5" "dom (sys_disk s) = {generate_sstable_file_name 5}" "crash_logs s = [(generate_wal_file_name 3, enc_blob [5] (Some [6]))]"
    "sys_flush_task s = FlushAwaitAck" "sys_acks s = 0" "sc_compaction_rate (db_sstable_cache (sys_db s)) = unat r"
proof -
  let ?c = "two_slot_config r" and ?w = "wal_new 0 (generate_wal_file_name 0)" and ?v = "wal_new 0 (generate_wal_file_name 3)"
  let ?ms = "unat (cf_max_memtable_size config_default)"
  obtain db where db: "lsmlite_new example_fs (\<lambda>_. Inl OsError) (Inr ?w) [] [] ?c = Some db"
    and d: "mem_inner (db_memtable db) = memtable_new ?ms 2 ?w" "mem_max_size (db_memtable db) = ?ms" "mem_max_nodes (db_memtable db) = 2"
      "im_table (db_immutable db) = []" "db_memtable_channel db = []" "0 < db_flush_cap db" "sc_compaction_rate (db_sstable_cache db) = unat r"
    by (rule two_slot_database)
  have pos: "0 < unat (cf_max_memtable_nodes ?c)" "0 < unat (cf_max_memtable_size ?c)" "0 < ?ms" using config_default_positive by simp_all
  obtain t1 t2 where t: "write_entry calm_env [1] (Some [2]) (memtable_new ?ms 2 ?w) = Some (Inr t1)"
    "write_entry calm_env [3] (Some [4]) t1 = Some (Inr t2)" "full t2" "wal_filename (mt_wal t2) = generate_wal_file_name 0"
    by (rule two_slots [OF pos(3) sample_fits(1,2)]) auto
  obtain u1 u2 where u: "write_entry calm_env [5] (Some [6]) (memtable_new ?ms 2 ?v) = Some (Inr u1)"
    "write_entry calm_env [7] (Some [8]) u1 = Some (Inr u2)" "wal_filename (mt_wal u2) = generate_wal_file_name 3"
    "f_data (wal_fd (mt_wal u2)) = enc_blob [5] (Some [6])"
    by (rule two_slots [OF pos(3) sample_fits(3,4)]) auto
  define s0 where "s0 = sys_start 0 Map.empty db"
  define s1 where "s1 = s0\<lparr>sys_db := (sys_db s0)\<lparr>db_memtable := (db_memtable (sys_db s0))\<lparr>mem_inner := t1\<rparr>\<rparr>, sys_clock := Suc (sys_clock s0)\<rparr>"
  define s2 where "s2 = s1\<lparr>sys_db := (sys_db s1)\<lparr>db_memtable := (db_memtable (sys_db s1))\<lparr>mem_inner := t2\<rparr>\<rparr>, sys_clock := Suc (sys_clock s1)\<rparr>"
  define s3 where "s3 = s2\<lparr>sys_db := (sys_db s2)\<lparr>db_memtable := (db_memtable (sys_db s2))\<lparr>mem_inner := u1\<rparr>,
     db_immutable := immutable_insert (mem_inner (db_memtable (sys_db s2))) (db_immutable (sys_db s2)),
     db_memtable_channel := db_memtable_channel (sys_db s2) @ [Flush]\<rparr>, sys_clock := Suc (sys_clock s2)\<rparr>"
  define s4 where "s4 = s3\<lparr>sys_db := (sys_db s3)\<lparr>db_memtable := (db_memtable (sys_db s3))\<lparr>mem_inner := u2\<rparr>\<rparr>, sys_clock := Suc (sys_clock s3)\<rparr>"
  note defs = s0_def s1_def s2_def s3_def s4_def sys_start_def d immutable_insert_def
  have m0: "sys_match H lsm_empty s0" unfolding s0_def by (rule fresh_database(1) [OF db pos(1,2)]) simp
  have w1: "write_entry calm_env [1] (Some [2]) (mem_inner (db_memtable (sys_db s0))) = Some (Inr t1)" using t(1) by (simp add: defs)
  note r1 = room_step [OF m0 sample_fits(1) w1, folded s1_def]
  have w2: "write_entry calm_env [3] (Some [4]) (mem_inner (db_memtable (sys_db s1))) = Some (Inr t2)" using t(2) by (simp add: defs)
  note r2 = room_step [OF r1(2) sample_fits(2) w2, folded s2_def]
  have w3: "full (mem_inner (db_memtable (sys_db s2)))" "write_entry calm_env [5] (Some [6])
      (memtable_new (mem_max_size (db_memtable (sys_db s2))) (mem_max_nodes (db_memtable (sys_db s2)))
        (wal_new 0 (generate_wal_file_name (Suc (sys_clock s2))))) = Some (Inr u1)"
    "length (db_memtable_channel (sys_db s2)) < db_flush_cap (sys_db s2)"
    using t(3) u(1) by (simp_all add: defs numeral_3_eq_3)
  note r3 = rotate_step [OF r2(2) sample_fits(3) w3, folded s3_def]
  have w4: "write_entry calm_env [7] (Some [8]) (mem_inner (db_memtable (sys_db s3))) = Some (Inr u2)" using u(2) by (simp add: defs)
  note r4 = room_step [OF r3(2) sample_fits(4) w4, folded s4_def]
  let ?B = "\<lparr>l_mem = [([5 :: u8], Some [6 :: u8]), ([7], Some [8])], l_queue = [[([1], Some [2]), ([3], Some [4])]], l_loaded = [], l_tables = []\<rparr>"
  have m4: "sys_match H ?B s4" using r4(2) by simp
  have fl: "\<forall>g \<in> set (l_queue ?B). flushable g" "l_queue ?B \<noteq> []" using example_flushable(1) by simp_all
  have n4: "sys_clock s4 = 4" "sys_flush_task s4 = FlushIdle" "im_table (db_immutable (sys_db s4)) = [t2]"
    "mem_inner (db_memtable (sys_db s4)) = u2" "sys_removed s4 = {}" "sys_disk s4 = Map.empty" "sys_acks s4 = 0"
    "sc_compaction_rate (db_sstable_cache (sys_db s4)) = unat r" by (simp_all add: defs)
  obtain bs where r5: "sys_step H s4 Internal ((after_flush (generate_sstable_file_name 5) bs (generate_wal_file_name 0) s4)\<lparr>sys_clock := 5\<rparr>)"
    "sys_match H ?B ((after_flush (generate_sstable_file_name 5) bs (generate_wal_file_name 0) s4)\<lparr>sys_clock := 5\<rparr>)"
    using flush_step [OF m4 n4(2) fl(2,1)] n4(1,3) t(4) by (auto simp: eval_nat_numeral)
  let ?s = "(after_flush (generate_sstable_file_name 5) bs (generate_wal_file_name 0) s4)\<lparr>sys_clock := 5\<rparr>"
  have "run (sys_step H) (sys_start 0 Map.empty db) sample_trace ?s"
    using r1(1) r2(1) r3(1) r4(1) r5(1) by (fold s0_def) (blast intro: run.intros)
  moreover have "crash_logs ?s = [(generate_wal_file_name 3, enc_blob [5] (Some [6]))]"
    using n4 t(4) u(3,4) by (simp add: crash_logs_def after_flush_def names_inj)
  ultimately show thesis using db r5(2) n4 by (intro that [of db ?s]) (simp_all add: after_flush_def)
qed

end
