(* ===== verification/System_Props.thy ===== *)
theory System_Props
  imports Sample_Run
begin

text \<open>The properties of the whole database: clients, background tasks, crashes and restarts together.\<close>

section \<open>Refinement\<close>

text \<open>
  C1: the database refines the abstract machine of \<open>Lsm_Spec\<close>, reads included.  Every run in which the
  operating system does not fail, client writes and reads interleaved in any order with flushes,
  loads of the flushed tables, compactions and acknowledgements, is a run of the machine with the
  same labels and keeps the relation to it.  In the machine a read returns the newest data of the
  memtable, else of the queue, else of the tables, a tombstone ending the search of its layer only,
  whenever the key is tidy: within each generation still in memory its writes only fill an absent key,
  delete it, or replace a value by one of the same length (what \<^verbatim>\<open>get\<close> returns for the other keys is
  left open here).  Without a compaction this machine is a map for the keys that are never deleted and
  get values of one length only: the contents are changed by the writes, in order and by nothing else, and every
  read of such a key returns what the map holds at that moment.  The generations of the memtable must fit
  into an SSTable each, and all writes into one if a compaction happens.
\<close>

theorem database_refines_lsm:
  assumes "sys_match H A s" "run (sys_step H) s ls s'" "in_bounds A ls"
  shows "\<exists>A'. run lsm_step A ls A' \<and> sys_match H A' s' \<and> db_view (l_tables A') (sys_db s') = lsm_view A' \<and>
    (Compacted \<notin> set ls \<longrightarrow>
      run (map_step {k. \<exists>n. keeps_length k n (lsm_memory A @ trace_writes ls)})
        (db_view (l_tables A) (sys_db s)) ls (db_view (l_tables A') (sys_db s')))"
proof -
  from sys.run_simulation [OF assms(2,1), of "[]"] assms(3) obtain A' where
    A': "run lsm_step A ls A'" "sys_match H A' s'" by auto
  have v: "db_view (l_tables A) (sys_db s) = lsm_view A" "db_view (l_tables A') (sys_db s') = lsm_view A'"
    using sys_match_view [OF assms(1)] sys_match_view [OF A'(2)] .
  have "run (map_step {k. \<exists>n. keeps_length k n (lsm_memory A @ trace_writes ls)}) (lsm_view A) ls (lsm_view A')" if "Compacted \<notin> set ls"
    by (rule lsm_run_map [OF A'(1) that]) simp
  then show ?thesis using A' v by (intro exI [of _ A']) simp
qed

theorem database_refines_lsm_witness:
  "\<exists>s s' A r. run (sys_step (\<lambda>s k. s)) s [Wrote [1] (Some [2]), Got [1] r] s' \<and> sys_match (\<lambda>s k. s) A s' \<and>
     db_view (l_tables A) (sys_db s') = [[1] \<mapsto> Some [2]] \<and> r = Some [2]"
proof -
  let ?H = "\<lambda>s k. s :: u64"
  obtain db s where db: "lsmlite_new example_fs (\<lambda>_. Inl OsError) (Inr (wal_new 0 (generate_wal_file_name 0))) [] [] config_default = Some db"
    and run: "run (sys_step ?H) (sys_start 0 Map.empty db) [Wrote [1] (Some [2])] s" "in_bounds lsm_empty [Wrote [1] (Some [2])]"
    by (rule example_write [of ?H])
  have m: "sys_match ?H lsm_empty (sys_start 0 Map.empty db)" by (rule fresh_database(1) [OF db config_default_positive(1,2)]) simp
  obtain A where A: "sys_match ?H A s" "keeps_length [1] 1 (lsm_memory A)"
    by (rule fresh_run [OF db _ config_default_positive(1,2) run, of "[1]" 1]) (simp_all add: keeps_length_def)
  obtain r db' where "db_get ?H (\<lambda>_ n. Inr n) [1] (sys_db s) = Some (r, db')"
    using steady_read [OF A, of "\<lambda>_ n. Inr n"] by (auto simp: full_reads_def)
  then have "sys_step ?H s (Got [1] r) (s\<lparr>sys_db := db'\<rparr>)" by (intro sys_step.get) (simp_all add: full_reads_def)
  then have run': "run (sys_step ?H) (sys_start 0 Map.empty db) [Wrote [1] (Some [2]), Got [1] r] (s\<lparr>sys_db := db'\<rparr>)"
    using run(1) by (auto simp: run_Cons)
  have b: "in_bounds lsm_empty [Wrote [1] (Some [2]), Got [1] r]" using run(2) by (simp add: in_bounds_def)
  have v: "db_view (l_tables lsm_empty) (sys_db (sys_start 0 Map.empty db)) = Map.empty" using sys_match_view [OF m] by simp
  have K: "[1] \<in> {k. \<exists>n. keeps_length k n (lsm_memory lsm_empty @ trace_writes [Wrote [1] (Some [2]), Got [1] r])}"
    by (auto simp: keeps_length_def)
  from database_refines_lsm [OF m run' b, unfolded v] obtain A' where "sys_match ?H A' (s\<lparr>sys_db := db'\<rparr>)"
    "run (map_step {k. \<exists>n. keeps_length k n (lsm_memory lsm_empty @ trace_writes [Wrote [1] (Some [2]), Got [1] r])}) Map.empty
      [Wrote [1] (Some [2]), Got [1] r] (db_view (l_tables A') (sys_db (s\<lparr>sys_db := db'\<rparr>)))" by auto
  moreover from this(2) K have "db_view (l_tables A') (sys_db (s\<lparr>sys_db := db'\<rparr>)) = [[1] \<mapsto> Some [2]]" "r = Some [2]"
    by (simp_all add: run_Cons map_step_def)
  ultimately show ?thesis using run' by blast
qed

text \<open>
  C2: a client reads its writes, for keys that are never deleted and whose values all have one length.
  Starting from an empty directory, after any such run without a compaction, \<^verbatim>\<open>get\<close> returns for such a key
  the value written last, wherever the background tasks have moved it, and \<^verbatim>\<open>None\<close> if there was no write.
\<close>

theorem read_your_writes:
  assumes "lsmlite_new fs files (Inr w) [] [] config = Some db" "finite (dom disk)"
    and "0 < unat (cf_max_memtable_nodes config)" "0 < unat (cf_max_memtable_size config)"
    and "run (sys_step H) (sys_start now disk db) ls s" "in_bounds lsm_empty ls" "Compacted \<notin> set ls"
    and "keeps_length k n (trace_writes ls)" "full_reads R"
  shows "\<exists>db'. db_get H R k (sys_db s) = Some (data_of (last_writes (trace_writes ls) k), db')"
proof -
  obtain A where A: "run lsm_step lsm_empty ls A" "sys_match H A s" "keeps_length k n (lsm_memory A)"
    by (rule fresh_run [OF assms(1-6,8)])
  have "lsm_view A = last_writes (trace_writes ls)" using lsm_run_view [OF A(1) assms(7)] by (simp add: fold_label_effect)
  then show ?thesis using steady_read [OF A(2,3) assms(9)] by simp
qed

theorem read_your_writes_witness:
  "\<exists>db s db'. lsmlite_new example_fs (\<lambda>_. Inl OsError) (Inr (wal_new 0 (generate_wal_file_name 0))) [] [] (two_slot_config 10) = Some db \<and>
     run (sys_step (\<lambda>s k. s)) (sys_start 0 Map.empty db) sample_trace s \<and>
     db_get (\<lambda>s k. s) (\<lambda>_ n. Inr n) [1] (sys_db s) = Some (Some [2], db')"
proof -
  let ?H = "\<lambda>s k. s :: u64" and ?c = "two_slot_config 10"
  obtain db s where db: "lsmlite_new example_fs (\<lambda>_. Inl OsError) (Inr (wal_new 0 (generate_wal_file_name 0))) [] [] ?c = Some db"
    and run: "run (sys_step ?H) (sys_start 0 Map.empty db) sample_trace s" by (rule sample_run [of 10 ?H])
  have "\<exists>db'. db_get ?H (\<lambda>_ n. Inr n) [1] (sys_db s) = Some (data_of (last_writes (trace_writes sample_trace) [1]), db')"
    by (rule read_your_writes [OF db _ _ _ run sample_bounds(2), of _ 1])
      (use config_default_positive in \<open>simp_all add: keeps_length_def full_reads_def\<close>)
  then show ?thesis using db run by (auto simp: last_writes_def)
qed

text \<open>
  C3: compactions invent nothing and forget nothing, for keys that are never deleted and whose values all
  have one length.  Starting from an empty directory, after any run, compactions included, \<^verbatim>\<open>get\<close> returns
  for such a key one of the values that were written to it, and \<^verbatim>\<open>None\<close> exactly if there was none.  (Which
  of the values a compaction keeps is not determined; a key that was written only once reads as written.)
\<close>

theorem reads_survive_compaction:
  assumes "lsmlite_new fs files (Inr w) [] [] config = Some db" "finite (dom disk)"
    and "0 < unat (cf_max_memtable_nodes config)" "0 < unat (cf_max_memtable_size config)"
    and "run (sys_step H) (sys_start now disk db) ls s" "in_bounds lsm_empty ls"
    and "keeps_length k n (trace_writes ls)" "full_reads R"
  shows "\<exists>r db'. db_get H R k (sys_db s) = Some (r, db') \<and>
    (case r of None \<Rightarrow> k \<notin> fst ` set (trace_writes ls) | Some v \<Rightarrow> (k, Some v) \<in> set (trace_writes ls))"
proof -
  obtain A where A: "sys_match H A s" "keeps_length k n (lsm_memory A)" and w: "lsm_writes A = trace_writes ls"
    by (rule fresh_run [OF assms(1-7)])
  have inv: "lsm_inv A" using A(1) by (simp add: sys_match_def)
  have "case data_of (lsm_view A k) of None \<Rightarrow> k \<notin> fst ` set (trace_writes ls) | Some v \<Rightarrow> (k, Some v) \<in> set (trace_writes ls)"
    using lsm_view_written [OF inv, of k] lsm_view_known [OF inv, of k] assms(7)
    by (fastforce simp: w lasting_def keeps_length_def data_of_def split: option.split)
  then show ?thesis using steady_read [OF A assms(8)] by blast
qed

theorem reads_survive_compaction_witness:
  "\<exists>db s db'. lsmlite_new example_fs (\<lambda>_. Inl OsError) (Inr (wal_new 0 (generate_wal_file_name 0))) [] [] (two_slot_config 1) = Some db \<and>
     run (sys_step (\<lambda>s k. s)) (sys_start 0 Map.empty db) (sample_trace @ [Compacted]) s \<and>
     db_get (\<lambda>s k. s) (\<lambda>_ n. Inr n) [1] (sys_db s) = Some (Some [2], db')"
proof -
  let ?H = "\<lambda>s k. s :: u64" and ?c = "two_slot_config 1" and ?ls = "sample_trace @ [Compacted]"
  let ?A = "\<lparr>l_mem = [([5 :: u8], Some [6 :: u8]), ([7], Some [8])], l_queue = [[([1], Some [2]), ([3], Some [4])]], l_loaded = [], l_tables = []\<rparr>"
  obtain db s where db: "lsmlite_new example_fs (\<lambda>_. Inl OsError) (Inr (wal_new 0 (generate_wal_file_name 0))) [] [] ?c = Some db"
    and run: "run (sys_step ?H) (sys_start 0 Map.empty db) sample_trace s"
    and s: "sys_match ?H ?A s" "sys_flush_task s = FlushAwaitAck" "sys_acks s = 0" "sc_compaction_rate (db_sstable_cache (sys_db s)) = unat (1 :: u64)"
    by (rule sample_run [of 1 ?H])
  have "flushable (lsm_writes ?A)" "compacts s" using sample_flushable s(4) by (simp_all add: lsm_writes_def compacts_def)
  then obtain s' where "sys_step ?H s Compacted s'" using load_progress [OF s(1) _ s(2,3)] by auto
  with run have run': "run (sys_step ?H) (sys_start 0 Map.empty db) ?ls s'" unfolding run_append run_single by blast
  have "\<exists>r db'. db_get ?H (\<lambda>_ n. Inr n) [1] (sys_db s') = Some (r, db') \<and>
      (case r of None \<Rightarrow> [1] \<notin> fst ` set (trace_writes ?ls) | Some v \<Rightarrow> ([1], Some v) \<in> set (trace_writes ?ls))"
    by (rule reads_survive_compaction [OF db _ _ _ run' sample_bounds(1), of _ 1])
      (use config_default_positive in \<open>simp_all add: keeps_length_def full_reads_def\<close>)
  then show ?thesis using db run' by (auto split: option.splits)
qed

section \<open>Liveness\<close>

text \<open>
  C6: the queue of full memtables drains.  The background tasks can always continue while a table waits,
  also when a load sets off a compaction; every sequence of their steps ends after at most
  \<open>flush_work\<close> steps, some sequence empties the queue, and the relation to the abstract machine and
  its history are kept.
\<close>

theorem pipeline_drains:
  assumes "drain_match H A s"
  shows "(\<exists>n s'. ((internal H) ^^ n) s s' \<and> im_table (db_immutable (sys_db s')) = []) \<and>
    (\<forall>n s'. ((internal H) ^^ n) s s' \<longrightarrow> n \<le> flush_work s \<and>
       (im_table (db_immutable (sys_db s')) = [] \<or> (\<exists>s''. internal H s' s'')) \<and>
       (\<exists>A'. drain_match H A' s' \<and> lsm_writes A' = lsm_writes A))"
proof (intro conjI allI impI)
  show "\<exists>n s'. ((internal H) ^^ n) s s' \<and> im_table (db_immutable (sys_db s')) = []" by (rule drain_exists [OF assms])
  fix n s'
  assume "((internal H) ^^ n) s s'"
  from internal_runs [OF this assms] obtain A' where
    r: "n + flush_work s' \<le> flush_work s" "drain_match H A' s'" "lsm_writes A' = lsm_writes A" by blast
  show "n \<le> flush_work s" using r(1) by simp
  show "im_table (db_immutable (sys_db s')) = [] \<or> (\<exists>s''. internal H s' s'')" using internal_progress [OF r(2)] by blast
  show "\<exists>A'. drain_match H A' s' \<and> lsm_writes A' = lsm_writes A" using r by blast
qed

text \<open>A queue with one table, its flush pending.\<close>

lemma one_pending:
  obtains db t where "0 < db_flush_cap db" "db_signal db = []" "gen_holds [([1], Some [2])] t" "flushable [([1], Some [2])]"
    "\<And>c ch sig. cache_holds H [] c \<Longrightarrow> set ch \<subseteq> {Flush} \<Longrightarrow> length ch \<le> 1 \<Longrightarrow>
       db_match H \<lparr>l_mem = [], l_queue = [[([1], Some [2])]], l_loaded = [], l_tables = []\<rparr>
         (db\<lparr>db_sstable_cache := c, db_signal := sig, db_memtable_channel := ch, db_immutable := \<lparr>im_table = [t]\<rparr>\<rparr>)"
proof -
  obtain db where db: "lsmlite_new example_fs (\<lambda>_. Inl OsError) (Inr (wal_new 0 ''w'')) [] [] config_default = Some db"
    by (rule example_database)
  have m: "db_match H lsm_empty db"
    using fresh_database(1) [OF db config_default_positive(1,2), of Map.empty H 0] by (simp add: sys_match_def sys_start_def)
  have cap: "0 < db_flush_cap db" "db_signal db = []"
    using db by (auto simp: lsmlite_new_def bind_eq_Some_conv assert_that_def split: if_splits)
  have fits: "rec_fits [1] (Some [2])" "flushable [([1], Some [2])]"
    by (simp add: rec_fits_def example_blobs) (intro flushable_mono [OF example_flushable(1)]; simp)
  obtain t where "write_entry calm_env [1] (Some [2]) (memtable_new 10 1 (wal_new 0 ''v'')) = Some (Inr t)"
    by (rule write_entry_stored [of "memtable_new 10 1 (wal_new 0 ''v'')", OF _ fits(1)]) simp_all
  then have t: "gen_holds [([1], Some [2])] t" using gen_holds_write [OF gen_holds_new fits(1)] by fastforce
  show thesis using that [OF cap t fits(2)] m t cap(1) by (fastforce simp: db_match_def)
qed

theorem pipeline_drains_witness:
  "\<exists>s n s'. length (im_table (db_immutable (sys_db s))) = 1 \<and> ((internal (\<lambda>s k. s)) ^^ n) s s' \<and>
     im_table (db_immutable (sys_db s')) = []"
proof -
  let ?H = "\<lambda>s k. s :: u64" and ?g = "[([1 :: u8], Some [2 :: u8])]"
  obtain db t where d: "gen_holds ?g t" "flushable ?g"
    and m: "\<And>c ch sig. cache_holds ?H [] c \<Longrightarrow> set ch \<subseteq> {Flush} \<Longrightarrow> length ch \<le> 1 \<Longrightarrow>
       db_match ?H \<lparr>l_mem = [], l_queue = [?g], l_loaded = [], l_tables = []\<rparr>
         (db\<lparr>db_sstable_cache := c, db_signal := sig, db_memtable_channel := ch, db_immutable := \<lparr>im_table = [t]\<rparr>\<rparr>)"
    by (rule one_pending [of ?H]) blast
  define s where "s = sys_start 0 Map.empty (db\<lparr>db_sstable_cache := cache_new 10, db_signal := [], db_memtable_channel := [Flush],
    db_immutable := \<lparr>im_table = [t]\<rparr>\<rparr>)"
  have "drain_match ?H \<lparr>l_mem = [], l_queue = [?g], l_loaded = [], l_tables = []\<rparr> s"
    using m [of "cache_new 10" "[Flush]" "[]"] cache_new_holds d(2)
    by (simp add: drain_match_def sys_match_def s_def sys_start_def pipeline_def lsm_inv_def retained_def lasting_def lsm_writes_def)
  from pipeline_drains [OF this] show ?thesis by (intro exI [of _ s]) (auto simp: s_def sys_start_def)
qed

section \<open>Restart\<close>

text \<open>
  C4: restart restores the contents.  When the directory holds SSTable files written at times \<open>S\<close> and
  logs written at times \<open>W\<close> (in any order, among other files), each of them intact, the scan and the
  construction succeed, and the contents are the newest entry of each key: first the logs, newest
  first, then the tables, newest first.  The newest log becomes the memtable, the others the queue.
\<close>

theorem restart_restores:
  assumes "\<forall>ts \<in> set S \<union> set W. ts < 2 ^ 128" "\<forall>n \<in> set Os. database_file_from_path n = None"
    and "mset names = mset (map generate_sstable_file_name S @ map generate_wal_file_name W @ Os)"
    and "\<forall>ts \<in> set S. file_holds H files (generate_sstable_file_name ts) (L ts)"
    and "\<forall>ts \<in> set W. log_holds config fs (generate_wal_file_name ts) (K ts)"
    and "0 < unat (cf_compaction_queue_size config)" "0 < unat (cf_memtable_flush_queue_size config)"
      "length W \<le> Suc (unat (cf_memtable_flush_queue_size config))"
  shows "\<exists>ss ws db. scan_directory (map Inr names) = Some (ss, ws) \<and>
    lsmlite_new fs files (Inr w) ss ws config = Some db \<and> db_ok H (map L (rev (sort S))) db \<and>
    db_memtable_channel db = replicate (length W - 1) Flush \<and>
    db_view (map L (rev (sort S))) db =
      first_known (map (last_writes \<circ> K) (rev (sort W)) @ map (map_of \<circ> L) (rev (sort S)))"
  using open_directory [OF assms, of w] by (auto simp: reopened_def)

theorem restart_restores_witness:
  "\<exists>fs files ss ws db Ls. scan_directory [Inr ''lsmlite.5.sstable'', Inr ''notes.txt'', Inr ''lsmlite.wal.7.log''] = Some (ss, ws) \<and>
     lsmlite_new fs files (Inr (wal_new 0 ''w'')) ss ws (config_default\<lparr>cf_max_memtable_size := 100, cf_max_memtable_nodes := 4\<rparr>) = Some db \<and>
     db_view Ls db [1] = Some (Some [2]) \<and> db_view Ls db [3] = Some None \<and> db_view Ls db [4] = None"
proof -
  let ?H = "\<lambda>s k. s :: u64" and ?c = "config_default\<lparr>cf_max_memtable_size := 100, cf_max_memtable_nodes := 4\<rparr>"
  let ?K = "\<lambda>_ :: nat. [([1 :: u8], Some [2 :: u8]), ([3], None)]" and ?L = "\<lambda>_ :: nat. [([3 :: u8], Some [5 :: u8])]"
  have e: "enc_blob [3] None = [1, 2, 1, 3]" by code_simp
  have fits: "rec_fits [1] (Some [2])" "rec_fits [3] None" by (simp_all add: rec_fits_def example_blobs e)
  obtain self where wr: "written 100 4 (wal_new 0 ''w'') [([1], Some [2]), ([3], None)] self"
    by (rule two_writes [OF fits]) simp
  obtain bs t where bs: "sstable_from_fd (file_open bs) = Some (Inr t)" "indexed ?H [([3], Some [5])] t"
    using table_file_exists [OF example_flushable(2), of ?H] by auto
  let ?fs = "\<lambda>_ :: string. \<lparr>re_file = Inr (enc_blobs (?K 7)), re_new_wal = Inr (wal_new 9 ''v''), re_remove = Inr ()\<rparr>"
  let ?files = "\<lambda>_ :: string. Inr bs"
  have n: "generate_sstable_file_name 5 = ''lsmlite.5.sstable''" "generate_wal_file_name 7 = ''lsmlite.wal.7.log''"
    "database_file_from_path ''notes.txt'' = None" by code_simp+
  have log: "log_holds ?c ?fs (generate_wal_file_name 7) (?K 7)"
    using wr by (auto simp: log_holds_def example_blobs e)
  have tab: "file_holds ?H ?files (generate_sstable_file_name 5) (?L 5)" using bs by (auto simp: file_holds_def)
  have "\<exists>ss ws db. scan_directory (map Inr [''lsmlite.5.sstable'', ''notes.txt'', ''lsmlite.wal.7.log'']) = Some (ss, ws) \<and>
      lsmlite_new ?fs ?files (Inr (wal_new 0 ''w'')) ss ws ?c = Some db \<and> db_ok ?H (map ?L (rev (sort [5]))) db \<and>
      db_memtable_channel db = replicate (length [7 :: nat] - 1) Flush \<and>
      db_view (map ?L (rev (sort [5]))) db =
        first_known (map (last_writes \<circ> ?K) (rev (sort [7])) @ map (map_of \<circ> ?L) (rev (sort [5])))"
    by (rule restart_restores [where Os = "[''notes.txt'']"])
      (use log tab config_default_positive(3,4) in \<open>simp_all add: n\<close>)
  then obtain ss ws db where r: "scan_directory (map Inr [''lsmlite.5.sstable'', ''notes.txt'', ''lsmlite.wal.7.log'']) = Some (ss, ws)"
    "lsmlite_new ?fs ?files (Inr (wal_new 0 ''w'')) ss ws ?c = Some db"
    "db_view [?L 5] db = first_known [last_writes (?K 7), map_of (?L 5)]" by auto
  have "db_view [?L 5] db [1] = Some (Some [2])" "db_view [?L 5] db [3] = Some None" "db_view [?L 5] db [4] = None"
    unfolding r(3) by (simp_all add: last_writes_def)
  with r(1,2) show ?thesis by (intro exI conjI) simp_all
qed

text \<open>
  C5: durability between steps.  The process may stop between any two steps of a run that started in an
  empty directory and had no compaction; a step is one call of a client, one turn of the load task, or one
  turn of the flush task, from the creation of its file to the deletion of the log.  (A crash inside a
  turn of the flush task is not covered: until the file is complete, a restart may panic on it.)  A restart
  on the files that are left then succeeds, with the same configuration and whatever else is in the directory.
  Of each generation of the memtable it finds the writes up to some point, so that all lost writes but
  the last fit into the log buffer; the generations that have reached an SSTable are complete; the contents
  are those of the writes found, in order; and the restarted system is again in the relation to the
  abstract machine from which its runs refine it.
\<close>

theorem crash_restart:
  assumes "lsmlite_new fs files (Inr (wal_new t (generate_wal_file_name now))) [] [] config = Some db"
    and "0 < unat (cf_max_memtable_nodes config)" "0 < unat (cf_max_memtable_size config)"
    and "run (sys_step H) (sys_start now Map.empty db) ls s" "in_bounds lsm_empty ls" "Compacted \<notin> set ls"
    and "sys_clock s < 2 ^ 128" "lists_files s names"
  shows "\<exists>ss ws db' ks A. scan_directory (map Inr names) = Some (ss, ws) \<and>
    lsmlite_new (crash_fs w s) (crash_files s) (Inr w0) ss ws config = Some db' \<and>
    list_all2 survives ks (generations [] ls) \<and>
    take (card (dom (sys_disk s))) ks = take (card (dom (sys_disk s))) (generations [] ls) \<and>
    sys_match H A (sys_start now' (sys_disk s) db') \<and> db_view (l_tables A) db' = last_writes (concat ks)"
proof -
  note fresh = fresh_database [OF assms(1-3)]
  have "crash_ok lsm_empty (ls @ [])" using assms(5,6) by (simp add: crash_ok_def)
  from crash.run_simulation [OF assms(4) fresh(2) [OF refl] this] obtain A where
    A: "run lsm_step lsm_empty ls A" "crash_match H (unat (cf_max_memtable_size config)) (unat (cf_max_memtable_nodes config))
      (unat (cf_memtable_flush_queue_size config)) A s" "in_bounds A []" by (auto simp: crash_ok_def)
  have g: "l_loaded A @ l_queue A @ [l_mem A] = generations [] ls" using lsm_run_generations [OF A(1)] by simp
  obtain ss ws db' n ks Ls where r: "scan_directory (map Inr names) = Some (ss, ws)"
    "lsmlite_new (crash_fs w s) (crash_files s) (Inr w0) ss ws config = Some db'"
    "list_all2 survives ks (generations [] ls)" "n = card (dom (sys_disk s))" "n < length ks"
    "take n ks = take n (generations [] ls)"
    "list_all2 stored (take n ks) Ls" "db_match H (restarted n ks (rev Ls)) db'" "db_signal db' = []"
    "length (db_memtable_channel db') = length (l_queue (restarted n ks (rev Ls)))"
    by (rule crash_restores [OF A(2,3) assms(7,8) fresh(5,6), of w w0, unfolded g])
  have "finite (dom (sys_disk s))" using A(2) by (simp add: crash_match_def sys_match_def)
  note m = restarted_match [OF r(8,7,9,10) this, of now']
  have "db_view (l_tables (restarted n ks (rev Ls))) db' = last_writes (concat ks)"
    using db_match_view [OF r(8)] restarted_view [OF r(7,5)] by simp
  then show ?thesis using r(1-4,6) m by blast
qed

lemma lists_files_triple:
  assumes "database_file_from_path a = None" "database_file_from_path b \<noteq> None" "database_file_from_path c \<noteq> None" "b \<noteq> c"
    and "dom (sys_disk s) = {b}" "map fst (crash_logs s) = [c]"
  shows "lists_files s [a, b, c]"
proof -
  have "fst ` set (crash_logs s) = {c}" using assms(6) by (simp flip: set_map)
  then show ?thesis using assms(1-5) by (auto simp: lists_files_def)
qed

theorem crash_restart_witness:
  "\<exists>s ss ws db A. scan_directory [Inr ''notes.txt'', Inr ''lsmlite.5.sstable'', Inr ''lsmlite.wal.3.log''] = Some (ss, ws) \<and>
     crash_logs s = [(''lsmlite.wal.3.log'', enc_blob [5] (Some [6]))] \<and>
     lsmlite_new (crash_fs (wal_new 0) s) (crash_files s) (Inr (wal_new 0 ''w'')) ss ws (two_slot_config 10) = Some db \<and>
     sys_match (\<lambda>s k. s) A (sys_start 9 (sys_disk s) db) \<and> db_view (l_tables A) db [1] = Some (Some [2])"
proof -
  let ?H = "\<lambda>s k. s :: u64" and ?names = "[''notes.txt'', ''lsmlite.5.sstable'', ''lsmlite.wal.3.log'']" and ?c = "two_slot_config 10"
  obtain db s where db: "lsmlite_new example_fs (\<lambda>_. Inl OsError) (Inr (wal_new 0 (generate_wal_file_name 0))) [] [] ?c = Some db"
    and run: "run (sys_step ?H) (sys_start 0 Map.empty db) sample_trace s"
    and s: "sys_clock s = 5" "dom (sys_disk s) = {generate_sstable_file_name 5}"
      "crash_logs s = [(generate_wal_file_name 3, enc_blob [5] (Some [6]))]"
    by (rule sample_run [of 10 ?H])
  have n: "generate_wal_file_name 3 = ''lsmlite.wal.3.log''" "generate_sstable_file_name 5 = ''lsmlite.5.sstable''"
    "database_file_from_path ''notes.txt'' = None" "database_file_from_path ''lsmlite.wal.3.log'' = Some WalFile"
    "database_file_from_path ''lsmlite.5.sstable'' = Some SSTableFile" "''lsmlite.5.sstable'' \<noteq> ''lsmlite.wal.3.log''" by code_simp+
  have "lists_files s ?names" by (rule lists_files_triple) (simp_all only: n s option.distinct not_False_eq_True list.map fst_conv)
  moreover have "sys_clock s < 2 ^ 128" "Compacted \<notin> set sample_trace" "0 < unat (cf_max_memtable_nodes ?c)"
    "0 < unat (cf_max_memtable_size ?c)" using config_default_positive(2) by (simp_all add: s(1))
  ultimately obtain ss ws db' ks A where r: "scan_directory (map Inr ?names) = Some (ss, ws)"
    "lsmlite_new (crash_fs (wal_new 0) s) (crash_files s) (Inr (wal_new 0 ''w'')) ss ws ?c = Some db'"
    "list_all2 survives ks (generations [] sample_trace)"
    "take (card (dom (sys_disk s))) ks = take (card (dom (sys_disk s))) (generations [] sample_trace)"
    "sys_match ?H A (sys_start 9 (sys_disk s) db')" "db_view (l_tables A) db' = last_writes (concat ks)"
    using crash_restart [OF db _ _ run sample_bounds(2), of ?names "wal_new 0" "wal_new 0 ''w''" 9] by blast
  obtain k where k: "ks = [[([1], Some [2]), ([3], Some [4])], k]" "survives k [([5], Some [6]), ([7], Some [8])]"
    using r(3,4) by (auto simp: s(2) list_all2_Cons2)
  from k(2) obtain lost where "[([5 :: u8], Some [6 :: u8]), ([7], Some [8])] = k @ lost" by (auto simp: survives_def)
  then have "set k \<subseteq> set [([5], Some [6]), ([7], Some [8])]" by (metis Un_upper1 set_append)
  then have "last_writes k [1] = None" by (auto simp: last_writes_None)
  then have "db_view (l_tables A) db' [1] = Some (Some [2])"
    by (simp add: r(6) k(1) last_writes_Cons)
  moreover have "crash_logs s = [(''lsmlite.wal.3.log'', enc_blob [5] (Some [6]))]" by (simp only: s(3) n(1))
  ultimately show ?thesis using r(1,2,5) unfolding list.map by blast
qed

section \<open>Failed flushes\<close>

text \<open>
  C33: a failed flush loses nothing.  Whenever a turn of the flush task poisons the database, whether the file
  could not be created or written or the log could not be deleted, the memtable, the queue and the
  tables are as before, no log has been deleted (a crash leaves the same logs) and no other file has
  changed; from then on every call panics.
\<close>

theorem failed_flush_keeps_data:
  assumes "flush_memtable env Flush s = Some s'" "\<not> db_poisoned (sys_db s)" "db_poisoned (sys_db s')"
  shows "sys_db s' = (sys_db s)\<lparr>db_poisoned := True\<rparr> \<and> crash_logs s' = crash_logs s \<and>
    (\<forall>n. n \<noteq> fe_filename env \<longrightarrow> sys_disk s' n = sys_disk s n) \<and>
    (\<forall>H R oe k v. db_get H R k (sys_db s') = None \<and> db_set oe k v (sys_db s') = None \<and> db_delete oe k (sys_db s') = None)"
  using flush_poisons(1-3) [OF assms] poisoned_crash_logs [OF flush_poisons(1,2) [OF assms]] poisoned_calls [OF assms(3)]
  by blast

text \<open>A flush on a full disk, with a table in the queue.\<close>

definition full_disk :: FlushEnv where
  "full_disk = \<lparr>fe_filename = generate_sstable_file_name 5, fe_created = Inr (), fe_write = \<lambda>_ _. Inl OsError,
     fe_remove = \<lambda>_. Inr (), fe_hash = \<lambda>s k. s, fe_ln2_hashes = \<lambda>_ _. 7\<rparr>"

lemma example_queue:
  obtains s where "\<not> db_poisoned (sys_db s)" "im_table (db_immutable (sys_db s)) \<noteq> []" "map fst (crash_logs s) = [''v'', ''w'']"
proof -
  obtain db where db: "lsmlite_new example_fs (\<lambda>_. Inl OsError) (Inr (wal_new 0 ''w'')) [] [] config_default = Some db"
    by (rule example_database)
  have np: "\<not> db_poisoned db" using db by (auto simp: lsmlite_new_def bind_eq_Some_conv)
  show thesis
    by (rule that [of "sys_start 0 Map.empty (db\<lparr>db_immutable := \<lparr>im_table = [memtable_new 10 1 (wal_new 0 ''v'')]\<rparr>,
        db_memtable := (db_memtable db)\<lparr>mem_inner := memtable_new 10 1 (wal_new 0 ''w'')\<rparr>\<rparr>)"])
      (use np in \<open>simp_all add: sys_start_def crash_logs_def memtable_new_def wal_new_def\<close>)
qed

theorem failed_flush_keeps_data_witness:
  "\<exists>s s'. flush_memtable full_disk Flush s = Some s' \<and> map fst (crash_logs s') = [''v'', ''w''] \<and>
     db_get (\<lambda>s k. s) (\<lambda>_ n. Inr n) [1] (sys_db s') = None"
proof -
  obtain s where s: "\<not> db_poisoned (sys_db s)" "im_table (db_immutable (sys_db s)) \<noteq> []" "map fst (crash_logs s) = [''v'', ''w'']"
    by (rule example_queue)
  have f: "flush_memtable full_disk Flush s = Some (poison (s\<lparr>sys_disk := (sys_disk s)(fe_filename full_disk \<mapsto> [])\<rparr>))"
    by (rule flush_disk_full [OF s(2)]) (simp_all add: full_disk_def)
  moreover from failed_flush_keeps_data [OF f s(1)] have
    "crash_logs (poison (s\<lparr>sys_disk := (sys_disk s)(fe_filename full_disk \<mapsto> [])\<rparr>)) = crash_logs s"
    "db_get (\<lambda>s k. s) (\<lambda>_ n. Inr n) [1] (sys_db (poison (s\<lparr>sys_disk := (sys_disk s)(fe_filename full_disk \<mapsto> [])\<rparr>))) = None"
    by (simp_all add: poison_def)
  ultimately show ?thesis using s(3) by (intro exI conjI) simp_all
qed

text \<open>
  C34: a failed flush blocks every restart.  If the disk is full when the flush writes the header of its
  file, the file stays behind empty.  The data are safe in the logs, but whatever else the directory
  holds, the next scan takes the empty file for an SSTable and \<^verbatim>\<open>LsmliteInner::new\<close> panics on it.
\<close>

theorem failed_flush_blocks_restart:
  assumes "im_table (db_immutable (sys_db s)) \<noteq> []" "fe_created env = Inr u"
    and "fe_write env file_create LSMLITE_SSTABLE_HEADER = Inl e" "fe_filename env = generate_sstable_file_name ts"
  shows "\<exists>s'. flush_memtable env Flush s = Some s' \<and> db_poisoned (sys_db s') \<and> crash_logs s' = crash_logs s \<and>
    (\<forall>names ss ws fs w config. fe_filename env \<in> set names \<longrightarrow> scan_directory (map Inr names) = Some (ss, ws) \<longrightarrow>
      lsmlite_new fs (crash_files s') w ss ws config = None)"
proof -
  let ?s = "poison (s\<lparr>sys_disk := (sys_disk s)(fe_filename env \<mapsto> [])\<rparr>)"
  have n: "database_file_from_path (fe_filename env) = Some SSTableFile"
    by (simp add: assms(4) database_file_from_path_def sstable_name_extension)
  have "crash_files ?s (fe_filename env) = Inr []" by (simp add: crash_files_def poison_def)
  then have "lsmlite_new fs (crash_files ?s) w ss ws config = None"
    if "fe_filename env \<in> set names" "scan_directory (map Inr names) = Some (ss, ws)" for names ss ws fs w config
    using lsmlite_new_broken [OF that(2,1) n, of "crash_files ?s"] empty_table_broken by simp
  moreover have "crash_logs ?s = crash_logs s" by (rule poisoned_crash_logs) (simp_all add: poison_def)
  ultimately show ?thesis
    using flush_disk_full [OF assms(1-3)] by (intro exI [of _ ?s] conjI) (simp_all add: poison_def)
qed

theorem failed_flush_blocks_restart_witness:
  "\<exists>s s' ss ws. flush_memtable full_disk Flush s = Some s' \<and> map fst (crash_logs s') = [''v'', ''w''] \<and>
     scan_directory [Inr ''lsmlite.5.sstable'', Inr ''lsmlite.wal.7.log''] = Some (ss, ws) \<and>
     lsmlite_new example_fs (crash_files s') (Inr (wal_new 0 ''w'')) ss ws config_default = None"
proof -
  let ?names = "[''lsmlite.5.sstable'', ''lsmlite.wal.7.log'']"
  obtain s where s: "im_table (db_immutable (sys_db s)) \<noteq> []" "map fst (crash_logs s) = [''v'', ''w'']"
    by (rule example_queue)
  have e: "fe_created full_disk = Inr ()" "fe_write full_disk file_create LSMLITE_SSTABLE_HEADER = Inl OsError"
    "fe_filename full_disk = generate_sstable_file_name 5" "generate_sstable_file_name 5 = ''lsmlite.5.sstable''"
    by (simp_all add: full_disk_def) code_simp
  from failed_flush_blocks_restart [OF s(1) e(1-3)] obtain s' where s': "flush_memtable full_disk Flush s = Some s'"
    "crash_logs s' = crash_logs s" "\<forall>names ss ws fs w config. fe_filename full_disk \<in> set names \<longrightarrow>
      scan_directory (map Inr names) = Some (ss, ws) \<longrightarrow> lsmlite_new fs (crash_files s') w ss ws config = None" by blast
  have n: "?names = map generate_sstable_file_name [5] @ map generate_wal_file_name [7] @ []" by code_simp
  obtain ss ws where scan: "scan_directory (map Inr ?names) = Some (ss, ws)"
    using scan_directory_generated [of "[5]" "[7]" "[]" ?names] unfolding n by (auto simp del: list.map)
  have "fe_filename full_disk \<in> set ?names" by (simp only: e(3,4) list.set_intros(1))
  from s'(3) [rule_format, OF this scan] have "lsmlite_new example_fs (crash_files s') (Inr (wal_new 0 ''w'')) ss ws config_default = None" .
  then show ?thesis using s'(1,2) s(2) scan unfolding list.map by (intro exI conjI) (assumption | simp only: s'(2))+
qed

section \<open>Configuration\<close>

text \<open>
  The configuration made from command-line parameters does not depend on the order in which the hash
  map yields them: every known parameter sets its field, a missing one leaves the default, and an
  unknown one panics.
\<close>

lemma config_from_params:
  assumes "distinct (map fst parsed)"
  shows "config_from parsed = (if fst ` set parsed \<subseteq> param_names then
     Some \<lparr>cf_max_memtable_nodes = unwrap_or (map_of parsed ''--max_memtable_nodes'') DEFAULT_MAX_MEMTABLE_NODES,
           cf_max_memtable_size = unwrap_or (map_of parsed ''--max_memtable_size'') DEFAULT_MAX_MEMTABLE_SIZE,
           cf_compaction_rate = unwrap_or (map_of parsed ''--compaction_rate'') DEFAULT_COMPACTION_RATE,
           cf_compaction_queue_size = unwrap_or (map_of parsed ''--compaction_queue_size'') DEFAULT_COMPACTION_QUEUE_SIZE,
           cf_memtable_flush_queue_size = unwrap_or (map_of parsed ''--memtable_flush_queue_size'') DEFAULT_MEMTABLE_FLUSH_QUEUE\<rparr>
     else None) \<and> (\<forall>parsed'. mset parsed' = mset parsed \<longrightarrow> config_from parsed' = config_from parsed)"
proof (intro conjI allI impI)
  fix parsed'
  assume "mset parsed' = mset parsed"
  note m = map_of_mset [OF assms this [symmetric]] mset_eq_setD [OF this]
  show "config_from parsed' = config_from parsed" by (simp only: config_from_eq [OF assms] config_from_eq [OF m(2)] m(1,3))
qed (rule config_from_eq [OF assms])

section \<open>Four ways to lose\<close>

text \<open>
  C35: recovered writes are in no log.  A restart replays each log of the directory into a table whose own
  log is new and empty, and deletes the old one; so when it has succeeded every log on disk, those it
  found included, is empty, and a second crash loses everything that had not reached an SSTable.
\<close>

theorem restart_empties_logs:
  assumes "lsmlite_new fs files w ss ws config = Some db"
    and "\<forall>n w'. w = Inr w' \<or> re_new_wal (fs n) = Inr w' \<longrightarrow> f_data (wal_fd w') = []"
  shows "\<forall>(n, bs) \<in> set (restart_logs config fs ws (sys_start now disk db)). bs = []"
proof -
  have "f_data (wal_fd (mt_wal t)) = []"
    if "t \<in> insert (mem_inner (db_memtable db)) (set (im_table (db_immutable db)))" for t
    using lsmlite_new_logs(1) [OF assms(1) that] assms(2) by blast
  then show ?thesis by (auto simp: restart_logs_new [OF assms(1)] crash_logs_def sys_start_def)
qed

theorem restart_empties_logs_witness:
  "\<exists>db. lsmlite_new (\<lambda>_. \<lparr>re_file = Inr (enc_blobs [([1], Some [2]), ([3], None)]), re_new_wal = Inr (wal_new 9 ''v''), re_remove = Inr ()\<rparr>)
       (\<lambda>_. Inl OsError) (Inr (wal_new 0 ''w'')) [] [log_artifact 7]
       (config_default\<lparr>cf_max_memtable_size := 100, cf_max_memtable_nodes := 4\<rparr>) = Some db \<and>
     db_view [] db [1] = Some (Some [2]) \<and>
     restart_logs (config_default\<lparr>cf_max_memtable_size := 100, cf_max_memtable_nodes := 4\<rparr>)
       (\<lambda>_. \<lparr>re_file = Inr (enc_blobs [([1], Some [2]), ([3], None)]), re_new_wal = Inr (wal_new 9 ''v''), re_remove = Inr ()\<rparr>)
       [log_artifact 7] (sys_start 8 Map.empty db) = [(''v'', [])]"
proof -
  let ?kps = "[([1 :: u8], Some [2 :: u8]), ([3], None)]"
  let ?fs = "\<lambda>_ :: string. \<lparr>re_file = Inr (enc_blobs ?kps), re_new_wal = Inr (wal_new 9 ''v''), re_remove = Inr ()\<rparr>"
  let ?c = "config_default\<lparr>cf_max_memtable_size := 100, cf_max_memtable_nodes := 4\<rparr>"
  have e: "enc_blob [3] None = [1, 2, 1, 3]" by code_simp
  have fits: "rec_fits [1] (Some [2])" "rec_fits [3] None" by (simp_all add: rec_fits_def example_blobs e)
  obtain self where wr: "written 100 4 (wal_new 0 ''w'') ?kps self" by (rule two_writes [OF fits]) simp
  have log: "log_holds ?c ?fs (generate_wal_file_name 7) ?kps" using wr by (auto simp: log_holds_def example_blobs e)
  from lsmlite_new_restores [of "[]" "\<lambda>s k. s" "\<lambda>_. Inl OsError" "\<lambda>_. []" "[7]" ?c ?fs "\<lambda>_. ?kps" "wal_new 0 ''w''"]
  obtain db where db: "lsmlite_new ?fs (\<lambda>_. Inl OsError) (Inr (wal_new 0 ''w'')) [] [log_artifact 7] ?c = Some db"
    "reopened ?c [7] (\<lambda>_. ?kps) db" "db_view [] db = first_known [last_writes ?kps]"
    using log config_default_positive(3,4) by auto
  have im: "im_table (db_immutable db) = []" using db(2) by (simp add: reopened_def)
  have w: "mt_wal (mem_inner (db_memtable db)) = wal_new 9 ''v''"
    using db(1) by (auto simp: lsmlite_new_def construct_memtable_def Memtable_new_from_wal_def bind_eq_Some_conv
        split: sum.splits dest!: from_wal_log_new(1))
  have "\<forall>(n, bs) \<in> set (restart_logs ?c ?fs [log_artifact 7] (sys_start 8 Map.empty db)). bs = []"
    by (rule restart_empties_logs [OF db(1)]) auto
  moreover have "map fst (restart_logs ?c ?fs [log_artifact 7] (sys_start 8 Map.empty db)) = [''v'']"
    unfolding restart_logs_new [OF db(1)] using im w by (simp add: crash_logs_def sys_start_def)
  ultimately have "restart_logs ?c ?fs [log_artifact 7] (sys_start 8 Map.empty db) = [(''v'', [])]" by (auto simp: map_eq_Cons_conv)
  then show ?thesis using db by (intro exI [of _ db]) (simp add: last_writes_def)
qed

text \<open>
  C36: a compaction leaves no SSTable file.  After every run that ends with a compaction the cache has one
  open table, but no SSTable name exists on disk any more: the cleanup deletes the file of the new
  table together with those of the old ones.
\<close>

theorem compaction_empties_disk:
  assumes "sys_match H A s" "run (sys_step H) s (ls @ [Compacted]) s'" "in_bounds A (ls @ [Compacted])"
  shows "length (sc_cache (db_sstable_cache (sys_db s'))) = 1 \<and> (\<forall>ts. sys_disk s' (generate_sstable_file_name ts) = None)"
proof -
  obtain s1 where r: "run (sys_step H) s ls s1" "sys_step H s1 Compacted s'" using assms(2) by (auto simp: run_append run_single)
  from sys.run_simulation [OF r(1) assms(1,3)] obtain B where "sys_match H B s1" "in_bounds B [Compacted]" by blast
  from this r(2) show ?thesis
  proof (cases rule: sys_step_shapes)
    case (compact ts kps g q c disk' out)
    then show ?thesis by (auto simp: after_load_def cache_holds_def dest: list_all2_lengthD)
  qed simp_all
qed

theorem compaction_empties_disk_witness:
  "\<exists>s s'. sys_step (\<lambda>s k. s) s Compacted s' \<and> sys_disk s' ''lsmlite.5.sstable'' = None \<and> sys_disk s ''lsmlite.5.sstable'' \<noteq> None"
proof -
  let ?H = "\<lambda>s k. s :: u64" and ?g = "[([1 :: u8], Some [2 :: u8])]" and ?n = "generate_sstable_file_name 5"
  let ?A = "\<lparr>l_mem = [], l_queue = [?g], l_loaded = [], l_tables = []\<rparr>"
  have n: "?n = ''lsmlite.5.sstable''" by code_simp
  obtain db t where d: "flushable ?g"
    and m: "\<And>c ch sig. cache_holds ?H [] c \<Longrightarrow> set ch \<subseteq> {Flush} \<Longrightarrow> length ch \<le> 1 \<Longrightarrow> db_match ?H ?A
         (db\<lparr>db_sstable_cache := c, db_signal := sig, db_memtable_channel := ch, db_immutable := \<lparr>im_table = [t]\<rparr>\<rparr>)"
    by (rule one_pending [of ?H]) blast
  obtain bs u where bs: "sstable_from_fd (file_open bs) = Some (Inr u)" "indexed ?H ?g u"
    using table_file_exists [OF d, of ?H] by auto
  define s where "s = (sys_start 6 [?n \<mapsto> bs] (db\<lparr>db_sstable_cache := cache_new 1, db_signal := [LoadSSTable ?n],
    db_memtable_channel := [], db_immutable := \<lparr>im_table = [t]\<rparr>\<rparr>))\<lparr>sys_flush_task := FlushAwaitAck\<rparr>"
  have "stored ?g ?g" by (simp add: stored_def sorted_table_def last_writes_def)
  then have "pending_load ?H ?A s" using bs unfolding pending_load_def by (fastforce simp: s_def sys_start_def)
  then have match: "sys_match ?H ?A s" using m [of "cache_new 1" "[]"] cache_new_holds
    by (simp add: sys_match_def s_def sys_start_def pipeline_def lsm_inv_def retained_def lasting_def)
  have "compacts s" by (simp add: compacts_def s_def sys_start_def cache_new_def)
  then obtain s' where step: "sys_step ?H s Compacted s'"
    using load_progress [OF match] d by (auto simp: s_def sys_start_def lsm_writes_def)
  then have "run (sys_step ?H) s ([] @ [Compacted]) s'" by (simp add: run_single)
  moreover have "in_bounds ?A ([] @ [Compacted])" using d drain_bounds [of ?A Compacted] by (simp add: lsm_writes_def)
  ultimately have "\<forall>ts. sys_disk s' (generate_sstable_file_name ts) = None" using compaction_empties_disk [OF match] by blast
  then have "sys_disk s' ?n = None" by blast
  moreover have "sys_disk s ?n \<noteq> None" by (simp add: s_def sys_start_def)
  ultimately show ?thesis using step unfolding n by blast
qed

text \<open>
  C37: a deleted key resurfaces.  Deleting a key whose value is in an SSTable and that neither the
  memtable nor the queue knows puts a tombstone into the memtable, but a \<^verbatim>\<open>get\<close> that follows treats
  the tombstone like an absent entry, searches the older layers, and returns the deleted value.
\<close>

theorem deleted_key_resurfaces:
  assumes "db_ok H Ls db" "db_coherent k db" "full_reads R" "\<not> full (mem_inner (db_memtable db))" "rec_fits k None"
    and "mt_view (mem_inner (db_memtable db)) k = None"
      "first_known (map mt_view (rev (im_table (db_immutable db)))) k = None" "newest Ls k = Some (Some v)"
  shows "\<exists>db1 db2. db_delete oe k db = Some db1 \<and> db_view Ls db1 k = Some None \<and>
    db_get H R k db1 = Some (Some v, db2)"
proof -
  let ?m = "mem_inner (db_memtable db)"
  have m: "mt_inv ?m" "\<not> db_poisoned db" using assms(1) by (simp_all add: db_ok_def)
  obtain inner where i: "write_entry (oe_first oe) k None ?m = Some (Inr inner)"
    by (rule write_entry_stored [OF m(1) assms(5,4), of "oe_first oe"]) simp
  note w = write_entry_Inr [OF m(1) assms(5) i]
  let ?db = "db\<lparr>db_memtable := (db_memtable db)\<lparr>mem_inner := inner\<rparr>\<rparr>"
  have d: "db_delete oe k db = Some ?db" using db_write_room [OF m(2) i] by (simp add: db_write_def)
  have "db_ok H Ls ?db" "db_coherent k ?db" using assms(1,2,6) w(2) w(4) [of k] by (simp_all add: db_ok_def db_coherent_def)
  from db_get_layers [OF this assms(3)] obtain db2 where "db_get H R k ?db = Some (Some v, db2)"
    using assms(7,8) w(3) by auto
  moreover have "db_view Ls ?db k = Some None" using w(3) by (simp add: db_view_def db_layers_def)
  ultimately show ?thesis using d by blast
qed

theorem deleted_key_resurfaces_witness:
  "\<exists>db db1 db2. db_delete \<lparr>oe_first = calm_env, oe_second = calm_env, oe_wal = Inl OsError\<rparr> [3] db = Some db1 \<and>
     db_get (\<lambda>s k. s) (\<lambda>_ n. Inr n) [3] db1 = Some (Some [5], db2)"
proof -
  let ?H = "\<lambda>s k. s :: u64"
  obtain db where db: "lsmlite_new example_fs (\<lambda>_. Inl OsError) (Inr (wal_new 0 ''w'')) [] [] config_default = Some db"
    by (rule example_database)
  note fresh = fresh_database [OF db config_default_positive(1,2)]
  obtain c where c: "cache_holds ?H [[([3], Some [5])], [([1], Some [2]), ([3], Some [4])]] c"
    by (rule two_tables [OF example_flushable(2,1)]) simp_all
  let ?db = "db\<lparr>db_sstable_cache := c, db_immutable := immutable_new_empty\<rparr>"
  have ok: "db_ok ?H [[([3], Some [5])], [([1], Some [2]), ([3], Some [4])]] ?db" "db_coherent [3] ?db"
    using c by (simp_all add: db_ok_def db_coherent_def fresh(3,4) immutable_new_empty_def)
  have "enc_blob [3] None = [1, 2, 1, 3]" by code_simp
  then have fits: "rec_fits [3] None" by (simp add: rec_fits_def)
  have "\<exists>db1 db2. db_delete \<lparr>oe_first = calm_env, oe_second = calm_env, oe_wal = Inl OsError\<rparr> [3] ?db = Some db1 \<and>
      db_view [[([3], Some [5])], [([1], Some [2]), ([3], Some [4])]] db1 [3] = Some None \<and>
      db_get ?H (\<lambda>_ n. Inr n) [3] db1 = Some (Some [5], db2)"
    by (rule deleted_key_resurfaces [OF ok])
      (use fits config_default_positive in \<open>simp_all add: full_reads_def fresh(3) immutable_new_empty_def\<close>)
  then show ?thesis by blast
qed

text \<open>
  The cleanup deletes whatever the directory lists.  When loading a table triggers a compaction,
  in whatever state and environment it succeeds, the cleanup that follows deletes every SSTable file
  the directory lists, the new one included: the listing yields \<^verbatim>\<open>./name\<close>, which is never equal to the
  path \<^verbatim>\<open>name\<close> that should be spared.
\<close>

lemma cleanup_deletes_new_table:
  assumes "sstable_background env cl (LoadSSTable path) s = Some s'"
    and "sc_compaction_rate (db_sstable_cache (sys_db s)) \<le> Suc (length (sc_cache (db_sstable_cache (sys_db s))))"
    and "cl_read_dir cl = Inr dir" "ce_filename env = generate_sstable_file_name ts" "Inr (ce_filename env, True) \<in> set dir"
  shows "sys_disk s' (ce_filename env) = None \<and>
    (\<forall>ts'. Inr (generate_sstable_file_name ts', True) \<in> set dir \<longrightarrow> sys_disk s' (generate_sstable_file_name ts') = None)"
proof -
  obtain compact_path disk where "cleanup_loop (cl_remove cl) dir (path_of_name compact_path) disk = Some (sys_disk s')"
    using background_compacts [OF assms(1,2)] assms(3) by (metis sum.inject(2))
  from cleanup_loop_deletes [OF this _ sstable_name_extension path_of_name_not_listed]
  have "Inr (generate_sstable_file_name ts', True) \<in> set dir \<Longrightarrow> sys_disk s' (generate_sstable_file_name ts') = None" for ts' .
  then show ?thesis using assms(4,5) by simp
qed

end
