(* ===== verification/Clients.thy ===== *)
theory Clients
  imports System_Correct "HOL-Library.Multiset"
begin

text \<open>
  Clients that run concurrently.  \<^verbatim>\<open>set\<close>, \<^verbatim>\<open>delete\<close> and \<^verbatim>\<open>get\<close> of \<^verbatim>\<open>src/database/inner.rs\<close> take a lock for each
  of their parts and release it in between; here every part is a step of its own, and the steps of
  any number of clients interleave.  The parts are those of \<open>db_set\<close>, \<open>db_delete\<close> and \<open>db_get\<close>, which take the
  same lines as one step; that both agree for a client on its own is proved below.
\<close>

section \<open>Definitions\<close>

text \<open>Where a client is: before the first attempt, between the parts, or after the call with its result.\<close>

datatype Client =
    Writing bytes "bytes option"
  | Rotating bytes "bytes option"
  | Queueing bytes "bytes option" MemtableInner
  | Signalling bytes "bytes option"
  | Retrying bytes "bytes option"
  | Reading bytes
  | ReadingQueue bytes
  | ReadingTables bytes
  | Finished "bytes option"

record ClientEnv =
  cn_env :: Env
  cn_wal :: "io_error + Wal"
  cn_reader :: reader

definition client_step :: "hasher \<Rightarrow> ClientEnv \<Rightarrow> Client \<Rightarrow> LsmliteInner \<Rightarrow> (Client \<times> LsmliteInner) option" where
  "client_step H env c self =
     (case c of
        Writing key val \<Rightarrow> do {
          _ \<leftarrow> check_poison_flag self;
          r \<leftarrow> mem_write (cn_env env) key val (db_memtable self);
          Some (case r of
              Inr m \<Rightarrow> (Finished None, self\<lparr>db_memtable := m\<rparr>)
            | Inl (TableFull key val) \<Rightarrow> (Rotating key val, self))
        }
      | Rotating key val \<Rightarrow>
          (case Memtable_rotate (cn_wal env) (db_memtable self) of
             Inl _ \<Rightarrow> None
           | Inr (full_table, m) \<Rightarrow> Some (Queueing key val full_table, self\<lparr>db_memtable := m\<rparr>))
      | Queueing key val full_table \<Rightarrow>
          Some (Signalling key val, self\<lparr>db_immutable := immutable_insert full_table (db_immutable self)\<rparr>)
      | Signalling key val \<Rightarrow> do {
          q \<leftarrow> chan_send (db_flush_cap self) Flush (db_memtable_channel self);
          Some (Retrying key val, self\<lparr>db_memtable_channel := q\<rparr>)
        }
      | Retrying key val \<Rightarrow> do {
          r \<leftarrow> mem_write (cn_env env) key val (db_memtable self);
          Some (Finished None, case r of Inr m \<Rightarrow> self\<lparr>db_memtable := m\<rparr> | Inl _ \<Rightarrow> self)
        }
      | Reading key \<Rightarrow> do {
          _ \<leftarrow> check_poison_flag self;
          r \<leftarrow> read_memtable key self;
          Some (case r of Some blob \<Rightarrow> Finished (Some blob) | None \<Rightarrow> ReadingQueue key, self)
        }
      | ReadingQueue key \<Rightarrow> do {
          r \<leftarrow> read_immutable_table key self;
          Some (case r of Some blob \<Rightarrow> Finished (Some blob) | None \<Rightarrow> ReadingTables key, self)
        }
      | ReadingTables key \<Rightarrow> do {
          (r, cache) \<leftarrow> cache_search H (cn_reader env) key (db_sstable_cache self);
          Some (Finished (case r of Inr val \<Rightarrow> Some val | Inl _ \<Rightarrow> None), self\<lparr>db_sstable_cache := cache\<rparr>)
        }
      | Finished r \<Rightarrow> None)"

text \<open>The label of a step is the client that makes it, so that the labels of a run are its schedule.\<close>

inductive clients_step :: "hasher \<Rightarrow> LsmliteInner \<times> Client list \<Rightarrow> nat \<Rightarrow> LsmliteInner \<times> Client list \<Rightarrow> bool" for H where
  step: "i < length cs \<Longrightarrow> client_step H env (cs ! i) self = Some (c, self') \<Longrightarrow>
    clients_step H (self, cs) i (self', cs[i := c])"

inductive_cases clients_stepE: "clients_step H (self, cs) i s'"

lemma schedule_Cons:
  "run (clients_step H) (self1, cs1) is s' \<Longrightarrow> i < length cs \<Longrightarrow> cs ! i = c \<Longrightarrow> cs1 = cs[i := d] \<Longrightarrow>
   client_step H env c self = Some (d, self1) \<Longrightarrow> run (clients_step H) (self, cs) (i # is) s'"
  by (auto simp: run_Cons intro: clients_step.step)

section \<open>A client on its own\<close>

lemma alone_Cons:
  "run (clients_step H) (self, [c]) (i # is) s' \<longleftrightarrow>
   i = 0 \<and> (\<exists>env c1 self1. client_step H env c self = Some (c1, self1) \<and> run (clients_step H) (self1, [c1]) is s')"
proof
  assume "run (clients_step H) (self, [c]) (i # is) s'"
  then show "i = 0 \<and> (\<exists>env c1 self1. client_step H env c self = Some (c1, self1) \<and> run (clients_step H) (self1, [c1]) is s')"
    by (auto simp: run_Cons elim!: clients_stepE) blast
qed (auto simp: run_Cons intro: clients_step.step [where i = 0 and cs = "[c]" for c, simplified])

lemma alone_step:
  "client_step H env c self = Some (c1, self1) \<Longrightarrow> run (clients_step H) (self1, [c1]) is s' \<Longrightarrow>
   run (clients_step H) (self, [c]) (0 # is) s'"
  by (auto simp: alone_Cons)

lemma alone_stepE:
  assumes "run (clients_step H) (self, [c]) is (self', [Finished r])" "c \<noteq> Finished r"
  obtains env c1 self1 is1 where "client_step H env c self = Some (c1, self1)"
    "run (clients_step H) (self1, [c1]) is1 (self', [Finished r])"
  using assms by (cases "is") (auto simp: alone_Cons)

lemma alone_finished: "run (clients_step H) (self, [Finished r]) is s' \<longleftrightarrow> is = [] \<and> s' = (self, [Finished r])"
  by (cases "is") (auto simp: alone_Cons client_step_def)

text \<open>Among others, a client that makes all steps behaves as if it were alone.\<close>

lemma undisturbed:
  "run (clients_step H) (self, [c]) is (self', [c']) \<Longrightarrow> i < length cs \<Longrightarrow> cs ! i = c \<Longrightarrow>
   run (clients_step H) (self, cs) (map (\<lambda>_. i) is) (self', cs[i := c'])"
proof (induction "is" arbitrary: self c cs)
  case Nil
  then show ?case by auto
next
  case (Cons a "is")
  from Cons.prems(1) obtain env c1 self1 where c1: "client_step H env c self = Some (c1, self1)"
    "run (clients_step H) (self1, [c1]) is (self', [c'])" by (auto simp: alone_Cons)
  have "run (clients_step H) (self1, cs[i := c1]) (map (\<lambda>_. i) is) (self', cs[i := c1, i := c'])"
    by (rule Cons.IH [OF c1(2)]) (use Cons.prems(2) in simp_all)
  then have "run (clients_step H) (self, cs) (i # map (\<lambda>_. i) is) (self', cs[i := c1, i := c'])"
    by (rule schedule_Cons [OF _ Cons.prems(2,3) refl c1(1)])
  then show ?case by simp
qed

text \<open>What each part of a write does.\<close>

abbreviation put_inner :: "MemtableInner \<Rightarrow> LsmliteInner \<Rightarrow> LsmliteInner" where
  "put_inner inner self \<equiv> self\<lparr>db_memtable := (db_memtable self)\<lparr>mem_inner := inner\<rparr>\<rparr>"

abbreviation fresh_inner :: "Wal \<Rightarrow> LsmliteInner \<Rightarrow> MemtableInner" where
  "fresh_inner w self \<equiv> memtable_new (mem_max_size (db_memtable self)) (mem_max_nodes (db_memtable self)) w"

lemma writing_step:
  assumes "\<not> db_poisoned self" "rec_fits k p"
  shows "client_step H env (Writing k p) self = Some (c, self') \<longleftrightarrow>
    full (mem_inner (db_memtable self)) \<and> c = Rotating k p \<and> self' = self \<or>
    (\<exists>inner. write_entry (cn_env env) k p (mem_inner (db_memtable self)) = Some (Inr inner) \<and>
      c = Finished None \<and> self' = put_inner inner self)"
proof (cases "full (mem_inner (db_memtable self))")
  case True
  then show ?thesis using assms(1) write_entry_full [OF True, of "cn_env env" k p]
    by (auto simp: client_step_def check_poison_flag_def mem_write_def)
next
  case False
  have "\<exists>inner. r = Inr inner" if "write_entry (cn_env env) k p (mem_inner (db_memtable self)) = Some r" for r
    using that write_entry_Inl [OF assms(2)] False by (cases r) auto
  then show ?thesis using assms(1) False
    by (cases "write_entry (cn_env env) k p (mem_inner (db_memtable self))")
      (auto simp: client_step_def check_poison_flag_def mem_write_def)
qed

lemma rotating_step:
  "client_step H env (Rotating k p) self = Some (c, self') \<longleftrightarrow>
   (\<exists>w. cn_wal env = Inr w \<and> c = Queueing k p (mem_inner (db_memtable self)) \<and> self' = put_inner (fresh_inner w self) self)"
  by (auto simp: client_step_def Memtable_rotate_def memtable_inner_new_def split: sum.splits)

lemma queueing_step:
  "client_step H env (Queueing k p t) self = Some (c, self') \<longleftrightarrow>
   c = Signalling k p \<and> self' = self\<lparr>db_immutable := immutable_insert t (db_immutable self)\<rparr>"
  by (auto simp: client_step_def)

lemma signalling_step:
  "client_step H env (Signalling k p) self = Some (c, self') \<longleftrightarrow>
   (\<exists>q. chan_send (db_flush_cap self) Flush (db_memtable_channel self) = Some q \<and>
     c = Retrying k p \<and> self' = self\<lparr>db_memtable_channel := q\<rparr>)"
  by (auto simp: client_step_def bind_eq_Some_conv)

lemma retrying_step:
  "client_step H env (Retrying k p) self = Some (c, self') \<longleftrightarrow>
   (\<exists>r. write_entry (cn_env env) k p (mem_inner (db_memtable self)) = Some r \<and> c = Finished None \<and>
     self' = (case r of Inr inner \<Rightarrow> put_inner inner self | Inl _ \<Rightarrow> self))"
  by (auto simp: client_step_def mem_write_def bind_eq_Some_conv split: sum.splits)

lemmas write_steps = rotating_step queueing_step signalling_step retrying_step

lemma rotate_table_parts:
  "rotate_table w self = Some self' \<longleftrightarrow> (\<exists>w' q. w = Inr w' \<and> chan_send (db_flush_cap self) Flush (db_memtable_channel self) = Some q \<and>
     self' = self\<lparr>db_memtable := (db_memtable self)\<lparr>mem_inner := fresh_inner w' self\<rparr>,
       db_immutable := immutable_insert (mem_inner (db_memtable self)) (db_immutable self), db_memtable_channel := q\<rparr>)"
  by (auto simp: rotate_table_def Memtable_rotate_def memtable_inner_new_def bind_eq_Some_conv split: sum.splits)

text \<open>The parts of a write one after the other are \<open>db_write\<close>.\<close>

lemma alone_write_runs:
  assumes "\<not> db_poisoned self" "rec_fits k p" "db_write oe k p self = Some self'"
  shows "\<exists>is. run (clients_step H) (self, [Writing k p]) is (self', [Finished None])"
proof -
  let ?env = "\<lambda>e. \<lparr>cn_env = e, cn_wal = oe_wal oe, cn_reader = \<lambda>_ n. Inr n\<rparr>"
  show ?thesis
  proof (cases "full (mem_inner (db_memtable self))")
    case True
    with assms(3) obtain self1 r where r: "rotate_table (oe_wal oe) self = Some self1"
      "write_entry (oe_second oe) k p (mem_inner (db_memtable self1)) = Some r"
      "self' = (case r of Inr inner \<Rightarrow> put_inner inner self1 | Inl _ \<Rightarrow> self1)"
      by (auto simp: db_write_eq [OF assms(1,2)] bind_eq_Some_conv)
    from r(1) obtain w q where w: "oe_wal oe = Inr w" "chan_send (db_flush_cap self) Flush (db_memtable_channel self) = Some q"
      "self1 = self\<lparr>db_memtable := (db_memtable self)\<lparr>mem_inner := fresh_inner w self\<rparr>,
         db_immutable := immutable_insert (mem_inner (db_memtable self)) (db_immutable self), db_memtable_channel := q\<rparr>"
      by (auto simp: rotate_table_parts)
    have "run (clients_step H) (self1, [Retrying k p]) [0] (self', [Finished None])"
      using r(2,3) by (intro alone_step [where env = "?env (oe_second oe)"]) (auto simp: retrying_step)
    then have "run (clients_step H)
        (self\<lparr>db_memtable := (db_memtable self)\<lparr>mem_inner := fresh_inner w self\<rparr>,
           db_immutable := immutable_insert (mem_inner (db_memtable self)) (db_immutable self)\<rparr>, [Signalling k p]) [0, 0] (self', [Finished None])"
      by (rule alone_step [where env = "?env (oe_first oe)", rotated]) (use w(2,3) in \<open>simp add: signalling_step\<close>)
    then have "run (clients_step H) (put_inner (fresh_inner w self) self, [Queueing k p (mem_inner (db_memtable self))]) [0, 0, 0] (self', [Finished None])"
      by (rule alone_step [where env = "?env (oe_first oe)", rotated]) (simp add: queueing_step)
    then have "run (clients_step H) (self, [Rotating k p]) [0, 0, 0, 0] (self', [Finished None])"
      by (rule alone_step [where env = "?env (oe_first oe)", rotated]) (use w(1) in \<open>simp add: rotating_step\<close>)
    then have "run (clients_step H) (self, [Writing k p]) [0, 0, 0, 0, 0] (self', [Finished None])"
      by (rule alone_step [where env = "?env (oe_first oe)", rotated]) (use True in \<open>simp add: writing_step [OF assms(1,2)]\<close>)
    then show ?thesis by blast
  next
    case False
    with assms(3) obtain r where r: "write_entry (oe_first oe) k p (mem_inner (db_memtable self)) = Some r"
      "(case r of Inr inner \<Rightarrow> Some (put_inner inner self) | Inl _ \<Rightarrow> None) = Some self'"
      by (auto simp: db_write_eq [OF assms(1,2)] bind_eq_Some_conv)
    then have "run (clients_step H) (self, [Writing k p]) [0] (self', [Finished None])"
      by (intro alone_step [where env = "?env (oe_first oe)"]) (auto simp: writing_step [OF assms(1,2)] split: sum.splits)
    then show ?thesis by blast
  qed
qed

lemma alone_write_inv:
  assumes np: "\<not> db_poisoned self" and fits: "rec_fits k p"
    and run: "run (clients_step H) (self, [Writing k p]) is (self', [Finished None])"
  shows "\<exists>oe. db_write oe k p self = Some self'"
proof -
  from run obtain is1 env1 c1 self1 where s1: "client_step H env1 (Writing k p) self = Some (c1, self1)"
    "run (clients_step H) (self1, [c1]) is1 (self', [Finished None])"
    by (cases "is") (auto simp: alone_Cons)
  from s1(1) consider inner where "write_entry (cn_env env1) k p (mem_inner (db_memtable self)) = Some (Inr inner)"
      "c1 = Finished None" "self1 = put_inner inner self"
    | "full (mem_inner (db_memtable self))" "c1 = Rotating k p" "self1 = self"
    unfolding writing_step [OF np fits] by blast
  then show ?thesis
  proof cases
    case 1
    then have "self' = put_inner inner self" using s1(2) by (simp add: alone_finished)
    then have "db_write \<lparr>oe_first = cn_env env1, oe_second = cn_env env1, oe_wal = cn_wal env1\<rparr> k p self = Some self'"
      using db_write_room [OF np, of "\<lparr>oe_first = cn_env env1, oe_second = cn_env env1, oe_wal = cn_wal env1\<rparr>"] 1(1) by simp
    then show ?thesis by blast
  next
    case 2
    from s1(2) obtain is2 w self2 where s2: "self2 = put_inner (fresh_inner w self) self"
      "run (clients_step H) (self2, [Queueing k p (mem_inner (db_memtable self))]) is2 (self', [Finished None])"
      unfolding 2(2,3) by (cases is1) (auto simp: alone_Cons rotating_step)
    from s2(2) obtain is3 where
      "run (clients_step H) (self2\<lparr>db_immutable := immutable_insert (mem_inner (db_memtable self)) (db_immutable self2)\<rparr>, [Signalling k p]) is3 (self', [Finished None])"
      by (cases is2) (auto simp: alone_Cons queueing_step)
    then obtain is4 q where q: "chan_send (db_flush_cap self) Flush (db_memtable_channel self) = Some q"
      "run (clients_step H) (self2\<lparr>db_immutable := immutable_insert (mem_inner (db_memtable self)) (db_immutable self2), db_memtable_channel := q\<rparr>,
         [Retrying k p]) is4 (self', [Finished None])"
      by (cases is3) (auto simp: alone_Cons signalling_step s2(1))
    let ?self1 = "self\<lparr>db_memtable := (db_memtable self)\<lparr>mem_inner := fresh_inner w self\<rparr>,
       db_immutable := immutable_insert (mem_inner (db_memtable self)) (db_immutable self), db_memtable_channel := q\<rparr>"
    have "run (clients_step H) (?self1, [Retrying k p]) is4 (self', [Finished None])" using q(2) by (simp add: s2(1))
    then obtain env c1 self3 is5 where c1: "client_step H env (Retrying k p) ?self1 = Some (c1, self3)"
      "run (clients_step H) (self3, [c1]) is5 (self', [Finished None])" by (rule alone_stepE) simp
    from c1(1) obtain r where r': "write_entry (cn_env env) k p (mem_inner (db_memtable ?self1)) = Some r" "c1 = Finished None"
      "self3 = (case r of Inr inner \<Rightarrow> put_inner inner ?self1 | Inl _ \<Rightarrow> ?self1)" unfolding retrying_step by blast
    have r: "write_entry (cn_env env) k p (fresh_inner w self) = Some r"
      "self' = (case r of Inr inner \<Rightarrow> put_inner inner ?self1 | Inl _ \<Rightarrow> ?self1)"
      using r' c1(2) by (simp_all add: alone_finished)
    let ?oe = "\<lparr>oe_first = cn_env env, oe_second = cn_env env, oe_wal = Inr w\<rparr>"
    have "rotate_table (oe_wal ?oe) self = Some ?self1" using q(1) by (auto simp: rotate_table_parts)
    from db_write_rotate [OF np 2(1) this, of k p r] have "db_write ?oe k p self = Some self'" using r by simp
    then show ?thesis by blast
  qed
qed

text \<open>The parts of a read one after the other are \<open>db_get\<close>.\<close>

lemma reading_step:
  "\<not> db_poisoned self \<Longrightarrow> client_step H env (Reading k) self = Some (c, self') \<longleftrightarrow>
   self' = self \<and> (\<exists>r. read_memtable k self = Some r \<and> c = (case r of Some blob \<Rightarrow> Finished (Some blob) | None \<Rightarrow> ReadingQueue k))"
  by (auto simp: client_step_def check_poison_flag_def bind_eq_Some_conv)

lemma reading_queue_step:
  "client_step H env (ReadingQueue k) self = Some (c, self') \<longleftrightarrow>
   self' = self \<and> (\<exists>r. read_immutable_table k self = Some r \<and> c = (case r of Some blob \<Rightarrow> Finished (Some blob) | None \<Rightarrow> ReadingTables k))"
  by (auto simp: client_step_def bind_eq_Some_conv)

lemma reading_tables_step:
  "client_step H env (ReadingTables k) self = Some (c, self') \<longleftrightarrow>
   (\<exists>r cache. cache_search H (cn_reader env) k (db_sstable_cache self) = Some (r, cache) \<and>
     c = Finished (case r of Inr val \<Rightarrow> Some val | Inl _ \<Rightarrow> None) \<and> self' = self\<lparr>db_sstable_cache := cache\<rparr>)"
  by (auto simp: client_step_def bind_eq_Some_conv)

lemma alone_read_runs:
  assumes np: "\<not> db_poisoned self" and g: "db_get H R k self = Some (r, self')"
  shows "\<exists>is. run (clients_step H) (self, [Reading k]) is (self', [Finished r])"
proof -
  let ?env = "\<lparr>cn_env = \<lparr>env_write = \<lambda>_ b. Inr (length b), env_now_check = 0, env_now_flush = 0\<rparr>, cn_wal = Inl OsError, cn_reader = R\<rparr>"
  from g obtain m where m: "read_memtable k self = Some m" by (auto simp: db_get_def bind_eq_Some_conv)
  show ?thesis
  proof (cases m)
    case (Some blob)
    then have "r = Some blob" "self' = self" using g m np by (auto simp: db_get_def check_poison_flag_def)
    then have "run (clients_step H) (self, [Reading k]) [0] (self', [Finished r])"
      using m Some by (intro alone_step [where env = ?env]) (auto simp: reading_step [OF np])
    then show ?thesis by blast
  next
    case mNone: None
    then obtain i where i: "read_immutable_table k self = Some i" using g m by (auto simp: db_get_def bind_eq_Some_conv)
    have "\<exists>is. run (clients_step H) (self, [ReadingQueue k]) is (self', [Finished r])"
    proof (cases i)
      case (Some blob)
      then have "r = Some blob" "self' = self" using g m i np mNone by (auto simp: db_get_def check_poison_flag_def)
      then have "run (clients_step H) (self, [ReadingQueue k]) [0] (self', [Finished r])"
        using i Some by (intro alone_step [where env = ?env]) (auto simp: reading_queue_step)
      then show ?thesis by blast
    next
      case None
      then have "client_step H ?env (ReadingTables k) self = Some (Finished r, self')"
        using g m i np mNone by (auto simp: db_get_def check_poison_flag_def reading_tables_step bind_eq_Some_conv)
      then have "run (clients_step H) (self, [ReadingTables k]) [0] (self', [Finished r])"
        by (rule alone_step) simp
      then have "run (clients_step H) (self, [ReadingQueue k]) [0, 0] (self', [Finished r])"
        by (rule alone_step [where env = ?env, rotated]) (use i None in \<open>simp add: reading_queue_step\<close>)
      then show ?thesis by blast
    qed
    then obtain "is" where "run (clients_step H) (self, [ReadingQueue k]) is (self', [Finished r])" by blast
    then have "run (clients_step H) (self, [Reading k]) (0 # is) (self', [Finished r])"
      by (rule alone_step [where env = ?env, rotated]) (use m mNone in \<open>simp add: reading_step [OF np]\<close>)
    then show ?thesis by blast
  qed
qed

lemma alone_read_inv:
  assumes np: "\<not> db_poisoned self" and run: "run (clients_step H) (self, [Reading k]) is (self', [Finished r])"
  shows "\<exists>R. db_get H R k self = Some (r, self')"
proof -
  from run obtain is1 m where m: "read_memtable k self = Some m"
    "run (clients_step H) (self, [case m of Some blob \<Rightarrow> Finished (Some blob) | None \<Rightarrow> ReadingQueue k]) is1 (self', [Finished r])"
    by (cases "is") (auto simp: alone_Cons reading_step [OF np])
  show ?thesis
  proof (cases m)
    case (Some blob)
    then show ?thesis using m np by (auto simp: alone_finished db_get_def check_poison_flag_def)
  next
    case mNone: None
    with m(2) obtain is2 i where i: "read_immutable_table k self = Some i"
      "run (clients_step H) (self, [case i of Some blob \<Rightarrow> Finished (Some blob) | None \<Rightarrow> ReadingTables k]) is2 (self', [Finished r])"
      by (cases is1) (auto simp: alone_Cons reading_queue_step)
    show ?thesis
    proof (cases i)
      case (Some blob)
      then show ?thesis using m(1) i np mNone by (auto simp: alone_finished db_get_def check_poison_flag_def)
    next
      case None
      then have "run (clients_step H) (self, [ReadingTables k]) is2 (self', [Finished r])" using i(2) by simp
      then obtain env c1 self1 is3 where c1: "client_step H env (ReadingTables k) self = Some (c1, self1)"
        "run (clients_step H) (self1, [c1]) is3 (self', [Finished r])" by (rule alone_stepE) simp
      from c1(1) obtain res cache where "cache_search H (cn_reader env) k (db_sstable_cache self) = Some (res, cache)"
        "c1 = Finished (case res of Inr val \<Rightarrow> Some val | Inl _ \<Rightarrow> None)" "self1 = self\<lparr>db_sstable_cache := cache\<rparr>"
        unfolding reading_tables_step by blast
      with c1(2) have "cache_search H (cn_reader env) k (db_sstable_cache self) = Some (res, cache)"
        "r = (case res of Inr val \<Rightarrow> Some val | Inl _ \<Rightarrow> None)" "self' = self\<lparr>db_sstable_cache := cache\<rparr>"
        by (simp_all add: alone_finished)
      then have "db_get H (cn_reader env) k self = Some (r, self')"
        using m(1) i(1) np mNone None by (simp add: db_get_def check_poison_flag_def)
      then show ?thesis by blast
    qed
  qed
qed

section \<open>Any number of clients\<close>

text \<open>The table a client carries from the memtable to the queue, and the signal it still has to send.\<close>

primrec carried :: "Client \<Rightarrow> MemtableInner multiset" where
  "carried (Writing k p) = {#}"
| "carried (Rotating k p) = {#}"
| "carried (Queueing k p t) = {#t#}"
| "carried (Signalling k p) = {#}"
| "carried (Retrying k p) = {#}"
| "carried (Reading k) = {#}"
| "carried (ReadingQueue k) = {#}"
| "carried (ReadingTables k) = {#}"
| "carried (Finished r) = {#}"

definition owes_signal :: "Client \<Rightarrow> nat" where
  "owes_signal c = (case c of Signalling k p \<Rightarrow> 1 | _ \<Rightarrow> 0)"

definition client_fits :: "Client \<Rightarrow> bool" where
  "client_fits c = (case c of Writing k p \<Rightarrow> rec_fits k p | Rotating k p \<Rightarrow> rec_fits k p | Queueing k p t \<Rightarrow> rec_fits k p
     | Signalling k p \<Rightarrow> rec_fits k p | Retrying k p \<Rightarrow> rec_fits k p | _ \<Rightarrow> True)"

text \<open>The full tables, in the queue or on their way to it.\<close>

definition full_tables :: "LsmliteInner \<Rightarrow> Client list \<Rightarrow> MemtableInner multiset" where
  "full_tables self cs = mset (im_table (db_immutable self)) + (\<Sum>c \<in># mset cs. carried c)"

text \<open>\<open>n\<close> counts the tables of the queue whose signal the flush task has already taken.\<close>

definition clients_inv :: "nat \<Rightarrow> LsmliteInner \<Rightarrow> Client list \<Rightarrow> bool" where
  "clients_inv n self cs \<longleftrightarrow> \<not> db_poisoned self \<and> mt_inv (mem_inner (db_memtable self)) \<and>
     (\<forall>t \<in># full_tables self cs. mt_inv t) \<and> (\<forall>c \<in> set cs. client_fits c) \<and>
     length (im_table (db_immutable self)) = length (db_memtable_channel self) + (\<Sum>c \<in># mset cs. owes_signal c) + n"

definition knows :: "LsmliteInner \<Rightarrow> Client list \<Rightarrow> bytes \<Rightarrow> bool" where
  "knows self cs k \<longleftrightarrow> mt_view (mem_inner (db_memtable self)) k \<noteq> None \<or> (\<exists>t \<in># full_tables self cs. mt_view t k \<noteq> None)"

lemma client_step_cases:
  assumes st: "client_step H env c self = Some (c', self')" and np: "\<not> db_poisoned self" and fits: "client_fits c"
  obtains (stored) k p inner where "carried c = {#}" "owes_signal c = 0" "c' = Finished None" "rec_fits k p"
      "write_entry (cn_env env) k p (mem_inner (db_memtable self)) = Some (Inr inner)" "self' = put_inner inner self"
    | (rotate) k p w where "c = Rotating k p" "c' = Queueing k p (mem_inner (db_memtable self))" "rec_fits k p"
      "self' = put_inner (fresh_inner w self) self"
    | (enqueue) k p t where "c = Queueing k p t" "c' = Signalling k p" "rec_fits k p"
      "self' = self\<lparr>db_immutable := immutable_insert t (db_immutable self)\<rparr>"
    | (signal) k p where "c = Signalling k p" "c' = Retrying k p" "rec_fits k p"
      "self' = self\<lparr>db_memtable_channel := db_memtable_channel self @ [Flush]\<rparr>"
    | (silent) cache where "carried c = {#}" "owes_signal c = 0" "carried c' = {#}" "owes_signal c' = 0" "client_fits c'"
      "self' = self \<or> self' = self\<lparr>db_sstable_cache := cache\<rparr>"
proof (cases c)
  case (Writing k p)
  then have kp: "rec_fits k p" using fits by (simp add: client_fits_def)
  from st consider "c' = Rotating k p" "self' = self"
    | inner where "write_entry (cn_env env) k p (mem_inner (db_memtable self)) = Some (Inr inner)" "c' = Finished None"
      "self' = put_inner inner self"
    unfolding Writing writing_step [OF np kp] by blast
  then show thesis
  proof cases
    case 1
    with kp show thesis by (intro silent) (simp_all add: Writing owes_signal_def client_fits_def)
  next
    case 2
    with kp show thesis by (intro stored [of k p inner]) (simp_all add: Writing owes_signal_def)
  qed
next
  case (Rotating k p)
  then obtain w where "c' = Queueing k p (mem_inner (db_memtable self))" "self' = put_inner (fresh_inner w self) self"
    using st unfolding Rotating rotating_step by blast
  with Rotating fits show thesis by (intro rotate) (simp_all add: client_fits_def)
next
  case (Queueing k p t)
  with st have "c' = Signalling k p" "self' = self\<lparr>db_immutable := immutable_insert t (db_immutable self)\<rparr>"
    by (simp_all add: queueing_step)
  with Queueing fits show thesis by (intro enqueue) (simp_all add: client_fits_def)
next
  case (Signalling k p)
  then have "c' = Retrying k p" "self' = self\<lparr>db_memtable_channel := db_memtable_channel self @ [Flush]\<rparr>"
    using st by (auto simp: signalling_step chan_send_def split: if_splits)
  with Signalling fits show thesis by (intro signal) (simp_all add: client_fits_def)
next
  case (Retrying k p)
  then have kp: "rec_fits k p" using fits by (simp add: client_fits_def)
  from st obtain r where r: "write_entry (cn_env env) k p (mem_inner (db_memtable self)) = Some r" "c' = Finished None"
    "self' = (case r of Inr inner \<Rightarrow> put_inner inner self | Inl _ \<Rightarrow> self)" unfolding Retrying retrying_step by blast
  show thesis
  proof (cases r)
    case (Inl e)
    with r show thesis by (intro silent) (simp_all add: Retrying owes_signal_def client_fits_def)
  next
    case (Inr inner)
    with r kp show thesis by (intro stored [of k p inner]) (simp_all add: Retrying owes_signal_def)
  qed
next
  case (Reading k)
  with st obtain r where "self' = self" "c' = (case r of Some blob \<Rightarrow> Finished (Some blob) | None \<Rightarrow> ReadingQueue k)"
    unfolding Reading reading_step [OF np] by blast
  then show thesis by (intro silent) (simp_all add: Reading owes_signal_def client_fits_def split: option.split)
next
  case (ReadingQueue k)
  with st obtain r where "self' = self" "c' = (case r of Some blob \<Rightarrow> Finished (Some blob) | None \<Rightarrow> ReadingTables k)"
    unfolding ReadingQueue reading_queue_step by blast
  then show thesis by (intro silent) (simp_all add: ReadingQueue owes_signal_def client_fits_def split: option.split)
next
  case (ReadingTables k)
  with st obtain r cache where "c' = Finished r" "self' = self\<lparr>db_sstable_cache := cache\<rparr>"
    unfolding ReadingTables reading_tables_step by blast
  then show thesis by (intro silent [of cache]) (simp_all add: ReadingTables owes_signal_def client_fits_def)
next
  case (Finished r)
  then show thesis using st by (simp add: client_step_def)
qed

lemma update_split:
  assumes "i < length cs"
  obtains M where "mset cs = add_mset (cs ! i) M" "mset (cs[i := c]) = add_mset c M"
  using assms that [of "mset cs - {#cs ! i#}"] by (simp add: mset_update)

lemma clients_step_keeps:
  assumes st: "clients_step H (self, cs) i (self', cs')" and inv: "clients_inv n self cs"
  shows "clients_inv n self' cs' \<and> full_tables self cs \<subseteq># full_tables self' cs' \<and> (\<forall>k. knows self cs k \<longrightarrow> knows self' cs' k)"
proof -
  from st obtain env c' where i: "i < length cs" and cs': "cs' = cs[i := c']"
    and cl: "client_step H env (cs ! i) self = Some (c', self')" by (auto elim: clients_stepE)
  obtain M where M: "mset cs = add_mset (cs ! i) M" "mset cs' = add_mset c' M" unfolding cs' by (rule update_split [OF i])
  have set: "set cs = insert (cs ! i) (set_mset M)" "set cs' = insert c' (set_mset M)"
    using arg_cong [OF M(1), of set_mset] arg_cong [OF M(2), of set_mset] by simp_all
  have np: "\<not> db_poisoned self" and fits: "client_fits (cs ! i)" using inv i by (simp_all add: clients_inv_def)
  note d = clients_inv_def full_tables_def knows_def M set
  from cl np fits show ?thesis
  proof (cases rule: client_step_cases)
    case (stored k p inner)
    have m: "mt_inv (mem_inner (db_memtable self))" using inv by (simp add: clients_inv_def)
    show ?thesis using write_entry_Inr(2,3) [OF m stored(4,5)] inv stored by (auto simp: d owes_signal_def client_fits_def)
  next
    case (rotate k p w)
    then show ?thesis using inv by (auto simp: d owes_signal_def client_fits_def)
  next
    case (enqueue k p t)
    then show ?thesis using inv by (auto simp: d owes_signal_def client_fits_def immutable_insert_def)
  next
    case (signal k p)
    then show ?thesis using inv by (auto simp: d owes_signal_def client_fits_def)
  next
    case (silent cache)
    then show ?thesis using inv by (auto simp: d)
  qed
qed

section \<open>Clients and background tasks\<close>

text \<open>
  Clients (\<open>Some i\<close>) together with the turns of the two tasks and the acknowledgement (\<open>None\<close>).  The tasks may
  use any environment in which they neither panic nor poison the database.
\<close>

inductive world_step :: "hasher \<Rightarrow> System \<times> Client list \<Rightarrow> nat option \<Rightarrow> System \<times> Client list \<Rightarrow> bool" for H where
  client: "clients_step H (sys_db s, cs) i (db', cs') \<Longrightarrow> world_step H (s, cs) (Some i) (s\<lparr>sys_db := db'\<rparr>, cs')"
| flush: "sys_flush_task s = FlushIdle \<Longrightarrow> recv_flush s = Some (sig, s1) \<Longrightarrow> flush_memtable env sig s1 = Some s' \<Longrightarrow>
    \<not> db_poisoned (sys_db s') \<Longrightarrow> world_step H (s, cs) None (s', cs)"
| load: "sys_load_task s = LoadRunning \<Longrightarrow> recv_signal s = Some (sig, s1) \<Longrightarrow> sstable_background env cl sig s1 = Some s' \<Longrightarrow>
    world_step H (s, cs) None (s', cs)"
| ack: "sys_flush_task s = FlushAwaitAck \<Longrightarrow> 0 < sys_acks s \<Longrightarrow>
    world_step H (s, cs) None (s\<lparr>sys_flush_task := FlushIdle, sys_acks := sys_acks s - 1\<rparr>, cs)"

text \<open>The table at the head of the queue whose flush signal has been taken and that is not loaded yet.\<close>

definition taken :: "System \<Rightarrow> nat" where
  "taken s = (if sys_flush_task s = FlushAwaitAck \<and> sys_acks s = 0 then 1 else 0)"

definition task_inv :: "System \<Rightarrow> bool" where
  "task_inv s \<longleftrightarrow> set (db_memtable_channel (sys_db s)) \<subseteq> {Flush} \<and>
     (case sys_flush_task s of
        FlushIdle \<Rightarrow> db_signal (sys_db s) = [] \<and> sys_acks s = 0
      | FlushAwaitAck \<Rightarrow> sys_acks s = 0 \<and> (\<exists>path. db_signal (sys_db s) = [LoadSSTable path]) \<or> sys_acks s = 1 \<and> db_signal (sys_db s) = []
      | FlushExited \<Rightarrow> False)"

definition world_inv :: "System \<Rightarrow> Client list \<Rightarrow> bool" where
  "world_inv s cs \<longleftrightarrow> clients_inv (taken s) (sys_db s) cs \<and> task_inv s"

lemma flush_effect:
  assumes "flush_memtable env Flush s = Some s'" "\<not> db_poisoned (sys_db s')"
  shows "\<exists>q. chan_send (db_compaction_cap (sys_db s)) (LoadSSTable (fe_filename env)) (db_signal (sys_db s)) = Some q \<and>
    sys_db s' = (sys_db s)\<lparr>db_signal := q\<rparr>" "sys_flush_task s' = FlushAwaitAck" "sys_acks s' = sys_acks s"
proof -
  obtain u where c: "fe_created env = Inr u" using assms by (cases "fe_created env") (auto simp: flush_memtable_def poison_def)
  then obtain r fd removed where f: "immutable_flush (fe_ln2_hashes env) (fe_hash env) (fe_write env) (fe_remove env)
      (db_immutable (sys_db s)) file_create = Some (r, fd, removed)"
    using assms(1) by (auto simp: flush_memtable_def bind_eq_Some_conv Let_def)
  obtain v where "r = Inr v" using assms c f by (cases r) (auto simp: flush_memtable_def poison_def Let_def)
  then show "\<exists>q. chan_send (db_compaction_cap (sys_db s)) (LoadSSTable (fe_filename env)) (db_signal (sys_db s)) = Some q \<and>
    sys_db s' = (sys_db s)\<lparr>db_signal := q\<rparr>" "sys_flush_task s' = FlushAwaitAck" "sys_acks s' = sys_acks s"
    using assms(1) c f by (auto simp: flush_memtable_def bind_eq_Some_conv Let_def)
qed

lemma load_effect:
  assumes "sstable_background env cl (LoadSSTable path) s = Some s'"
  shows "db_immutable (sys_db s') = immutable_pop (db_immutable (sys_db s))" "db_memtable (sys_db s') = db_memtable (sys_db s)"
    "db_memtable_channel (sys_db s') = db_memtable_channel (sys_db s)" "db_signal (sys_db s') = db_signal (sys_db s)"
    "db_poisoned (sys_db s') = db_poisoned (sys_db s)"
    "sys_acks s = 0" "sys_acks s' = 1" "sys_flush_task s' = sys_flush_task s"
proof -
  let ?open = "sstable_from_path (case sys_disk s path of None \<Rightarrow> Inl OsError | Some bs \<Rightarrow> Inr bs)"
  obtain t where "?open = Some (Inr t)"
  proof (cases ?open)
    case None
    then show ?thesis using assms by (simp add: sstable_background_def)
  next
    case (Some r)
    then show ?thesis using assms that by (cases r) (simp_all add: sstable_background_def)
  qed
  then show "db_immutable (sys_db s') = immutable_pop (db_immutable (sys_db s))" "db_memtable (sys_db s') = db_memtable (sys_db s)"
    "db_memtable_channel (sys_db s') = db_memtable_channel (sys_db s)" "db_signal (sys_db s') = db_signal (sys_db s)"
    "db_poisoned (sys_db s') = db_poisoned (sys_db s)"
    "sys_acks s = 0" "sys_acks s' = 1" "sys_flush_task s' = sys_flush_task s"
    using assms by (auto simp: sstable_background_def cache_push_def Let_def bind_eq_Some_conv split: if_splits)
qed

lemma world_step_keeps:
  assumes "world_step H (s, cs) l (s', cs')" "world_inv s cs"
  shows "world_inv s' cs' \<and> (l \<noteq> None \<longrightarrow> full_tables (sys_db s) cs \<subseteq># full_tables (sys_db s') cs' \<and>
    (\<forall>k. knows (sys_db s) cs k \<longrightarrow> knows (sys_db s') cs' k))"
  using assms(1)
proof (cases rule: world_step.cases)
  case (client i db')
  have inv: "clients_inv (taken s) (sys_db s) cs" "task_inv s" using assms(2) by (simp_all add: world_inv_def)
  from client(3) obtain env c' where i: "i < length cs" "client_step H env (cs ! i) (sys_db s) = Some (c', db')"
    by (auto elim: clients_stepE)
  have "\<not> db_poisoned (sys_db s)" "client_fits (cs ! i)" using inv(1) i(1) by (simp_all add: clients_inv_def)
  with i(2) have "db_signal db' = db_signal (sys_db s) \<and> set (db_memtable_channel db') \<subseteq> set (db_memtable_channel (sys_db s)) \<union> {Flush}"
    by (cases rule: client_step_cases) auto
  then have "task_inv s'" using inv(2) client(2) by (auto simp: task_inv_def cong: FlushTask.case_cong)
  moreover have "taken s' = taken s" using client(2) by (simp add: taken_def)
  ultimately show ?thesis using clients_step_keeps [OF client(3) inv(1)] client(2) by (simp add: world_inv_def)
next
  case (flush sig s1 env)
  obtain q where ch: "db_memtable_channel (sys_db s) = sig # q" "s1 = s\<lparr>sys_db := (sys_db s)\<lparr>db_memtable_channel := q\<rparr>\<rparr>"
    using flush(4) by (auto simp: recv_flush_def split: list.splits)
  have sig: "sig = Flush" and sg: "db_signal (sys_db s) = []" "sys_acks s = 0"
    using assms(2) ch flush(3) by (simp_all add: world_inv_def task_inv_def)
  note e = flush_effect [OF flush(5) [unfolded sig] flush(6)]
  from e(1) have db: "sys_db s' = (sys_db s)\<lparr>db_memtable_channel := q, db_signal := [LoadSSTable (fe_filename env)]\<rparr>"
    using sg(1) by (auto simp: ch(2) chan_send_def split: if_splits)
  have t: "taken s' = 1" "taken s = 0" using e(2,3) sg(2) flush(3) by (simp_all add: taken_def ch(2))
  have "clients_inv 1 (sys_db s') cs"
    using assms(2) ch(1) unfolding world_inv_def t db by (simp add: clients_inv_def full_tables_def)
  moreover have "task_inv s'" using assms(2) e(2,3) sg(2) ch unfolding world_inv_def task_inv_def db by simp
  ultimately show ?thesis using flush(1,2) t by (simp add: world_inv_def)
next
  case (load sig s1 env cl)
  obtain q where sg: "db_signal (sys_db s) = sig # q" "s1 = s\<lparr>sys_db := (sys_db s)\<lparr>db_signal := q\<rparr>\<rparr>"
    using load(4) by (auto simp: recv_signal_def split: list.splits)
  obtain path where p: "sig = LoadSSTable path" "q = []" "sys_flush_task s = FlushAwaitAck" "sys_acks s = 0"
    using assms(2) sg(1) by (auto simp: world_inv_def task_inv_def split: FlushTask.splits)
  note e = load_effect [OF load(5) [unfolded p(1)]]
  have t: "taken s' = 0" "taken s = 1" using e(7,8) p by (simp_all add: taken_def)
  have "clients_inv 1 (sys_db s) cs" using assms(2) t by (simp add: world_inv_def)
  then have "clients_inv 0 (sys_db s') cs"
    by (cases "im_table (db_immutable (sys_db s))") (simp_all add: clients_inv_def full_tables_def e sg(2) immutable_pop_def)
  moreover have "task_inv s'" using assms(2) e(7,8) p by (simp add: world_inv_def task_inv_def e sg(2))
  ultimately show ?thesis using load(1,2) t by (simp add: world_inv_def)
next
  case ack
  have "sys_acks s = 1" "db_signal (sys_db s) = []"
    using assms(2) ack(4,5) by (auto simp: world_inv_def task_inv_def)
  then show ?thesis using assms(2) ack by (simp add: world_inv_def task_inv_def taken_def)
qed

lemma world_run_keeps:
  assumes "run (world_step H) w ls w'" "world_inv (fst w) (snd w)"
  shows "world_inv (fst w') (snd w') \<and> (None \<notin> set ls \<longrightarrow>
    full_tables (sys_db (fst w)) (snd w) \<subseteq># full_tables (sys_db (fst w')) (snd w') \<and>
    (\<forall>k. knows (sys_db (fst w)) (snd w) k \<longrightarrow> knows (sys_db (fst w')) (snd w') k))"
  using assms
proof (induction rule: run.induct)
  case (step w l w1 ls w2)
  obtain s cs s1 cs1 where p: "w = (s, cs)" "w1 = (s1, cs1)" by (cases w, cases w1)
  from world_step_keeps [OF step.hyps(1) [unfolded p]] step.prems step.IH show ?case
    by (auto simp: p intro: subset_mset.order_trans)
qed simp

text \<open>A signal for the idle flush task comes with a table.\<close>

lemma flush_finds_table:
  assumes "world_inv s cs" "sys_flush_task s = FlushIdle" "recv_flush s = Some (sig, s1)"
  shows "im_table (db_immutable (sys_db s1)) \<noteq> []"
proof -
  have "length (db_memtable_channel (sys_db s)) \<le> length (im_table (db_immutable (sys_db s)))"
    using assms(1) by (simp add: world_inv_def clients_inv_def)
  then show ?thesis using assms(3) by (auto simp: recv_flush_def split: list.splits)
qed

end
