(* ===== verification/Linear.thy ===== *)
theory Linear
  imports Clients
begin

text \<open>
  Which schedules of concurrent clients are linearizable.  The two gaps of \<^verbatim>\<open>set\<close> and \<^verbatim>\<open>delete\<close> in
  \<^verbatim>\<open>src/database/inner.rs\<close> are the time between \<^verbatim>\<open>rotate\<close> and the insertion into the queue, and the time
  between the insertion and the retry.  Here the steps of the clients are restricted to schedules
  that avoid both: while a client carries a table nobody else moves, and no retry meets a full table.
\<close>

section \<open>Definitions\<close>

definition carry :: "Client \<Rightarrow> MemtableInner list" where
  "carry c = (case c of Queueing k p t \<Rightarrow> [t] | _ \<Rightarrow> [])"

definition in_flight :: "Client list \<Rightarrow> MemtableInner list" where
  "in_flight cs = concat (map carry cs)"

text \<open>The write a client has not made yet.\<close>

definition pending_of :: "Client \<Rightarrow> (bytes \<times> bytes option) multiset" where
  "pending_of c = (case c of Writing k p \<Rightarrow> {#(k, p)#} | Rotating k p \<Rightarrow> {#(k, p)#} | Queueing k p t \<Rightarrow> {#(k, p)#}
     | Signalling k p \<Rightarrow> {#(k, p)#} | Retrying k p \<Rightarrow> {#(k, p)#} | _ \<Rightarrow> {#})"

definition pending :: "Client list \<Rightarrow> (bytes \<times> bytes option) multiset" where
  "pending cs = (\<Sum>c \<in># mset cs. pending_of c)"

inductive serial_step :: "hasher \<Rightarrow> LsmliteInner \<times> Client list \<Rightarrow> nat \<Rightarrow> LsmliteInner \<times> Client list \<Rightarrow> bool" for H where
  step: "i < length cs \<Longrightarrow> client_step H env (cs ! i) self = Some (c, self') \<Longrightarrow> full_reads (cn_reader env) \<Longrightarrow>
    \<forall>j < length cs. j \<noteq> i \<longrightarrow> carry (cs ! j) = [] \<Longrightarrow>
    \<forall>k p. cs ! i = Retrying k p \<longrightarrow> \<not> full (mem_inner (db_memtable self)) \<Longrightarrow>
    serial_step H (self, cs) i (self', cs[i := c])"

inductive_cases serial_stepE: "serial_step H (self, cs) i (self', cs')"

text \<open>The contents, with a table on its way to the queue between memtable and queue.\<close>

definition lower_layers :: "entry list list \<Rightarrow> LsmliteInner \<Rightarrow> Client list \<Rightarrow> (bytes \<rightharpoonup> bytes option) list" where
  "lower_layers Ls self cs = map mt_view (in_flight cs @ rev (im_table (db_immutable self))) @ map map_of Ls"

definition live_layers :: "entry list list \<Rightarrow> LsmliteInner \<Rightarrow> Client list \<Rightarrow> (bytes \<rightharpoonup> bytes option) list" where
  "live_layers Ls self cs = mt_view (mem_inner (db_memtable self)) # lower_layers Ls self cs"

abbreviation live_view :: "entry list list \<Rightarrow> LsmliteInner \<Rightarrow> Client list \<Rightarrow> bytes \<rightharpoonup> bytes option" where
  "live_view Ls self cs \<equiv> first_known (live_layers Ls self cs)"

definition apply_writes :: "(bytes \<times> bytes option) list \<Rightarrow> (bytes \<rightharpoonup> bytes option) \<Rightarrow> bytes \<rightharpoonup> bytes option" where
  "apply_writes ws m = foldl (\<lambda>m (k, p). m(k \<mapsto> p)) m ws"

definition serial_inv :: "hasher \<Rightarrow> entry list list \<Rightarrow> LsmliteInner \<Rightarrow> Client list \<Rightarrow> bool" where
  "serial_inv H Ls self cs \<longleftrightarrow> db_ok H Ls self \<and> (\<forall>t \<in> set (in_flight cs). mt_inv t) \<and> (\<forall>c \<in> set cs. client_fits c)"

text \<open>
  A key is stable when its value always has the same length and it is never deleted: its records can be
  overwritten in place, and no tombstone hides a value in one layer only.
\<close>

definition plain :: "nat \<Rightarrow> bytes option option \<Rightarrow> bool" where
  "plain n e = (case e of None \<Rightarrow> True | Some None \<Rightarrow> False | Some (Some v) \<Rightarrow> length v = n)"

definition stable :: "nat \<Rightarrow> bytes \<Rightarrow> entry list list \<Rightarrow> LsmliteInner \<Rightarrow> Client list \<Rightarrow> bool" where
  "stable n k Ls self cs \<longleftrightarrow> (\<forall>m \<in> set (live_layers Ls self cs). plain n (m k)) \<and>
     (\<forall>p. (k, p) \<in># pending cs \<longrightarrow> plain n (Some p)) \<and>
     coherent k (mem_inner (db_memtable self)) \<and> (\<forall>t \<in> set (in_flight cs @ im_table (db_immutable self)). coherent k t)"

text \<open>
  What a read that has got so far may return: \<open>V\<close> holds the values the key has between the first and the
  last step of the call, \<open>W\<close> those it has from now on until the last step.
\<close>

definition may_return :: "entry list list \<Rightarrow> LsmliteInner \<Rightarrow> Client list \<Rightarrow> bytes \<Rightarrow> (bytes option) set \<Rightarrow> (bytes option) set \<Rightarrow> Client \<Rightarrow> (bytes option) set" where
  "may_return Ls self cs k V W c = (case c of
       Reading j \<Rightarrow> (if j = k then V else UNIV)
     | ReadingQueue j \<Rightarrow> (if j = k then insert (data_of (first_known (lower_layers Ls self cs) k)) W else UNIV)
     | ReadingTables j \<Rightarrow> (if j = k then {data_of (newest Ls k)} else UNIV)
     | Finished r \<Rightarrow> {r}
     | _ \<Rightarrow> UNIV)"

text \<open>The writes that take effect in a schedule: for each step the write it makes, if any.\<close>

definition effects :: "(bytes \<times> bytes option) option list \<Rightarrow> (bytes \<times> bytes option) list" where
  "effects fx = List.map_filter (\<lambda>x. x) fx"

text \<open>The writes made by the steps of client \<open>j\<close>.\<close>

definition effects_of :: "nat \<Rightarrow> nat list \<Rightarrow> (bytes \<times> bytes option) option list \<Rightarrow> (bytes \<times> bytes option) list" where
  "effects_of j is fx = effects (map snd (filter (\<lambda>(i, _). i = j) (zip is fx)))"

text \<open>The value of a key after the first \<open>m\<close> steps.\<close>

definition value_after :: "(bytes \<times> bytes option) option list \<Rightarrow> (bytes \<rightharpoonup> bytes option) \<Rightarrow> bytes \<Rightarrow> nat \<Rightarrow> bytes option" where
  "value_after fx v k m = data_of (apply_writes (effects (take m fx)) v k)"

text \<open>The values a key has between the first and the last step of client \<open>j\<close>, and until its last step.\<close>

definition during :: "nat \<Rightarrow> nat list \<Rightarrow> (bytes \<times> bytes option) option list \<Rightarrow> (bytes \<rightharpoonup> bytes option) \<Rightarrow> bytes \<Rightarrow> bytes option set" where
  "during j is fx v k = {r. \<exists>a m b. a \<le> m \<and> m \<le> b \<and> b < length is \<and> is ! a = j \<and> is ! b = j \<and> r = value_after fx v k m}"

definition until :: "nat \<Rightarrow> nat list \<Rightarrow> (bytes \<times> bytes option) option list \<Rightarrow> (bytes \<rightharpoonup> bytes option) \<Rightarrow> bytes \<Rightarrow> bytes option set" where
  "until j is fx v k = {r. \<exists>m b. m \<le> b \<and> b < length is \<and> is ! b = j \<and> r = value_after fx v k m}"

section \<open>One step\<close>

lemma apply_writes_simps [simp]:
  "apply_writes [] m = m" "apply_writes ((k, p) # ws) m = apply_writes ws (m(k \<mapsto> p))"
  by (simp_all add: apply_writes_def)

lemma effects_simps [simp]: "effects [] = []" "effects (None # fx) = effects fx" "effects (Some w # fx) = w # effects fx"
  by (simp_all add: effects_def map_filter_simps)

lemma carry_simps [simp]:
  "carry (Writing k p) = []" "carry (Rotating k p) = []" "carry (Queueing k p t) = [t]" "carry (Signalling k p) = []"
  "carry (Retrying k p) = []" "carry (Reading k) = []" "carry (ReadingQueue k) = []" "carry (ReadingTables k) = []"
  "carry (Finished r) = []"
  by (simp_all add: carry_def)

lemma pending_of_simps [simp]:
  "pending_of (Writing k p) = {#(k, p)#}" "pending_of (Rotating k p) = {#(k, p)#}" "pending_of (Queueing k p t) = {#(k, p)#}"
  "pending_of (Signalling k p) = {#(k, p)#}" "pending_of (Retrying k p) = {#(k, p)#}" "pending_of (Reading k) = {#}"
  "pending_of (ReadingQueue k) = {#}" "pending_of (ReadingTables k) = {#}" "pending_of (Finished r) = {#}"
  by (simp_all add: pending_of_def)

lemma client_fits_simps [simp]:
  "client_fits (Writing k p) = rec_fits k p" "client_fits (Rotating k p) = rec_fits k p" "client_fits (Queueing k p t) = rec_fits k p"
  "client_fits (Signalling k p) = rec_fits k p" "client_fits (Retrying k p) = rec_fits k p" "client_fits (Reading k)"
  "client_fits (ReadingQueue k)" "client_fits (ReadingTables k)" "client_fits (Finished r)"
  by (simp_all add: client_fits_def)

lemma in_flight_update:
  assumes "i < length cs" "\<forall>j < length cs. j \<noteq> i \<longrightarrow> carry (cs ! j) = []"
  shows "in_flight (cs[i := c]) = carry c"
proof -
  have "concat (map carry (take i cs)) = []" using assms by (auto simp: in_set_conv_nth)
  moreover have "concat (map carry (drop (Suc i) cs)) = []" using assms by (auto simp: in_set_conv_nth)
  ultimately show ?thesis by (simp add: in_flight_def upd_conv_take_nth_drop [OF assms(1)] del: concat_eq_Nil_conv)
qed

lemma in_flight_alone:
  assumes "i < length cs" "\<forall>j < length cs. j \<noteq> i \<longrightarrow> carry (cs ! j) = []"
  shows "in_flight cs = carry (cs ! i)"
  using in_flight_update [OF assms, of "cs ! i"] by simp

lemma serial_cases:
  assumes st: "client_step H env c self = Some (c', self')" and np: "\<not> db_poisoned self" and fits: "client_fits c"
    and retry: "\<forall>k p. c = Retrying k p \<longrightarrow> \<not> full (mem_inner (db_memtable self))"
  obtains (store) k p inner where "c = Writing k p \<or> c = Retrying k p" "c' = Finished None" "rec_fits k p"
      "write_entry (cn_env env) k p (mem_inner (db_memtable self)) = Some (Inr inner)" "self' = put_inner inner self"
    | (wait) k p where "c = Writing k p" "c' = Rotating k p" "self' = self"
    | (rotate) k p w where "c = Rotating k p" "c' = Queueing k p (mem_inner (db_memtable self))"
      "self' = put_inner (fresh_inner w self) self"
    | (enqueue) k p t where "c = Queueing k p t" "c' = Signalling k p"
      "self' = self\<lparr>db_immutable := immutable_insert t (db_immutable self)\<rparr>"
    | (signal) k p q where "c = Signalling k p" "c' = Retrying k p" "self' = self\<lparr>db_memtable_channel := q\<rparr>"
    | (memtable) k r where "c = Reading k" "read_memtable k self = Some r" "self' = self"
      "c' = (case r of Some blob \<Rightarrow> Finished (Some blob) | None \<Rightarrow> ReadingQueue k)"
    | (queue) k r where "c = ReadingQueue k" "read_immutable_table k self = Some r" "self' = self"
      "c' = (case r of Some blob \<Rightarrow> Finished (Some blob) | None \<Rightarrow> ReadingTables k)"
    | (tables) k r cache where "c = ReadingTables k" "cache_search H (cn_reader env) k (db_sstable_cache self) = Some (r, cache)"
      "self' = self\<lparr>db_sstable_cache := cache\<rparr>" "c' = Finished (case r of Inr val \<Rightarrow> Some val | Inl _ \<Rightarrow> None)"
proof (cases c)
  case (Writing k p)
  then have "rec_fits k p" using fits by simp
  then show thesis using st store [of k p] wait [of k p] unfolding Writing writing_step [OF np \<open>rec_fits k p\<close>] by blast
next
  case (Rotating k p)
  then show thesis using st rotate unfolding Rotating rotating_step by blast
next
  case (Queueing k p t)
  then show thesis using st enqueue unfolding Queueing queueing_step by blast
next
  case (Signalling k p)
  then show thesis using st signal unfolding Signalling signalling_step by blast
next
  case (Retrying k p)
  then have kp: "rec_fits k p" "\<not> full (mem_inner (db_memtable self))" using fits retry by simp_all
  from st obtain r where r: "write_entry (cn_env env) k p (mem_inner (db_memtable self)) = Some r" "c' = Finished None"
    "self' = (case r of Inr inner \<Rightarrow> put_inner inner self | Inl _ \<Rightarrow> self)" unfolding Retrying retrying_step by blast
  then obtain inner where "r = Inr inner" using write_entry_Inl [OF kp(1)] kp(2) by (cases r) auto
  then show thesis using r kp(1) Retrying store [of k p inner] by simp
next
  case (Reading k)
  then show thesis using st memtable unfolding Reading reading_step [OF np] by blast
next
  case (ReadingQueue k)
  then show thesis using st queue unfolding ReadingQueue reading_queue_step by blast
next
  case (ReadingTables k)
  then show thesis using st tables unfolding ReadingTables reading_tables_step by blast
next
  case (Finished r)
  then show thesis using st by (simp add: client_step_def)
qed

text \<open>The parts of a step: the moving client alone can carry a table.\<close>

lemma serial_step_parts:
  assumes st: "serial_step H (self, cs) i (self', cs')" and inv: "serial_inv H Ls self cs"
  obtains env c' M where "i < length cs" "cs' = cs[i := c']" "client_step H env (cs ! i) self = Some (c', self')"
    "db_ok H Ls self" "\<not> db_poisoned self" "client_fits (cs ! i)"
    "\<forall>k p. cs ! i = Retrying k p \<longrightarrow> \<not> full (mem_inner (db_memtable self))" "full_reads (cn_reader env)"
    "in_flight cs = carry (cs ! i)" "in_flight cs' = carry c'" "mset cs = add_mset (cs ! i) M" "mset cs' = add_mset c' M"
proof -
  from st obtain env c' where i: "i < length cs" and cs': "cs' = cs[i := c']"
    and cl: "client_step H env (cs ! i) self = Some (c', self')" "full_reads (cn_reader env)"
    and alone: "\<forall>j < length cs. j \<noteq> i \<longrightarrow> carry (cs ! j) = []"
    and retry: "\<forall>k p. cs ! i = Retrying k p \<longrightarrow> \<not> full (mem_inner (db_memtable self))"
    by (auto elim: serial_stepE)
  obtain M where M: "mset cs = add_mset (cs ! i) M" "mset cs' = add_mset c' M" unfolding cs' by (rule update_split [OF i])
  show thesis
    by (rule that [OF i cs' cl(1) _ _ _ retry cl(2) in_flight_alone [OF i alone] _ M])
      (use inv i in \<open>simp_all add: cs' serial_inv_def db_ok_def in_flight_update [OF i alone]\<close>)
qed

text \<open>What a step does to the contents and to the pending writes.\<close>

lemma first_known_update: "first_known (m(k \<mapsto> p) # ms) = (first_known (m # ms))(k \<mapsto> p)"
  by (rule ext) simp

lemma serial_step_effect:
  assumes st: "serial_step H (self, cs) i (self', cs')" and inv: "serial_inv H Ls self cs"
  shows "serial_inv H Ls self' cs'" "\<exists>f. live_view Ls self' cs' = apply_writes (effects [f]) (live_view Ls self cs) \<and>
    pending_of (cs ! i) = mset (effects [f]) + pending_of (cs' ! i)"
proof -
  from st inv obtain env c' M where i: "i < length cs" "cs' = cs[i := c']" and cl: "client_step H env (cs ! i) self = Some (c', self')" "\<not> db_poisoned self" "client_fits (cs ! i)"
      "\<forall>k p. cs ! i = Retrying k p \<longrightarrow> \<not> full (mem_inner (db_memtable self))"
    and R: "full_reads (cn_reader env)" and fl: "in_flight cs = carry (cs ! i)" "in_flight cs' = carry c'"
    and M: "mset cs = add_mset (cs ! i) M" "mset cs' = add_mset c' M" by (rule serial_step_parts) blast
  have set: "set cs = insert (cs ! i) (set_mset M)" "set cs' = insert c' (set_mset M)"
    using arg_cong [OF M(1), of set_mset] arg_cong [OF M(2), of set_mset] by simp_all
  have c': "cs' ! i = c'" using i by simp
  note d = serial_inv_def db_ok_def live_layers_def lower_layers_def fl set c'
  have "serial_inv H Ls self' cs' \<and> (\<exists>f. live_view Ls self' cs' = apply_writes (effects [f]) (live_view Ls self cs) \<and>
    pending_of (cs ! i) = mset (effects [f]) + pending_of (cs' ! i))"
    using cl
  proof (cases rule: serial_cases)
    case (store k p inner)
    have m: "mt_inv (mem_inner (db_memtable self))" using inv by (simp add: serial_inv_def db_ok_def)
    have c: "carry (cs ! i) = []" "pending_of (cs ! i) = {#(k, p)#}" using store(1) by auto
    have "serial_inv H Ls self' cs'" using write_entry_Inr(2) [OF m store(3,4)] inv store(2,5) by (auto simp: d)
    moreover have "live_view Ls self' cs' = apply_writes [(k, p)] (live_view Ls self cs)" "pending_of (cs ! i) = mset [(k, p)] + pending_of (cs' ! i)"
      using write_entry_Inr(3) [OF m store(3,4)] store(2,5) c first_known_update by (simp_all add: d)
    ultimately show ?thesis by (intro conjI exI [of _ "Some (k, p)"]) simp_all
  next
    case (wait k p)
    then show ?thesis using inv by (intro conjI exI [of _ None]) (auto simp: d)
  next
    case (rotate k p w)
    then show ?thesis using inv by (intro conjI exI [of _ None]) (auto simp: d fun_eq_iff)
  next
    case (enqueue k p t)
    then show ?thesis using inv by (intro conjI exI [of _ None]) (auto simp: d immutable_insert_def)
  next
    case (signal k p)
    then show ?thesis using inv by (intro conjI exI [of _ None]) (auto simp: d)
  next
    case (memtable k r)
    then show ?thesis using inv by (intro conjI exI [of _ None]) (auto simp: d split: option.split)
  next
    case (queue k r)
    then show ?thesis using inv by (intro conjI exI [of _ None]) (auto simp: d split: option.split)
  next
    case (tables k r cache)
    have "cache_holds H Ls (db_sstable_cache self)" using inv by (simp add: serial_inv_def db_ok_def)
    then have "cache_holds H Ls cache" by (rule cache_search_newest [OF _ R, of _ _ _ k]) (use tables(2) in simp)
    then show ?thesis using tables inv by (intro conjI exI [of _ None]) (auto simp: d)
  qed
  then show "serial_inv H Ls self' cs'" "\<exists>f. live_view Ls self' cs' = apply_writes (effects [f]) (live_view Ls self cs) \<and>
    pending_of (cs ! i) = mset (effects [f]) + pending_of (cs' ! i)" by blast+
qed

section \<open>Reads\<close>

lemma plain_simps [simp]: "plain n None" "\<not> plain n (Some None)" "plain n (Some (Some v)) \<longleftrightarrow> length v = n"
  by (simp_all add: plain_def)

lemma plain_first_known: "\<forall>m \<in> set ms. plain n (m k) \<Longrightarrow> plain n (first_known ms k)"
  by (induction ms) (auto split: option.split)

lemma plain_data: "plain n e \<Longrightarrow> data_of e = None \<longleftrightarrow> e = None"
  by (auto simp: plain_def data_of_def split: option.splits)

lemma plain_clean_write: "plain n old \<Longrightarrow> plain n (Some p) \<Longrightarrow> clean_write old p"
  by (auto simp: plain_def clean_write_def split: option.splits)

lemma serial_step_stable:
  assumes st: "serial_step H (self, cs) i (self', cs')" and inv: "serial_inv H Ls self cs" and s: "stable n k Ls self cs"
  shows "stable n k Ls self' cs'"
    "data_of (first_known (lower_layers Ls self' cs') k) \<in>
      {data_of (first_known (lower_layers Ls self cs) k), data_of (live_view Ls self cs k)}"
proof -
  from st inv obtain env c' M where cl: "client_step H env (cs ! i) self = Some (c', self')" "\<not> db_poisoned self" "client_fits (cs ! i)"
      "\<forall>k p. cs ! i = Retrying k p \<longrightarrow> \<not> full (mem_inner (db_memtable self))"
    and fl: "in_flight cs = carry (cs ! i)" "in_flight cs' = carry c'"
    and M: "mset cs = add_mset (cs ! i) M" "mset cs' = add_mset c' M" by (rule serial_step_parts) blast
  note d = stable_def pending_def live_layers_def lower_layers_def fl M
  have "stable n k Ls self' cs' \<and> data_of (first_known (lower_layers Ls self' cs') k) \<in>
      {data_of (first_known (lower_layers Ls self cs) k), data_of (live_view Ls self cs k)}"
    using cl
  proof (cases rule: serial_cases)
    case (store j p inner)
    have m: "mt_inv (mem_inner (db_memtable self))" using inv by (simp add: serial_inv_def db_ok_def)
    have c: "carry (cs ! i) = []" "pending_of (cs ! i) = {#(j, p)#}" using store(1) by auto
    have old: "plain n (mt_view (mem_inner (db_memtable self)) k)" "j = k \<longrightarrow> plain n (Some p)" "coherent k (mem_inner (db_memtable self))"
      using s c by (auto simp: d)
    then have "coherent k inner" by (intro write_entry_Inr(4) [OF m store(3,4)]) (auto intro: plain_clean_write)
    then show ?thesis using s old write_entry_Inr(3) [OF m store(3,4)] store(2,5) c by (auto simp: d)
  next
    case (wait k p)
    then show ?thesis using s by (auto simp: d)
  next
    case (rotate k p w)
    then show ?thesis using s by (auto simp: d)
  next
    case (enqueue k p t)
    then show ?thesis using s by (auto simp: d immutable_insert_def)
  next
    case (signal k p)
    then show ?thesis using s by (auto simp: d)
  next
    case (memtable k r)
    then show ?thesis using s by (auto simp: d split: option.split)
  next
    case (queue k r)
    then show ?thesis using s by (auto simp: d split: option.split)
  next
    case (tables k r cache)
    then show ?thesis using s by (auto simp: d)
  qed
  then show "stable n k Ls self' cs'" "data_of (first_known (lower_layers Ls self' cs') k) \<in>
      {data_of (first_known (lower_layers Ls self cs) k), data_of (live_view Ls self cs k)}" by blast+
qed

text \<open>The step of a reader itself.\<close>

lemma reader_step_returns:
  assumes cl: "client_step H env c self = Some (c', self')" and ok: "db_ok H Ls self" and fits: "client_fits c"
    and retry: "\<forall>k p. c = Retrying k p \<longrightarrow> \<not> full (mem_inner (db_memtable self))" and R: "full_reads (cn_reader env)"
    and fl: "in_flight cs = carry c" "in_flight cs' = carry c'" and s: "stable n k Ls self cs"
    and V: "data_of (live_view Ls self cs k) \<in> V" "W' \<subseteq> V"
  shows "may_return Ls self' cs' k V' W' c' \<subseteq> may_return Ls self cs k V W c"
proof -
  have np: "\<not> db_poisoned self" using ok by (simp add: db_ok_def)
  have co: "db_coherent k self" using s by (auto simp: stable_def db_coherent_def)
  have pl: "plain n (mt_view (mem_inner (db_memtable self)) k)"
    "plain n (first_known (map mt_view (rev (im_table (db_immutable self)))) k)"
    using s by (auto simp: stable_def live_layers_def lower_layers_def intro: plain_first_known)
  note d = may_return_def live_layers_def lower_layers_def fl first_known_append newest_first_known
  from cl np fits retry show ?thesis
  proof (cases rule: serial_cases)
    case (memtable j r)
    show ?thesis
    proof (cases "j = k")
      case True
      then have "r = data_of (mt_view (mem_inner (db_memtable self)) k)" using read_memtable_data [OF ok co] memtable(2) by simp
      then show ?thesis using V True memtable(1,3,4) plain_data [OF pl(1)]
        by (cases "mt_view (mem_inner (db_memtable self)) k"; cases r) (auto simp: d)
    qed (use memtable in \<open>simp add: may_return_def\<close>)
  next
    case (queue j r)
    show ?thesis
    proof (cases "j = k")
      case True
      then have "r = data_of (first_known (map mt_view (rev (im_table (db_immutable self)))) k)"
        using read_immutable_data [OF ok co] queue(2) by simp
      then show ?thesis using V True queue(1,3,4) plain_data [OF pl(2)]
        by (cases "first_known (map mt_view (rev (im_table (db_immutable self)))) k"; cases r) (auto simp: d)
    qed (use queue in \<open>simp add: may_return_def\<close>)
  next
    case (tables j r cache)
    have "cache_holds H Ls (db_sstable_cache self)" using ok by (simp add: db_ok_def)
    then obtain c1 where "cache_search H (cn_reader env) j (db_sstable_cache self) = Some (cache_answer (newest Ls j), c1)"
      by (rule cache_search_newest [OF _ R])
    then show ?thesis using tables by (simp add: may_return_def cache_answer_data)
  qed (auto simp: may_return_def)
qed

text \<open>The step of another client.\<close>

lemma other_step_returns:
  assumes st: "serial_step H (self, cs) i (self', cs')" and inv: "serial_inv H Ls self cs" and s: "stable n k Ls self cs"
    and V: "V' \<subseteq> V" "W' \<subseteq> W" "data_of (live_view Ls self cs k) \<in> W"
  shows "may_return Ls self' cs' k V' W' c \<subseteq> may_return Ls self cs k V W c"
  using serial_step_stable(2) [OF st inv s] V by (cases c) (auto simp: may_return_def)

section \<open>Points of effect\<close>

lemma apply_writes_append: "apply_writes (ws @ ws') m = apply_writes ws' (apply_writes ws m)"
  by (simp add: apply_writes_def)

lemma effects_Cons: "effects (f # fx) = effects [f] @ effects fx"
  by (cases f) simp_all

lemma effects_of_Cons: "effects_of j (i # is) (f # fx) = (if i = j then effects [f] else []) @ effects_of j is fx"
  by (cases f) (simp_all add: effects_of_def)

lemma effects_of_Nil [simp]: "effects_of j [] fx = []"
  by (simp add: effects_of_def)

lemma value_after_simps [simp]:
  "value_after fx v k 0 = data_of (v k)"
  "value_after (f # fx) v k (Suc m) = value_after fx (apply_writes (effects [f]) v) k m"
  by (simp_all add: value_after_def) (simp add: effects_Cons [of f "take m fx"] apply_writes_append)

lemma during_first: "data_of (v k) \<in> during i (i # is) fx v k"
  unfolding during_def by (intro CollectI exI [of _ 0]) simp

lemma until_first: "j \<in> set is \<Longrightarrow> data_of (v k) \<in> until j is fx v k"
  unfolding until_def in_set_conv_nth using value_after_simps(1) by fastforce

lemma during_later: "during j is fx (apply_writes (effects [f]) v) k \<subseteq> during j (i # is) (f # fx) v k"
proof
  fix r
  assume "r \<in> during j is fx (apply_writes (effects [f]) v) k"
  then obtain a m b where "a \<le> m" "m \<le> b" "b < length is" "is ! a = j" "is ! b = j" "r = value_after fx (apply_writes (effects [f]) v) k m"
    by (auto simp: during_def)
  then show "r \<in> during j (i # is) (f # fx) v k"
    unfolding during_def by (intro CollectI exI [of _ "Suc a"] exI [of _ "Suc m"] exI [of _ "Suc b"]) simp
qed

lemma until_later:
  "until j is fx (apply_writes (effects [f]) v) k \<subseteq> until j (i # is) (f # fx) v k"
  "until i is fx (apply_writes (effects [f]) v) k \<subseteq> during i (i # is) (f # fx) v k"
proof -
  have u: "r \<in> until j (i # is) (f # fx) v k \<and> (i = j \<longrightarrow> r \<in> during i (i # is) (f # fx) v k)"
    if r: "r \<in> until j is fx (apply_writes (effects [f]) v) k" for r j
  proof -
    obtain m b where m: "m \<le> b" "b < length is" "is ! b = j" "r = value_after fx (apply_writes (effects [f]) v) k m"
      using r by (auto simp: until_def)
    then have "r \<in> until j (i # is) (f # fx) v k"
      unfolding until_def by (intro CollectI exI [of _ "Suc m"] exI [of _ "Suc b"]) simp
    moreover have "r \<in> during i (i # is) (f # fx) v k" if "i = j"
      using m that unfolding during_def by (intro CollectI exI [of _ 0] exI [of _ "Suc m"] exI [of _ "Suc b"]) simp
    ultimately show ?thesis by blast
  qed
  then show "until j is fx (apply_writes (effects [f]) v) k \<subseteq> until j (i # is) (f # fx) v k"
    "until i is fx (apply_writes (effects [f]) v) k \<subseteq> during i (i # is) (f # fx) v k" by blast+
qed

section \<open>Runs\<close>

text \<open>The result of a call that has returned.\<close>

definition results :: "Client \<Rightarrow> bytes option set" where
  "results c = (case c of Finished r \<Rightarrow> {r} | _ \<Rightarrow> {})"

lemma results_return: "results c \<subseteq> may_return Ls self cs k V W c"
  by (cases c) (simp_all add: results_def may_return_def)

lemma serial_run_idle: "run (serial_step H) w is w' \<Longrightarrow> j \<notin> set is \<Longrightarrow> snd w' ! j = snd w ! j"
  by (induction rule: run.induct) (auto elim!: serial_step.cases)

lemma serial_step_returns:
  assumes st: "serial_step H (self, cs) i (self1, cs1)" and inv: "serial_inv H Ls self cs" and s: "stable n k Ls self cs"
    and view: "live_view Ls self1 cs1 = apply_writes (effects [f]) (live_view Ls self cs)" and j: "j = i \<or> j \<in> set is"
  shows "may_return Ls self1 cs1 k (during j is fx (live_view Ls self1 cs1) k) (until j is fx (live_view Ls self1 cs1) k) (cs1 ! j) \<subseteq>
    may_return Ls self cs k (during j (i # is) (f # fx) (live_view Ls self cs) k) (until j (i # is) (f # fx) (live_view Ls self cs) k) (cs ! j)"
proof -
  from st inv obtain env c' where i: "i < length cs" and cs1: "cs1 = cs[i := c']"
    and parts: "client_step H env (cs ! i) self = Some (c', self1)" "db_ok H Ls self" "client_fits (cs ! i)"
      "\<forall>k p. cs ! i = Retrying k p \<longrightarrow> \<not> full (mem_inner (db_memtable self))" "full_reads (cn_reader env)"
      "in_flight cs = carry (cs ! i)" "in_flight cs1 = carry c'" by (rule serial_step_parts) blast
  show ?thesis
  proof (cases "j = i")
    case True
    then have "cs1 ! j = c'" using i by (simp add: cs1)
    then show ?thesis unfolding view True by (simp, intro reader_step_returns [OF parts s]) (rule during_first until_later(2))+
  next
    case False
    then have "j \<in> set (i # is)" "cs1 ! j = cs ! j" using j by (simp_all add: cs1)
    then show ?thesis unfolding view
      by (simp, intro other_step_returns [OF st inv s]) (rule during_later until_later(1) until_first, simp?)+
  qed
qed

lemma serial_run_effect:
  assumes "run (serial_step H) w is w'" "serial_inv H Ls (fst w) (snd w)"
  shows "\<exists>fx. length fx = length is \<and> live_view Ls (fst w') (snd w') = apply_writes (effects fx) (live_view Ls (fst w) (snd w)) \<and>
    (\<forall>j < length (snd w). pending_of (snd w ! j) = mset (effects_of j is fx) + pending_of (snd w' ! j)) \<and>
    (\<forall>n k j. stable n k Ls (fst w) (snd w) \<longrightarrow> results (snd w' ! j) \<subseteq>
        may_return Ls (fst w) (snd w) k (during j is fx (live_view Ls (fst w) (snd w)) k)
          (until j is fx (live_view Ls (fst w) (snd w)) k) (snd w ! j))"
  using assms
proof (induction rule: run.induct)
  case (stop w)
  show ?case by (intro exI [of _ "[]"]) (simp add: results_return)
next
  case (step w i w1 "is" w2)
  obtain self cs self1 cs1 where p: "w = (self, cs)" "w1 = (self1, cs1)" by (cases w, cases w1)
  have st: "serial_step H (self, cs) i (self1, cs1)" and inv: "serial_inv H Ls self cs"
    using step.hyps(1) step.prems by (simp_all add: p)
  from serial_step_effect(2) [OF st inv] obtain f where
    f: "live_view Ls self1 cs1 = apply_writes (effects [f]) (live_view Ls self cs)" "pending_of (cs ! i) = mset (effects [f]) + pending_of (cs1 ! i)"
    by blast
  have cs1: "length cs1 = length cs" "\<And>j. j \<noteq> i \<Longrightarrow> cs1 ! j = cs ! j" using st by (auto elim: serial_stepE)
  from step.IH serial_step_effect(1) [OF st inv] obtain fx where
    fx: "length fx = length is" "live_view Ls (fst w2) (snd w2) = apply_writes (effects fx) (live_view Ls self1 cs1)"
      "\<And>j. j < length cs1 \<Longrightarrow> pending_of (cs1 ! j) = mset (effects_of j is fx) + pending_of (snd w2 ! j)"
      "\<And>n k j. stable n k Ls self1 cs1 \<Longrightarrow> results (snd w2 ! j) \<subseteq> may_return Ls self1 cs1 k
        (during j is fx (live_view Ls self1 cs1) k) (until j is fx (live_view Ls self1 cs1) k) (cs1 ! j)"
    by (auto simp: p)
  have "pending_of (cs ! j) = mset (effects_of j (i # is) (f # fx)) + pending_of (snd w2 ! j)" if "j < length cs" for j
    using f(2) fx(3) [of j] cs1 that by (cases "j = i") (simp_all add: effects_of_Cons)
  moreover have "results (snd w2 ! j) \<subseteq> may_return Ls self cs k (during j (i # is) (f # fx) (live_view Ls self cs) k)
      (until j (i # is) (f # fx) (live_view Ls self cs) k) (cs ! j)" if s: "stable n k Ls self cs" for n k j
  proof (cases "j = i \<or> j \<in> set is")
    case True
    then show ?thesis using serial_step_returns [OF st inv s f(1)] fx(4) [OF serial_step_stable(1) [OF st inv s]] by blast
  next
    case False
    then have "snd w2 ! j = cs ! j" using serial_run_idle [OF step.hyps(2)] cs1(2) by (simp add: p)
    then show ?thesis by (simp add: results_return)
  qed
  ultimately show ?case using f(1) fx(1,2)
    by (intro exI [of _ "f # fx"]) (simp add: p effects_Cons [of f fx] apply_writes_append)
qed

end
