(* ===== verification/Client_Props.thy ===== *)
theory Client_Props
  imports Linear System_Props
begin

text \<open>
  The properties of concurrent clients: what every interleaving keeps, and what the gaps between the
  locks of one call allow.
\<close>

section \<open>An example\<close>

text \<open>A memtable with room for one entry is full after the first write.\<close>

lemma single_slot:
  assumes "0 < ms" "rec_fits k p"
  obtains inner where "write_entry env k p (memtable_new ms 1 w) = Some (Inr inner)" "mt_inv inner" "mt_view inner = [k \<mapsto> p]" "full inner" "\<forall>j. coherent j inner"
proof -
  let ?t = "memtable_new ms 1 w"
  have nf: "\<not> full ?t" using assms(1) by (simp add: memtable_new_def full_def)
  obtain inner where i: "write_entry env k p ?t = Some (Inr inner)" "mt_inv inner" "mt_view inner = (mt_view ?t)(k \<mapsto> p)"
    "insert_node (new_from_record (rec_of k p)) (?t\<lparr>mt_wal := write_log env (enc_blob k p) (mt_wal ?t)\<rparr>) = Some inner"
    by (rule write_entry_stored [OF _ assms(2) nf, of env]) simp_all
  from i(4) have "full inner" by (auto simp: insert_node_def set_root_def memtable_new_def full_def Let_def)
  moreover have "\<forall>j. coherent j inner" by (intro allI write_entry_Inr(4) [OF _ assms(2) i(1)]) (simp_all add: clean_write_def)
  ultimately show thesis using i by (intro that [OF i(1,2)]) simp_all
qed

abbreviation quiet :: "Wal \<Rightarrow> ClientEnv" where
  "quiet w \<equiv> \<lparr>cn_env = calm_env, cn_wal = Inr w, cn_reader = \<lambda>_ n. Inr n\<rparr>"

text \<open>A database whose memtable has room for one entry and holds it.\<close>

lemma example_full:
  obtains self where "db_ok H [] self" "full (mem_inner (db_memtable self))" "mem_max_nodes (db_memtable self) = 1"
    "0 < mem_max_size (db_memtable self)" "db_memtable_channel self = []" "db_flush_cap self = 100"
    "im_table (db_immutable self) = []" "mt_view (mem_inner (db_memtable self)) = [[1] \<mapsto> Some [2]]" "db_coherent k self"
    "db_signal self = []"
proof -
  let ?c = "config_default\<lparr>cf_max_memtable_nodes := 1\<rparr>" and ?w = "wal_new 0 ''w''"
  from lsmlite_new_restores [of "[]" H "\<lambda>_. Inl OsError" "\<lambda>_. []" "[]" ?c example_fs "\<lambda>_. []" ?w]
  obtain db where db: "lsmlite_new example_fs (\<lambda>_. Inl OsError) (Inr ?w) [] [] ?c = Some db" "db_ok H [] db" "reopened ?c [] (\<lambda>_. []) db"
    using config_default_positive(3,4) by auto
  have fits: "rec_fits [1] (Some [2])" by (simp add: rec_fits_def example_blobs)
  have pos: "0 < unat (cf_max_memtable_size config_default)" by (rule config_default_positive(2))
  obtain inner where i: "mt_inv inner" "mt_view inner = [[1] \<mapsto> Some [2]]" "full inner" "\<forall>j. coherent j inner"
    using single_slot [OF pos fits, of calm_env ?w] by metis
  show thesis
    by (rule that [of "put_inner inner db"])
      (use db(2,3) i pos config_default_positive(4) in \<open>simp_all add: db_ok_def reopened_def db_coherent_def\<close>)
qed

lemma example_fits: "rec_fits [1] (Some [2])" "rec_fits [3] None" "rec_fits [1] (Some [5])"
proof -
  have "enc_blob [3] None = [1, 2, 1, 3]" "enc_blob [1] (Some [5]) = [0, 4, 1, 1, 1, 5]" by code_simp+
  then show "rec_fits [1] (Some [2])" "rec_fits [3] None" "rec_fits [1] (Some [5])" by (simp_all add: rec_fits_def example_blobs)
qed

section \<open>Every interleaving\<close>

text \<open>
  The steps of a client are the parts of the calls: they lead, run one after the other, to the same final
  states and results as the calls \<^verbatim>\<open>set\<close>, \<^verbatim>\<open>delete\<close> and \<^verbatim>\<open>get\<close> taken as one step.
\<close>

lemma client_alone_atomic:
  assumes "\<not> db_poisoned self"
  shows "(\<forall>k p. rec_fits k p \<longrightarrow> ((\<exists>is. run (clients_step H) (self, [Writing k p]) is (self', [Finished None])) \<longleftrightarrow>
      (\<exists>oe. db_write oe k p self = Some self'))) \<and>
    (\<forall>k r. (\<exists>is. run (clients_step H) (self, [Reading k]) is (self', [Finished r])) \<longleftrightarrow>
      (\<exists>R. db_get H R k self = Some (r, self')))"
  using alone_write_runs [OF assms, of _ _ _ self' H] alone_write_inv [OF assms, of _ _ H _ self']
    alone_read_runs [OF assms, of H _ _ _ self'] alone_read_inv [OF assms, of H _ _ self'] by blast

text \<open>
  C7: in every interleaving of any number of clients with the background tasks the tables stay well formed,
  each table of the queue has a flush signal in the channel, taken by the flush task or still owed by
  a client, and the idle flush task that receives a signal finds a table in the queue.  The steps of
  clients alone never lose or change a full table on its way from the memtable to the queue, and a
  key that some table knows stays known.
\<close>

theorem clients_keep_tables:
  assumes "run (world_step H) (s, cs) ls (s', cs')" "world_inv s cs"
  shows "world_inv s' cs' \<and>
    (sys_flush_task s' = FlushIdle \<longrightarrow> (\<forall>sig s1. recv_flush s' = Some (sig, s1) \<longrightarrow> im_table (db_immutable (sys_db s1)) \<noteq> [])) \<and>
    (None \<notin> set ls \<longrightarrow> full_tables (sys_db s) cs \<subseteq># full_tables (sys_db s') cs' \<and>
      (\<forall>k. knows (sys_db s) cs k \<longrightarrow> knows (sys_db s') cs' k))"
proof -
  from world_run_keeps [OF assms(1)] assms(2) have k: "world_inv s' cs'"
    "None \<notin> set ls \<longrightarrow> full_tables (sys_db s) cs \<subseteq># full_tables (sys_db s') cs' \<and>
      (\<forall>k. knows (sys_db s) cs k \<longrightarrow> knows (sys_db s') cs' k)" by simp_all
  with flush_finds_table [OF k(1)] show ?thesis by blast
qed

theorem clients_keep_tables_witness:
  "\<exists>s s'. run (world_step (\<lambda>s k. s)) (s, [Writing [3] None]) [Some 0] (s', [Rotating [3] None]) \<and>
     world_inv s' [Rotating [3] None] \<and> knows (sys_db s') [Rotating [3] None] [1]"
proof -
  let ?H = "\<lambda>s k. s :: u64"
  obtain self where self: "db_ok ?H [] self" "full (mem_inner (db_memtable self))" "db_memtable_channel self = []" "db_signal self = []"
    "im_table (db_immutable self) = []" "mt_view (mem_inner (db_memtable self)) = [[1] \<mapsto> Some [2]]"
    by (rule example_full [of ?H "[1]"])
  let ?s = "sys_start 0 Map.empty self"
  have "client_step ?H (quiet (wal_new 0 ''w'')) ([Writing [3] None] ! 0) self = Some (Rotating [3] None, self)"
    using self(1,2) by (simp add: writing_step [OF _ example_fits(2)] db_ok_def)
  from clients_step.step [OF _ this] have "clients_step ?H (sys_db ?s, [Writing [3] None]) 0 (self, [Rotating [3] None])"
    by (simp add: sys_start_def)
  from world_step.client [OF this] have run: "run (world_step ?H) (?s, [Writing [3] None]) [Some 0] (?s\<lparr>sys_db := self\<rparr>, [Rotating [3] None])"
    by (simp add: run_single)
  have "world_inv ?s [Writing [3] None]" "knows (sys_db ?s) [Writing [3] None] [1]"
    using self example_fits(2)
    by (simp_all add: world_inv_def taken_def task_inv_def clients_inv_def knows_def full_tables_def db_ok_def client_fits_def
        owes_signal_def sys_start_def)
  then show ?thesis using clients_keep_tables [OF run] run by (intro exI [of _ ?s] exI [of _ "?s\<lparr>sys_db := self\<rparr>"]) simp
qed

section \<open>Linearizability\<close>

text \<open>
  C9: apart from its two gaps the code is linearizable.  Take any schedule of any number of clients in which
  nobody moves while a client carries a full table to the queue, and no retry meets a full table.
  Then every write takes effect at one step of its own call: \<open>fx\<close> says for each step of the schedule which
  write it makes, the write of a client that has returned is made exactly once, by a step of this client, and
  that of a client that has not got there is not made; the contents are these writes applied in the order of the
  steps.  And every \<^verbatim>\<open>get\<close> that starts and returns in the run, of a key that is never deleted and whose
  values have one length, returns what the key has after \<open>m\<close> steps of the schedule, for a point \<open>m\<close> not before
  the first step \<open>a\<close> and not after the last step \<open>b\<close> of this call.  So each call takes effect at a point
  between its start and its return, and the order of the points is that of the calls that do not overlap.
\<close>

theorem serial_clients_linearize:
  assumes "run (serial_step H) (self, cs) is (self', cs')" "serial_inv H Ls self cs" "in_flight cs = []"
  shows "\<exists>fx. length fx = length is \<and>
    (\<forall>j < length cs. pending_of (cs ! j) = mset (effects_of j is fx) + pending_of (cs' ! j)) \<and>
    (in_flight cs' = [] \<longrightarrow> db_view Ls self' = apply_writes (effects fx) (db_view Ls self)) \<and>
    (\<forall>n k j r. stable n k Ls self cs \<and> cs ! j = Reading k \<and> cs' ! j = Finished r \<longrightarrow>
      (\<exists>a m b. a \<le> m \<and> m \<le> b \<and> b < length is \<and> is ! a = j \<and> is ! b = j \<and>
        r = data_of (apply_writes (effects (take m fx)) (db_view Ls self) k)))"
proof -
  have live: "in_flight cs = [] \<Longrightarrow> live_view Ls self cs = db_view Ls self" for self cs
    by (simp add: live_layers_def lower_layers_def db_view_def db_layers_def)
  from serial_run_effect [OF assms(1), of Ls] assms(2) live [OF assms(3)] obtain fx where
    fx: "length fx = length is" "live_view Ls self' cs' = apply_writes (effects fx) (db_view Ls self)"
      "\<forall>j < length cs. pending_of (cs ! j) = mset (effects_of j is fx) + pending_of (cs' ! j)"
      "\<And>n k j. stable n k Ls self cs \<Longrightarrow> results (cs' ! j) \<subseteq>
        may_return Ls self cs k (during j is fx (db_view Ls self) k) (until j is fx (db_view Ls self) k) (cs ! j)"
    by auto
  have "r \<in> during j is fx (db_view Ls self) k"
    if "stable n k Ls self cs" "cs ! j = Reading k" "cs' ! j = Finished r" for n k j r
    using fx(4) [OF that(1), of j] that(2,3) by (simp add: may_return_def results_def)
  then show ?thesis using fx(1-3) live [of cs' self']
    by (intro exI [of _ fx] conjI) (simp_all add: during_def value_after_def, blast)
qed

text \<open>
  A write that rotates the full table, and a read that starts before the write takes effect and returns
  after it.
\<close>

lemma serial_Cons:
  assumes "run (serial_step H) (self1, cs1) is s'" "i < length cs" "cs1 = cs[i := d]" "client_step H env (cs ! i) self = Some (d, self1)"
    and "full_reads (cn_reader env)" "\<forall>j < length cs. j \<noteq> i \<longrightarrow> carry (cs ! j) = []"
    and "\<forall>k p. cs ! i = Retrying k p \<longrightarrow> \<not> full (mem_inner (db_memtable self))"
  shows "run (serial_step H) (self, cs) (i # is) s'"
  using serial_step.step [OF assms(2,4-7)] assms(1,3) by (blast intro: run.step)

lemma overlapping_calls:
  assumes "db_ok H Ls self" "full (mem_inner (db_memtable self))" "mem_max_nodes (db_memtable self) = 1"
    and "0 < mem_max_size (db_memtable self)" "length (db_memtable_channel self) < db_flush_cap self"
    and "rec_fits j q" "db_coherent k self" "mt_view (mem_inner (db_memtable self)) k = Some (Some v)"
  obtains self' where "run (serial_step H) (self, [Writing j q, Reading k]) [0, 0, 0, 1, 0, 0, 1] (self', [Finished None, Finished (Some v)])"
proof -
  let ?w = "wal_new 0 ''w''" and ?t = "mem_inner (db_memtable self)"
  obtain inner where i: "write_entry calm_env j q (fresh_inner ?w self) = Some (Inr inner)"
    using single_slot [OF assms(4,6), of calm_env ?w] assms(3) by metis
  define self1 where "self1 = put_inner (fresh_inner ?w self) self"
  define self2 where "self2 = self1\<lparr>db_immutable := immutable_insert ?t (db_immutable self1)\<rparr>"
  define self3 where "self3 = self2\<lparr>db_memtable_channel := db_memtable_channel self @ [Flush]\<rparr>"
  define self4 where "self4 = put_inner inner self3"
  note d = self4_def self3_def self2_def self1_def
  have np: "\<not> db_poisoned self" "\<not> db_poisoned self2" using assms(1) by (simp_all add: db_ok_def d)
  have nf: "\<not> full (fresh_inner ?w self)" using assms(3,4) by simp
  have inv: "mt_inv t" if "t \<in> insert ?t (set (im_table (db_immutable self)))" for t using assms(1) that by (auto simp: db_ok_def)
  have m: "read_memtable k self2 = Some None"
    using memtable_get_view [of "fresh_inner ?w self" k] by (simp add: read_memtable_def Memtable_get_def d)
  have q: "read_immutable_table k self4 = Some (Some v)"
    using search_inners_first_known [of "?t # rev (im_table (db_immutable self))" k] inv assms(7,8)
    by (simp add: read_immutable_table_def immutable_get_def immutable_insert_def db_coherent_def d)
  let ?run = "\<lambda>self cs is. run (serial_step H) (self, cs) is (self4, [Finished None, Finished (Some v)])"
  note go = serial_Cons [where env = "quiet ?w"]
  have "?run self4 [Finished None, Finished (Some v)] []" by simp
  then have "?run self4 [Finished None, ReadingQueue k] [1]"
    by (rule go [where d = "Finished (Some v)"]) (use q in \<open>auto simp: reading_queue_step full_reads_def less_Suc_eq\<close>)
  then have "?run self3 [Retrying j q, ReadingQueue k] [0, 1]"
    by (rule go [where d = "Finished None"]) (use i nf in \<open>auto simp: retrying_step d full_reads_def less_Suc_eq\<close>)
  then have "?run self2 [Signalling j q, ReadingQueue k] [0, 0, 1]"
    by (rule go [where d = "Retrying j q"]) (use assms(5) in \<open>auto simp: signalling_step chan_send_def d full_reads_def less_Suc_eq\<close>)
  then have "?run self2 [Signalling j q, Reading k] [1, 0, 0, 1]"
    by (rule go [where d = "ReadingQueue k"]) (use m np in \<open>auto simp: reading_step full_reads_def less_Suc_eq\<close>)
  then have "?run self1 [Queueing j q ?t, Reading k] [0, 1, 0, 0, 1]"
    by (rule go [where d = "Signalling j q"]) (auto simp: queueing_step d full_reads_def less_Suc_eq)
  then have "?run self [Rotating j q, Reading k] [0, 0, 1, 0, 0, 1]"
    by (rule go [where d = "Queueing j q ?t"]) (auto simp: rotating_step d full_reads_def less_Suc_eq)
  then have "?run self [Writing j q, Reading k] [0, 0, 0, 1, 0, 0, 1]"
    by (rule go [where d = "Rotating j q"]) (use assms(2,6) np in \<open>auto simp: writing_step full_reads_def less_Suc_eq\<close>)
  then show thesis by (rule that)
qed

theorem serial_clients_linearize_witness:
  "\<exists>self self' fx. run (serial_step (\<lambda>s k. s)) (self, [Writing [3] None, Reading [1]]) [0, 0, 0, 1, 0, 0, 1] (self', [Finished None, Finished (Some [2])]) \<and>
     effects_of 0 [0, 0, 0, 1, 0, 0, 1] fx = [([3], None)] \<and> db_view [] self' = apply_writes (effects fx) (db_view [] self) \<and>
     (\<exists>m. 3 \<le> m \<and> m \<le> 6 \<and> Some [2] = data_of (apply_writes (effects (take m fx)) (db_view [] self) [1]))"
proof -
  let ?H = "\<lambda>s k. s :: u64" and ?cs = "[Writing [3] None, Reading [1]]" and ?is = "[0, 0, 0, 1, 0, 0, 1] :: nat list"
  obtain self where self: "db_ok ?H [] self" "full (mem_inner (db_memtable self))" "mem_max_nodes (db_memtable self) = 1"
    "0 < mem_max_size (db_memtable self)" "db_memtable_channel self = []" "db_flush_cap self = 100" "im_table (db_immutable self) = []"
    "mt_view (mem_inner (db_memtable self)) = [[1] \<mapsto> Some [2]]" "db_coherent [1] self" by (rule example_full [of ?H "[1]"])
  obtain self' where run: "run (serial_step ?H) (self, ?cs) ?is (self', [Finished None, Finished (Some [2])])"
    by (rule overlapping_calls [OF self(1-4) _ example_fits(2) self(9), of "[2]"]) (use self in simp_all)
  have st: "serial_inv ?H [] self ?cs" "in_flight ?cs = []" "stable 1 [1] [] self ?cs"
    using self example_fits(2)
    by (simp_all add: serial_inv_def in_flight_def stable_def live_layers_def lower_layers_def pending_def db_coherent_def)
  from serial_clients_linearize [OF run st(1,2)] obtain fx where
    fx: "\<forall>j < length ?cs. pending_of (?cs ! j) = mset (effects_of j ?is fx) + pending_of ([Finished None, Finished (Some [2])] ! j)"
      "in_flight [Finished None, Finished (Some [2])] = [] \<longrightarrow> db_view [] self' = apply_writes (effects fx) (db_view [] self)"
      "\<forall>n k j r. stable n k [] self ?cs \<and> ?cs ! j = Reading k \<and> [Finished None, Finished (Some [2])] ! j = Finished r \<longrightarrow>
        (\<exists>a m b. a \<le> m \<and> m \<le> b \<and> b < length ?is \<and> ?is ! a = j \<and> ?is ! b = j \<and>
          r = data_of (apply_writes (effects (take m fx)) (db_view [] self) k))" by blast
  have "effects_of 0 ?is fx = [([3], None)]" using fx(1) [rule_format, of 0] by simp
  moreover have "db_view [] self' = apply_writes (effects fx) (db_view [] self)" using fx(2) by (simp add: in_flight_def)
  moreover obtain a m b where m: "a \<le> m" "m \<le> b" "b < length ?is" "?is ! a = 1"
    "Some [2] = data_of (apply_writes (effects (take m fx)) (db_view [] self) [1])"
    using fx(3) [rule_format, of 1 "[1]" 1 "Some [2]"] st(3) by auto
  have "3 \<le> a" by (rule ccontr) (use m(4) in \<open>auto simp: not_le numeral_3_eq_3 less_Suc_eq\<close>)
  then have "3 \<le> m" "m \<le> 6" using m(1-3) by simp_all
  ultimately show ?thesis using run m(5) by blast
qed

section \<open>Races\<close>

text \<open>
  C38: a write can be lost.  When the memtable has room for one entry, a client whose write has rotated the
  full table retries it without looking at the outcome; if another client has filled the new table
  in between, the write is dropped.  Both calls return, and the contents change by the other write only.
\<close>

theorem concurrent_write_lost:
  assumes "\<not> db_poisoned self" "full (mem_inner (db_memtable self))" "mem_max_nodes (db_memtable self) = 1"
    and "0 < mem_max_size (db_memtable self)" "length (db_memtable_channel self) < db_flush_cap self"
    and "rec_fits k p" "rec_fits j q"
  shows "\<exists>self'. run (clients_step H) (self, [Writing k p, Writing j q]) [0, 0, 0, 0, 1, 0] (self', [Finished None, Finished None]) \<and>
    db_view Ls self' = (db_view Ls self)(j \<mapsto> q)"
proof -
  let ?w = "wal_new 0 ''w''"
  obtain inner where i: "write_entry calm_env j q (fresh_inner ?w self) = Some (Inr inner)" "mt_view inner = [j \<mapsto> q]" "full inner"
    using single_slot [OF assms(4,7), of calm_env ?w] assms(3) by metis
  define self1 where "self1 = put_inner (fresh_inner ?w self) self"
  define self2 where "self2 = self1\<lparr>db_immutable := immutable_insert (mem_inner (db_memtable self)) (db_immutable self1)\<rparr>"
  define self3 where "self3 = self2\<lparr>db_memtable_channel := db_memtable_channel self @ [Flush]\<rparr>"
  define self4 where "self4 = put_inner inner self3"
  note d = self4_def self3_def self2_def self1_def
  have "run (clients_step H) (self4, [Finished None, Finished None]) [] (self4, [Finished None, Finished None])" by simp
  then have "run (clients_step H) (self4, [Retrying k p, Finished None]) [0] (self4, [Finished None, Finished None])"
    by (rule schedule_Cons [where env = "quiet ?w" and c = "Retrying k p" and d = "Finished None"])
      (use write_entry_full [OF i(3), of calm_env k p] in \<open>auto simp: retrying_step d\<close>)
  then have "run (clients_step H) (self3, [Retrying k p, Writing j q]) [1, 0] (self4, [Finished None, Finished None])"
    by (rule schedule_Cons [where env = "quiet ?w" and c = "Writing j q" and d = "Finished None"])
      (use i(1) assms(1) in \<open>auto simp: writing_step assms(7) d\<close>)
  then have "run (clients_step H) (self2, [Signalling k p, Writing j q]) [0, 1, 0] (self4, [Finished None, Finished None])"
    by (rule schedule_Cons [where env = "quiet ?w" and c = "Signalling k p" and d = "Retrying k p"])
      (use assms(5) in \<open>auto simp: signalling_step chan_send_def d\<close>)
  then have "run (clients_step H) (self1, [Queueing k p (mem_inner (db_memtable self)), Writing j q]) [0, 0, 1, 0] (self4, [Finished None, Finished None])"
    by (rule schedule_Cons [where env = "quiet ?w" and c = "Queueing k p (mem_inner (db_memtable self))" and d = "Signalling k p"])
      (simp_all add: queueing_step d)
  then have "run (clients_step H) (self, [Rotating k p, Writing j q]) [0, 0, 0, 1, 0] (self4, [Finished None, Finished None])"
    by (rule schedule_Cons [where env = "quiet ?w" and c = "Rotating k p" and d = "Queueing k p (mem_inner (db_memtable self))"])
      (simp_all add: rotating_step d)
  then have "run (clients_step H) (self, [Writing k p, Writing j q]) [0, 0, 0, 0, 1, 0] (self4, [Finished None, Finished None])"
    by (rule schedule_Cons [where env = "quiet ?w" and c = "Writing k p" and d = "Rotating k p"])
      (use assms(1,2) in \<open>simp_all add: writing_step assms(6)\<close>)
  moreover have "db_view Ls self4 = (db_view Ls self)(j \<mapsto> q)"
    by (rule ext) (simp add: db_view_def db_layers_def d i(2) immutable_insert_def)
  ultimately show ?thesis by blast
qed

theorem concurrent_write_lost_witness:
  "\<exists>self self'. run (clients_step (\<lambda>s k. s)) (self, [Writing [3] None, Writing [1] (Some [5])]) [0, 0, 0, 0, 1, 0]
      (self', [Finished None, Finished None]) \<and> db_view [] self' [3] = None"
proof -
  let ?H = "\<lambda>s k. s :: u64"
  obtain self where self: "db_ok ?H [] self" "full (mem_inner (db_memtable self))" "mem_max_nodes (db_memtable self) = 1"
    "0 < mem_max_size (db_memtable self)" "db_memtable_channel self = []" "db_flush_cap self = 100"
    "im_table (db_immutable self) = []" "mt_view (mem_inner (db_memtable self)) = [[1] \<mapsto> Some [2]]"
    by (rule example_full [of ?H "[1]"])
  have np: "\<not> db_poisoned self" and ch: "length (db_memtable_channel self) < db_flush_cap self"
    using self by (simp_all add: db_ok_def)
  have "db_view [] self [3] = None" using self(7,8) by (simp add: db_view_def db_layers_def)
  moreover obtain self' where "run (clients_step ?H) (self, [Writing [3] None, Writing [1] (Some [5])]) [0, 0, 0, 0, 1, 0]
      (self', [Finished None, Finished None])" "db_view [] self' = (db_view [] self)([1] \<mapsto> Some [5])"
    using concurrent_write_lost [OF np self(2-4) ch example_fits(2,3), of ?H "[]"] by blast
  ultimately show ?thesis by (intro exI [of _ self] exI [of _ self']) simp
qed

text \<open>
  C39: a read can miss a written key.  Between the rotation and the insertion into the queue the full table
  is in neither; a \<^verbatim>\<open>get\<close> that runs in this gap returns \<^verbatim>\<open>None\<close> for a key whose value it would have
  returned before.
\<close>

theorem read_misses_rotating_table:
  assumes "db_ok H Ls self" "db_coherent j self" "full (mem_inner (db_memtable self))" "rec_fits k p" "full_reads R"
    and "mt_view (mem_inner (db_memtable self)) j = Some (Some v)"
      "first_known (map mt_view (rev (im_table (db_immutable self)))) j = None" "newest Ls j = None"
  shows "(\<exists>self'. db_get H R j self = Some (Some v, self')) \<and>
    (\<exists>self'. run (clients_step H) (self, [Writing k p, Reading j]) [0, 0, 1, 1, 1]
      (self', [Queueing k p (mem_inner (db_memtable self)), Finished None]))"
proof
  show "\<exists>self'. db_get H R j self = Some (Some v, self')" using db_get_layers [OF assms(1,2,5)] assms(6) by auto
  let ?w = "wal_new 0 ''w''" and ?t = "mem_inner (db_memtable self)"
  define self1 where "self1 = put_inner (fresh_inner ?w self) self"
  have np: "\<not> db_poisoned self" "\<not> db_poisoned self1" using assms(1) by (simp_all add: db_ok_def self1_def)
  have "db_ok H Ls self1" "db_coherent j self1" using assms(1,2) by (simp_all add: db_ok_def db_coherent_def self1_def)
  from db_get_layers [OF this assms(5)] obtain self2 where "db_get H R j self1 = Some (None, self2)"
    using assms(7,8) by (auto simp: self1_def)
  moreover have m: "read_memtable j self1 = Some None"
    using memtable_get_view [of "fresh_inner ?w self" j] by (simp add: read_memtable_def Memtable_get_def self1_def)
  moreover have i: "read_immutable_table j self1 = Some None"
    using search_inners_first_known [of "rev (im_table (db_immutable self))" j] assms(1,2,7)
    by (simp add: read_immutable_table_def immutable_get_def db_ok_def db_coherent_def self1_def)
  ultimately obtain r cache where c: "cache_search H R j (db_sstable_cache self1) = Some (r, cache)"
    "(case r of Inr val \<Rightarrow> Some val | Inl _ \<Rightarrow> None) = None" "self2 = self1\<lparr>db_sstable_cache := cache\<rparr>"
    by (auto simp: db_get_def bind_eq_Some_conv)
  let ?env = "(quiet ?w)\<lparr>cn_reader := R\<rparr>"
  have "run (clients_step H) (self2, [Queueing k p ?t, Finished None]) [] (self2, [Queueing k p ?t, Finished None])" by simp
  then have "run (clients_step H) (self1, [Queueing k p ?t, ReadingTables j]) [1] (self2, [Queueing k p ?t, Finished None])"
    by (rule schedule_Cons [where env = ?env and c = "ReadingTables j" and d = "Finished None"])
      (use c in \<open>simp_all add: reading_tables_step\<close>)
  then have "run (clients_step H) (self1, [Queueing k p ?t, ReadingQueue j]) [1, 1] (self2, [Queueing k p ?t, Finished None])"
    by (rule schedule_Cons [where env = ?env and c = "ReadingQueue j" and d = "ReadingTables j"])
      (use i in \<open>simp_all add: reading_queue_step\<close>)
  then have "run (clients_step H) (self1, [Queueing k p ?t, Reading j]) [1, 1, 1] (self2, [Queueing k p ?t, Finished None])"
    by (rule schedule_Cons [where env = ?env and c = "Reading j" and d = "ReadingQueue j"])
      (use m np in \<open>simp_all add: reading_step\<close>)
  then have "run (clients_step H) (self, [Rotating k p, Reading j]) [0, 1, 1, 1] (self2, [Queueing k p ?t, Finished None])"
    by (rule schedule_Cons [where env = ?env and c = "Rotating k p" and d = "Queueing k p ?t"])
      (simp_all add: rotating_step self1_def)
  then have "run (clients_step H) (self, [Writing k p, Reading j]) [0, 0, 1, 1, 1] (self2, [Queueing k p ?t, Finished None])"
    by (rule schedule_Cons [where env = ?env and c = "Writing k p" and d = "Rotating k p"])
      (use assms(3,4) np in \<open>simp_all add: writing_step\<close>)
  then show "\<exists>self'. run (clients_step H) (self, [Writing k p, Reading j]) [0, 0, 1, 1, 1] (self', [Queueing k p ?t, Finished None])" by blast
qed

theorem read_misses_rotating_table_witness:
  "\<exists>self self1 self' t. db_get (\<lambda>s k. s) (\<lambda>_ n. Inr n) [1] self = Some (Some [2], self1) \<and>
     run (clients_step (\<lambda>s k. s)) (self, [Writing [3] None, Reading [1]]) [0, 0, 1, 1, 1] (self', [Queueing [3] None t, Finished None])"
proof -
  let ?H = "\<lambda>s k. s :: u64"
  obtain self where self: "db_ok ?H [] self" "full (mem_inner (db_memtable self))" "im_table (db_immutable self) = []"
    "mt_view (mem_inner (db_memtable self)) = [[1] \<mapsto> Some [2]]" "db_coherent [1] self" by (rule example_full [of ?H "[1]"])
  have "full_reads (\<lambda>_ n. Inr n)" "mt_view (mem_inner (db_memtable self)) [1] = Some (Some [2])"
    "first_known (map mt_view (rev (im_table (db_immutable self)))) [1] = None" "newest [] [1] = None"
    using self(3,4) by (simp_all add: full_reads_def)
  from read_misses_rotating_table [OF self(1,5,2) example_fits(2) this] show ?thesis by blast
qed

text \<open>
  C40: two rotations may enter the queue in the wrong order.  While one client carries a full table that
  holds \<open>k\<close>, another writes a new value of \<open>k\<close> into the next table, and a third rotates this newer table into
  the queue first.  When all calls have returned, the newer table with the new value is in the queue, but
  before the older one, so that the queue counts the older table as the newer, and the contents have the old
  value of \<open>k\<close> again.
\<close>

theorem rotations_change_order:
  assumes "\<not> db_poisoned self" "full (mem_inner (db_memtable self))" "mem_max_nodes (db_memtable self) = 1"
    and "0 < mem_max_size (db_memtable self)" "Suc (length (db_memtable_channel self)) < db_flush_cap self"
    and "rec_fits k' p'" "rec_fits k p" "rec_fits j q" "j \<noteq> k" "mt_view (mem_inner (db_memtable self)) k = Some old"
  shows "\<exists>is self' newer. run (clients_step H) (self, [Writing k' p', Writing k p, Writing j q]) is
      (self', [Finished None, Finished None, Finished None]) \<and> mt_view newer k = Some p \<and>
    im_table (db_immutable self') = im_table (db_immutable self) @ [newer, mem_inner (db_memtable self)] \<and>
    db_view Ls self' k = Some old"
proof -
  let ?w = "wal_new 0 ''w''" and ?t = "mem_inner (db_memtable self)" and ?F = "Finished None"
  obtain t1 where t1: "write_entry calm_env k p (fresh_inner ?w self) = Some (Inr t1)" "full t1" "mt_view t1 = [k \<mapsto> p]"
    using single_slot [OF assms(4,7), of calm_env ?w] assms(3) by metis
  obtain t2 where t2: "write_entry calm_env j q (fresh_inner ?w self) = Some (Inr t2)" "mt_view t2 = [j \<mapsto> q]" "full t2"
    using single_slot [OF assms(4,8), of calm_env ?w] assms(3) by metis
  define self1 where "self1 = put_inner (fresh_inner ?w self) self"
  define self2 where "self2 = put_inner t1 self1"
  define self3 where "self3 = self2\<lparr>db_memtable := (db_memtable self2)\<lparr>mem_inner := t2\<rparr>,
    db_immutable := immutable_insert t1 (db_immutable self2), db_memtable_channel := db_memtable_channel self @ [Flush]\<rparr>"
  define self4 where "self4 = self3\<lparr>db_immutable := immutable_insert ?t (db_immutable self3)\<rparr>"
  define self5 where "self5 = self4\<lparr>db_memtable_channel := db_memtable_channel self @ [Flush, Flush]\<rparr>"
  note d = self5_def self4_def self3_def self2_def self1_def
  have "run (clients_step H) (self5, [?F, ?F, ?F]) [] (self5, [?F, ?F, ?F])" by simp
  then have "run (clients_step H) (self5, [Retrying k' p', ?F, ?F]) [0] (self5, [?F, ?F, ?F])"
    by (rule schedule_Cons [where env = "quiet ?w" and c = "Retrying k' p'" and d = ?F])
      (use write_entry_full [OF t2(3), of calm_env k' p'] in \<open>auto simp: retrying_step d\<close>)
  then have "run (clients_step H) (self4, [Signalling k' p', ?F, ?F]) [0, 0] (self5, [?F, ?F, ?F])"
    by (rule schedule_Cons [where env = "quiet ?w" and c = "Signalling k' p'" and d = "Retrying k' p'"])
      (use assms(5) in \<open>auto simp: signalling_step chan_send_def d\<close>)
  then have A: "run (clients_step H) (self3, [Queueing k' p' ?t, ?F, ?F]) [0, 0, 0] (self5, [?F, ?F, ?F])"
    by (rule schedule_Cons [where env = "quiet ?w" and c = "Queueing k' p' ?t" and d = "Signalling k' p'"])
      (simp_all add: queueing_step d)
  have "db_write \<lparr>oe_first = calm_env, oe_second = calm_env, oe_wal = Inr ?w\<rparr> j q self2 = Some self3"
    using t1(2) t2(1) assms(1,5) by (simp add: db_write_eq [OF _ assms(8)] rotate_table_def Memtable_rotate_def
        memtable_inner_new_def chan_send_def d)
  then obtain "is" where "run (clients_step H) (self2, [Writing j q]) is (self3, [?F])"
    using alone_write_runs [OF _ assms(8)] assms(1) by (fastforce simp: d)
  then have "run (clients_step H) (self2, [Queueing k' p' ?t, ?F, Writing j q]) (map (\<lambda>_. 2) is) (self3, [Queueing k' p' ?t, ?F, ?F])"
    using undisturbed [of H self2 "Writing j q" "is" self3 ?F 2 "[Queueing k' p' ?t, ?F, Writing j q]"] by (simp add: numeral_2_eq_2)
  with A have "run (clients_step H) (self2, [Queueing k' p' ?t, ?F, Writing j q]) (map (\<lambda>_. 2) is @ [0, 0, 0]) (self5, [?F, ?F, ?F])"
    by (auto simp: run_append)
  then have "run (clients_step H) (self1, [Queueing k' p' ?t, Writing k p, Writing j q]) (1 # map (\<lambda>_. 2) is @ [0, 0, 0]) (self5, [?F, ?F, ?F])"
    by (rule schedule_Cons [where env = "quiet ?w" and c = "Writing k p" and d = ?F])
      (use t1(1) assms(1) in \<open>auto simp: writing_step assms(7) d\<close>)
  then have "run (clients_step H) (self, [Rotating k' p', Writing k p, Writing j q]) (0 # 1 # map (\<lambda>_. 2) is @ [0, 0, 0]) (self5, [?F, ?F, ?F])"
    by (rule schedule_Cons [where env = "quiet ?w" and c = "Rotating k' p'" and d = "Queueing k' p' ?t"])
      (simp_all add: rotating_step d)
  then have "run (clients_step H) (self, [Writing k' p', Writing k p, Writing j q]) (0 # 0 # 1 # map (\<lambda>_. 2) is @ [0, 0, 0]) (self5, [?F, ?F, ?F])"
    by (rule schedule_Cons [where env = "quiet ?w" and c = "Writing k' p'" and d = "Rotating k' p'"])
      (use assms(1,2) in \<open>simp_all add: writing_step assms(6)\<close>)
  moreover have "db_view Ls self5 k = Some old" "im_table (db_immutable self5) = im_table (db_immutable self) @ [t1, ?t]" "mt_view t1 k = Some p"
    using assms(9,10) t2(2) t1(3) by (simp_all add: db_view_def db_layers_def d immutable_insert_def)
  ultimately show ?thesis by blast
qed

theorem rotations_change_order_witness:
  "\<exists>self is self' older newer. run (clients_step (\<lambda>s k. s)) (self, [Writing [3] None, Writing [1] (Some [5]), Writing [3] None]) is
      (self', [Finished None, Finished None, Finished None]) \<and> im_table (db_immutable self') = [newer, older] \<and>
     mt_view newer [1] = Some (Some [5]) \<and> mt_view older [1] = Some (Some [2]) \<and> db_view [] self' [1] = Some (Some [2])"
proof -
  let ?H = "\<lambda>s k. s :: u64"
  obtain self where self: "db_ok ?H [] self" "full (mem_inner (db_memtable self))" "mem_max_nodes (db_memtable self) = 1"
    "0 < mem_max_size (db_memtable self)" "db_memtable_channel self = []" "db_flush_cap self = 100"
    "mt_view (mem_inner (db_memtable self)) = [[1] \<mapsto> Some [2]]" "im_table (db_immutable self) = []"
    by (rule example_full [of ?H "[1]"])
  have np: "\<not> db_poisoned self" "Suc (length (db_memtable_channel self)) < db_flush_cap self" "[3 :: u8] \<noteq> [1]"
    "mt_view (mem_inner (db_memtable self)) [1] = Some (Some [2])"
    using self by (simp_all add: db_ok_def)
  from rotations_change_order [OF np(1) self(2-4) np(2) example_fits(2,3,2) np(3,4), of ?H "[]"] np(4) self(8) show ?thesis by fastforce
qed

end
