(* ===== verification/Spec2Isabelle.thy ===== *)
theory Spec2Isabelle
  imports Errors Codec_Props Memtable_Props Table_Props Store_Props System_Props Client_Props
begin

text \<open>
  A verification development for lsmlite, a log-structured merge-tree storage engine written in Rust
  (\<^verbatim>\<open>src/src\<close>).

  \<^bold>\<open>The program.\<close>  A write goes to the write-ahead log and to the memtable, a red-black tree in an arena.
  A full memtable is rotated into the queue of immutable memtables; the flush task writes the oldest
  of them to an SSTable file (header, data block, trie index, Bloom filter, footer), deletes its log,
  and asks the load task to open the file and to put it in front of the cache of open tables, after
  which the memtable leaves the queue.  When the cache reaches the compaction rate the load task
  merges all tables into one and deletes the old files.  A read asks the memtable, the queue (newest
  first) and the tables (newest first).  A restart replays the logs and opens the tables it finds in
  the directory.

  \<^bold>\<open>Theories and sources.\<close>

  \<^item> \<open>Lsm_Prelude\<close>: types, Rust slices and arithmetic as partial functions, orderings, shared lemmas;
    \<open>Constants\<close>: \<^verbatim>\<open>constants/mod.rs\<close>; \<open>Os_File\<close>: a file as contents and position, with the operating
    system's choice of how much a read or write transfers as a parameter.
  \<^item> \<open>Varint\<close>: \<^verbatim>\<open>util/mod.rs\<close>; \<open>Disk_Record\<close>: \<^verbatim>\<open>disk/encode.rs\<close>, \<^verbatim>\<open>disk/decode.rs\<close>, \<^verbatim>\<open>memtable/record.rs\<close>;
    \<open>Record_Iter\<close>: the contract of the two record iterators (locale, interpreted for the log and for
    the SSTable iterator); \<open>Wal\<close>: \<^verbatim>\<open>wal/mod.rs\<close>.
  \<^item> \<open>Memtable_Inner\<close>: the operations of \<^verbatim>\<open>memtable/inner.rs\<close>; \<open>Rb_Zipper\<close>: red-black trees as functional
    trees with the path to a node; \<open>Arena_Rep\<close>, \<open>Arena_Insert\<close>: the arena represents such a tree, the
    rotations and the fix-up loop refine the operations on it; \<open>Kv_Table\<close>: the contract of a table of
    records (locale); \<open>Memtable\<close>, \<open>Memtable_Api\<close>: the invariant, the contents of the table, the public
    operations and \<^verbatim>\<open>memtable/mod.rs\<close>; \<open>Search_Cost\<close>: the height of red-black trees and the number of
    nodes a search reads; \<open>Wal_Recovery\<close>: \<^verbatim>\<open>from_wal\<close>; \<open>Generation\<close>: a memtable against the sequence of
    writes it has accepted, and the keys for which its reads are exact.
  \<^item> \<open>Trie\<close>, \<open>Trie_Codec\<close>: \<^verbatim>\<open>ssindex/trie.rs\<close>; \<open>Bloom\<close>: \<^verbatim>\<open>sstable/bloom_filter.rs\<close>; \<open>Data_Block\<close>:
    \<^verbatim>\<open>disk/mod.rs\<close>; \<open>SSTable\<close>: \<^verbatim>\<open>sstable/mod.rs\<close>, \<^verbatim>\<open>sstable/footer.rs\<close>, \<^verbatim>\<open>sstable/iterator.rs\<close>, \<^verbatim>\<open>ssindex/mod.rs\<close>;
    \<open>Sst_Index\<close>: what an open table with given entries looks like; \<open>SSTable_Write\<close>: \<^verbatim>\<open>sstable/encode.rs\<close>
    and the flush, with the contract of the writers of tables (locale \<open>sst_builder\<close>, interpreted for
    the flush and for the compaction writer); \<open>Sst_Cache\<close>: the cache against its contents.
  \<^item> \<open>Binary_Heap\<close>: the standard library's binary heap; \<open>Compaction_Writer\<close>:
    \<^verbatim>\<open>sstable/compaction_writer.rs\<close>; \<open>Merge_Spec\<close>: what a merge of sorted tables may yield; \<open>Compaction\<close>,
    \<open>Compaction_Correct\<close>: \<^verbatim>\<open>run_compaction\<close> of \<^verbatim>\<open>compaction/mod.rs\<close> and its refinement of that
    specification (locale \<open>min_queue\<close>, interpreted for the heap of records).
  \<^item> \<open>Config\<close>: \<^verbatim>\<open>config/mod.rs\<close>; \<open>Errors\<close>: \<^verbatim>\<open>error.rs\<close>; \<open>Restart\<close>: \<^verbatim>\<open>restart/mod.rs\<close>, \<^verbatim>\<open>restart/worker.rs\<close> and the
    file names of \<^verbatim>\<open>util/mod.rs\<close>; \<open>Immutable\<close>: \<^verbatim>\<open>memtable/immutable.rs\<close>; \<open>Database\<close>: \<^verbatim>\<open>database/inner.rs\<close>
    and \<^verbatim>\<open>database/mod.rs\<close>; \<open>Background\<close>: \<^verbatim>\<open>flush_memtable\<close>, \<^verbatim>\<open>sstable_background\<close> and \<^verbatim>\<open>cleanup\<close>.
  \<^item> \<open>Transition\<close>: runs of labelled transition systems and forward simulation (locale); \<open>Lsm_Spec\<close>: the
    database as an abstract machine over the history of its writes, with compaction as any merge and
    reads that ask the layers one after the other;
    \<open>System\<close>: the program as a transition system and the relation to that machine; \<open>System_Correct\<close>: what
    each step does; \<open>Simulation\<close>: the simulation with the answers of the reads (the locale interpreted for
    the system), and the progress of the background tasks; \<open>Restart_Correct\<close>: opening a directory; \<open>Crash\<close>: what
    a crash leaves, the simulation extended by the files, the restart on them, and the logs a restart
    leaves; \<open>Failures\<close>: failed flushes and SSTable files that do not open; \<open>Sample_Run\<close>: a new database and
    the runs the properties are tried on; \<open>Clients\<close>: clients whose calls interleave lock by lock,
    with each other and with the background tasks; \<open>Linear\<close>: the schedules of clients that are linearizable.
  \<^item> \<open>Codec_Props\<close>, \<open>Memtable_Props\<close>, \<open>Table_Props\<close>, \<open>Store_Props\<close>, \<open>System_Props\<close>, \<open>Client_Props\<close>: the
    properties, each with a concrete instance where it has hypotheses.

  \<^bold>\<open>Correspondence.\<close>  Structs are records with prefixed field names, enums are datatypes.  A method that
  changes \<^verbatim>\<open>self\<close> returns the new state.  \<open>None\<close> is a panic (index out of bounds, overflow, \<^verbatim>\<open>unwrap\<close>,
  \<^verbatim>\<open>expect\<close>, \<^verbatim>\<open>todo!\<close>, \<^verbatim>\<open>unreachable!\<close>) and, for loops written with \<^verbatim>\<open>loop\<close>, also non-termination; an error
  is \<open>Inl\<close> of a sum.  Machine integers are words where they wrap or are stored; \<^verbatim>\<open>usize\<close> values that index
  buffers are natural numbers, with the overflow check written out where a sum can exceed 64 bits.
  Uninitialised buffers are an arbitrary argument.  Parameters of the model are the operating system
  (how many bytes a call transfers, whether it fails), the clock, the hash function, the growth policy
  of vectors and the floating-point choice of the number of hashes.  A lock makes a call one step; what
  interleaves with what is the step relation of \<open>System\<close>: client writes and reads, turns of the flush task,
  turns of the load task and acknowledgements, in any order.  In \<open>Clients\<close> every lock is a step of its
  own.  A send to a full channel has no successor state until the receiver has made room.

  \<^bold>\<open>What is shown.\<close>

  \<^item> Codecs: varints, records, trie and Bloom blocks and whole SSTables are read back as written;
    truncated input is never decoded; sizes agree with encodings.
  \<^item> Memtable: every operation keeps the red-black and ordering invariant of the arena and acts as a map
    update; reads answer from the map; the loops end, a search after logarithmically many nodes;
    recovery yields exactly a prefix of the writes.
  \<^item> Tables: searches answer from the entries, the newest table decides, a Bloom filter has no false
    negatives; compaction terminates and yields a merge of its inputs.
  \<^item> System: every run, compactions included, is a run of the abstract machine, reads included: a read
    of a key whose writes within each generation are clean answers layer by layer, a tombstone ending
    the search of its layer only.  For a key that is never deleted and whose values have one length this is a
    map: without a compaction reads return the last write, with compactions some value that was
    written, and one if there was one.  The queue drains.  A restart restores the newest entries of the files;
    after a crash between two steps it finds of every memtable generation a prefix, complete when the
    generation has reached an SSTable.  A flush that fails changes nothing but its own file.
  \<^item> Clients: a call that is not disturbed is atomic; in every interleaving of any number of clients
    with the background tasks the tables stay well formed and every flush signal finds its table, and
    the clients lose nothing that is known.  Schedules that stay out of the two gaps of a write (from
    the rotation to the queue, and from there to the retry) are linearizable: every call takes effect
    at a point between its first and its last step (reads, for keys never deleted with values of one length).
  \<^item> Where the code does something else than its comments or \<^verbatim>\<open>docs/protocol.md\<close> say, a theorem states
    what it does: the stale value window after an overwrite, rewritten tombstones, torn logs, records
    with long keys, trie nodes with 256 children, short writes, the choice between equal keys in
    compaction, tombstones that do not end a read, the deletion of the compacted table, empty logs after
    a restart, restarts on the file a failed flush has left, and three races between clients: a dropped write, a missed read, and tables that enter
    the queue in the wrong order.

  \<^bold>\<open>Bounds.\<close>  \<open>rec_fits\<close> bounds a record by \<open>2 ^ 63\<close> bytes (no buffer is longer); \<open>flushable\<close> bounds the
  keys of a table by \<open>2 ^ 32\<close> bytes (node numbers of the trie are 32-bit) and its records by \<open>2 ^ 61\<close>
  bytes (file offsets share a word with a flag), and excludes trie nodes with 256 children and records
  whose head exceeds the read buffer, which are the cases the error theorems treat.  \<open>in_bounds\<close> asks this
  of every generation of the memtable in a run, and of all writes together when a compaction happens.
  No proof uses fuel: loops are \<open>partial_function (option)\<close> with separate theorems that they return, or
  terminating functions.

  \<^bold>\<open>Not modelled.\<close>  Crashes in the middle of a step, so those inside a turn of the flush task (from the creation
  of its file to the deletion of the log) or of the load task (a half-written SSTable is treated only where
  a failed flush leaves it); clients that move between the locks of one turn of the load task; a capacity of
  the memtable's vector beyond the one asked for; and the loss of data the operating system has accepted but not stored; the files
  that a construction which panics has already deleted; the refinement of the abstract machine
  when calls interleave lock by lock (\<open>System\<close> takes a call as one step; the races of \<open>Clients\<close> show that
  it does not hold then); receivers
  that have gone when a client sends (clients send only while the flag is not poisoned and before
  shutdown); the channel limit of the runtime; the re-use of a file name within one nanosecond;
  file-name encodings other than UTF-8; derived deserialisation of the configuration; tests.
\<close>

end
